(* ===== verification/Velas_Prelude.thy ===== *)
theory Velas_Prelude
  imports Main "HOL-Library.Word"
begin

text \<open>
  Shared vocabulary of the development: results with errors and panics, the Rust integer
  operations the sources call, the binary search of the Rust slice library, ordered maps, and the
  generic invariant argument for machines that run a sequence of instructions.

  Integers keep their width: \<open>u64\<close> is \<open>64 word\<close>. An operator written plainly in the
  sources (\<open>+\<close>, \<open>-\<close>, \<open>*\<close>) is the wrapping operator of the release profile, since
  the workspace manifest switches on no overflow checks; the \<open>checked_\<close> and \<open>saturating_\<close>
  methods are the definitions below. A \<open>usize\<close> that indexes a vector is a \<open>nat\<close>.
\<close>

section \<open>Machine types\<close>

type_synonym u8 = "8 word"
type_synonym u32 = "32 word"
type_synonym u64 = "64 word"
type_synonym u128 = "128 word"
type_synonym pubkey = "256 word"
type_synonym hash = "256 word"
type_synonym slot = u64
type_synonym epoch = u64

abbreviation u64_MAX :: u64 where
  "u64_MAX \<equiv> 18446744073709551615"

section \<open>Proof collections\<close>

named_theorems word_nat \<open>facts that move a statement on words to natural numbers\<close>
named_theorems res_elim \<open>equivalences that take apart a successful computation\<close>

section \<open>Results\<close>

text \<open>
  A \<open>Result<A, E>\<close> of the sources. Besides an error value a call may panic (a failed
  assertion, an \<open>unwrap\<close> of \<open>None\<close>, an index out of range); a panic is a value of the
  model, so that its absence is a theorem.
\<close>

datatype 'e failure = Err 'e | Panic

type_synonym ('e, 'a) res = "'e failure + 'a"

fun and_then :: "('e, 'a) res \<Rightarrow> ('a \<Rightarrow> ('e, 'b) res) \<Rightarrow> ('e, 'b) res" where
  "and_then (Inl e) f = Inl e"
| "and_then (Inr x) f = f x"

definition fail :: "'e \<Rightarrow> ('e, 'a) res" where
  "fail e = Inl (Err e)"

definition ensure :: "bool \<Rightarrow> 'e \<Rightarrow> ('e, unit) res" where
  "ensure b e = (if b then Inr () else Inl (Err e))"

definition assert_that :: "bool \<Rightarrow> ('e, unit) res" where
  "assert_that b = (if b then Inr () else Inl Panic)"

definition ok_or :: "'a option \<Rightarrow> 'e \<Rightarrow> ('e, 'a) res" where
  "ok_or x e = (case x of None \<Rightarrow> Inl (Err e) | Some y \<Rightarrow> Inr y)"

definition unwrap :: "'a option \<Rightarrow> ('e, 'a) res" where
  "unwrap x = (case x of None \<Rightarrow> Inl Panic | Some y \<Rightarrow> Inr y)"

definition map_err :: "('e \<Rightarrow> 'f) \<Rightarrow> ('e, 'a) res \<Rightarrow> ('f, 'a) res" where
  "map_err g m = (case m of Inl (Err e) \<Rightarrow> Inl (Err (g e)) | Inl Panic \<Rightarrow> Inl Panic | Inr x \<Rightarrow> Inr x)"

definition is_ok :: "('e, 'a) res \<Rightarrow> bool" where
  "is_ok m = (case m of Inl _ \<Rightarrow> False | Inr _ \<Rightarrow> True)"

lemma and_then_eq_Inr [res_elim]:
  "and_then m f = Inr y \<longleftrightarrow> (\<exists>x. m = Inr x \<and> f x = Inr y)"
  by (cases m) auto

lemma and_then_eq_Inl:
  "and_then m f = Inl e \<longleftrightarrow> m = Inl e \<or> (\<exists>x. m = Inr x \<and> f x = Inl e)"
  by (cases m) auto

lemma and_then_cong [fundef_cong]:
  "m = m' \<Longrightarrow> (\<And>x. m' = Inr x \<Longrightarrow> f x = f' x) \<Longrightarrow> and_then m f = and_then m' f'"
  by (cases m') auto

lemma and_then_assoc: "and_then (and_then m f) g = and_then m (\<lambda>x. and_then (f x) g)"
  by (cases m) auto

lemma fail_eq [res_elim]: "fail e = Inr y \<longleftrightarrow> False"
  by (simp add: fail_def)

lemma ensure_eq_Inr [res_elim]: "ensure b e = Inr u \<longleftrightarrow> b"
  by (simp add: ensure_def)

lemma assert_that_eq_Inr [res_elim]: "assert_that b = Inr u \<longleftrightarrow> b"
  by (simp add: assert_that_def)

lemma ok_or_eq_Inr [res_elim]: "ok_or x e = Inr y \<longleftrightarrow> x = Some y"
  by (simp add: ok_or_def split: option.split)

lemma unwrap_eq_Inr [res_elim]: "unwrap x = Inr y \<longleftrightarrow> x = Some y"
  by (simp add: unwrap_def split: option.split)

lemma map_err_eq_Inr [res_elim]: "map_err g m = Inr y \<longleftrightarrow> m = Inr y"
  by (simp add: map_err_def split: sum.split failure.split)

lemma no_panic_simps [simp]:
  "fail e \<noteq> Inl Panic" "ensure b e \<noteq> Inl Panic" "ok_or x e \<noteq> Inl Panic"
  "map_err g m = Inl Panic \<longleftrightarrow> m = Inl Panic"
  "assert_that b = Inl Panic \<longleftrightarrow> \<not> b" "unwrap y = Inl Panic \<longleftrightarrow> y = None"
  by (simp_all add: fail_def ensure_def ok_or_def map_err_def assert_that_def unwrap_def
      split: option.split sum.split failure.split)

lemma and_then_panic:
  "and_then m f = Inl Panic \<longleftrightarrow> m = Inl Panic \<or> (\<exists>x. m = Inr x \<and> f x = Inl Panic)"
  by (rule and_then_eq_Inl)

lemma is_ok_iff: "is_ok m \<longleftrightarrow> (\<exists>x. m = Inr x)"
  by (simp add: is_ok_def split: sum.split)

lemma result_evals [simp]:
  "ensure True e = Inr ()" "ensure False e = Inl (Err e)"
  "assert_that True = Inr ()" "assert_that False = Inl Panic"
  "ok_or None e = Inl (Err e)" "ok_or (Some y) e = Inr y"
  "unwrap None = Inl Panic" "unwrap (Some y) = Inr y"
  "map_err g (Inl (Err a)) = Inl (Err (g a))" "map_err g (Inl Panic) = Inl Panic"
  "map_err g (Inr z) = Inr z"
  by (simp_all add: ensure_def assert_that_def ok_or_def unwrap_def map_err_def)

section \<open>Integer methods\<close>

definition checked_add_w :: "'a::len word \<Rightarrow> 'a word \<Rightarrow> 'a word option" where
  "checked_add_w a b = (if unat a + unat b < 2 ^ LENGTH('a) then Some (a + b) else None)"

definition checked_sub_w :: "'a::len word \<Rightarrow> 'a word \<Rightarrow> 'a word option" where
  "checked_sub_w a b = (if b \<le> a then Some (a - b) else None)"

definition checked_mul_w :: "'a::len word \<Rightarrow> 'a word \<Rightarrow> 'a word option" where
  "checked_mul_w a b = (if unat a * unat b < 2 ^ LENGTH('a) then Some (a * b) else None)"

definition checked_div_w :: "'a::len word \<Rightarrow> 'a word \<Rightarrow> 'a word option" where
  "checked_div_w a b = (if b = 0 then None else Some (a div b))"

definition checked_rem_w :: "'a::len word \<Rightarrow> 'a word \<Rightarrow> 'a word option" where
  "checked_rem_w a b = (if b = 0 then None else Some (a mod b))"

definition saturating_add_w :: "'a::len word \<Rightarrow> 'a word \<Rightarrow> 'a word" where
  "saturating_add_w a b = (if unat a + unat b < 2 ^ LENGTH('a) then a + b else - 1)"

definition saturating_sub_w :: "'a::len word \<Rightarrow> 'a word \<Rightarrow> 'a word" where
  "saturating_sub_w a b = (if b \<le> a then a - b else 0)"

definition saturating_mul_w :: "'a::len word \<Rightarrow> 'a word \<Rightarrow> 'a word" where
  "saturating_mul_w a b = (if unat a * unat b < 2 ^ LENGTH('a) then a * b else - 1)"

text \<open>\<open>u64::try_from\<close> of a \<open>u128\<close>, and the widening \<open>u128::from\<close>.\<close>

definition try_u64 :: "u128 \<Rightarrow> u64 option" where
  "try_u64 x = (if unat x < 2 ^ 64 then Some (ucast x) else None)"

definition to_u128 :: "u64 \<Rightarrow> u128" where
  "to_u128 x = ucast x"

lemma unat_add_no_wrap [word_nat]:
  "unat a + unat b < 2 ^ LENGTH('a) \<Longrightarrow> unat (a + b :: 'a::len word) = unat a + unat b"
  by (simp add: unat_word_ariths)

lemma unat_mult_no_wrap [word_nat]:
  "unat a * unat b < 2 ^ LENGTH('a) \<Longrightarrow> unat (a * b :: 'a::len word) = unat a * unat b"
  by (simp add: unat_word_ariths)

lemma unat_sub_no_wrap [word_nat]:
  "b \<le> a \<Longrightarrow> unat (a - b :: 'a::len word) = unat a - unat b"
  by (simp add: unat_sub)

lemma checked_add_w_eq_Some:
  "checked_add_w a b = Some c \<longleftrightarrow>
     unat a + unat b < 2 ^ LENGTH('a) \<and> c = (a + b :: 'a::len word)"
  by (auto simp: checked_add_w_def)

lemma checked_add_w_unat:
  "checked_add_w a b = Some (c :: 'a::len word) \<Longrightarrow> unat c = unat a + unat b"
  by (auto simp: checked_add_w_eq_Some word_nat)

lemma checked_sub_w_unat:
  "checked_sub_w a b = Some (c :: 'a::len word) \<Longrightarrow> unat b \<le> unat a \<and> unat c = unat a - unat b"
  by (auto simp: checked_sub_w_def word_nat word_le_nat_alt split: if_splits)

lemma checked_sub_w_eq_Some:
  "checked_sub_w a b = Some c \<longleftrightarrow> b \<le> a \<and> c = (a - b :: 'a::len word)"
  by (auto simp: checked_sub_w_def)

lemma checked_mul_w_unat:
  "checked_mul_w a b = Some (c :: 'a::len word) \<Longrightarrow> unat c = unat a * unat b"
  by (auto simp: checked_mul_w_def word_nat split: if_splits)

lemma unat_max_word: "unat (- 1 :: 'a::len word) = 2 ^ LENGTH('a) - 1"
  by (simp add: unsigned_minus_1_eq_mask mask_eq_exp_minus_1)

lemma unat_saturating_add_w:
  "unat (saturating_add_w a (b :: 'a::len word)) = min (unat a + unat b) (2 ^ LENGTH('a) - 1)"
  by (auto simp: saturating_add_w_def word_nat unat_max_word min_def)

lemma unat_saturating_sub_w:
  "unat (saturating_sub_w a (b :: 'a::len word)) = unat a - unat b"
  by (auto simp: saturating_sub_w_def word_nat word_le_nat_alt)

lemma saturating_sub_w_le: "saturating_sub_w a b \<le> (a :: 'a::len word)"
  by (simp add: word_le_nat_alt unat_saturating_sub_w)

lemma unat_to_u128 [simp]: "unat (to_u128 x) = unat x"
  using unsigned_less [of x, where ?'a = nat]
  by (simp add: to_u128_def unsigned_ucast_eq take_bit_nat_eq_self_iff)

lemma try_u64_unat: "try_u64 x = Some y \<Longrightarrow> unat y = unat x"
  by (auto simp: try_u64_def unsigned_ucast_eq take_bit_nat_eq_self_iff split: if_splits)

lemma u64_le_MAX [simp]: "(x :: u64) \<le> u64_MAX"
proof -
  have "u64_MAX = (- 1 :: u64)" by simp
  then show ?thesis by (metis word_order.extremum)
qed

lemma unat_u64_less [simp]: "unat (x :: u64) < 18446744073709551616"
  using unsigned_less [of x, where ?'a = nat] by simp

lemma unat_u64_le: "unat (x :: u64) \<le> 18446744073709551615"
  using unat_u64_less [of x] by linarith

lemma unat_next: "x < (y :: u64) \<Longrightarrow> unat (x + 1) = unat x + 1"
proof -
  assume "x < y"
  then have "unat x + 1 < 18446744073709551616"
    using unat_u64_less [of y] unfolding word_less_nat_alt by linarith
  then show ?thesis using unat_add_no_wrap [of x 1] by simp
qed

section \<open>Ordering and binary search\<close>

text \<open>
  \<open>std::cmp::Ordering\<close>, and \<open>binary_search_by\<close> of the slice library: the comparator says how
  the probed element lies to the wanted one; \<open>Inr\<close> is \<open>Ok(index)\<close> of a match, \<open>Inl\<close>
  is \<open>Err(index)\<close>, the place where the element would be inserted.
\<close>

datatype ordering = Less | Equal | Greater

definition cmp :: "'a::linorder \<Rightarrow> 'a \<Rightarrow> ordering" where
  "cmp a b = (if a < b then Less else if a = b then Equal else Greater)"

fun rank :: "ordering \<Rightarrow> nat" where
  "rank Less = 0"
| "rank Equal = 1"
| "rank Greater = 2"

function bsearch :: "(nat \<Rightarrow> ordering) \<Rightarrow> nat \<Rightarrow> nat \<Rightarrow> nat + nat" where
  "bsearch f left right =
     (if left < right then
        let mid = left + (right - left) div 2 in
        case f mid of
          Less \<Rightarrow> bsearch f (Suc mid) right
        | Greater \<Rightarrow> bsearch f left mid
        | Equal \<Rightarrow> Inr mid
      else Inl left)"
  by pat_completeness auto
termination
  by (relation "measure (\<lambda>(f, left, right). right - left)") auto

declare bsearch.simps [simp del]

definition binary_search_by :: "('a \<Rightarrow> ordering) \<Rightarrow> 'a list \<Rightarrow> nat + nat" where
  "binary_search_by f xs = bsearch (\<lambda>i. f (xs ! i)) 0 (length xs)"

definition partitioned :: "(nat \<Rightarrow> ordering) \<Rightarrow> nat \<Rightarrow> bool" where
  "partitioned f n \<longleftrightarrow> (\<forall>i j. i \<le> j \<and> j < n \<longrightarrow> rank (f i) \<le> rank (f j))"

lemma partitioned_below:
  "partitioned f n \<Longrightarrow> i \<le> j \<Longrightarrow> j < n \<Longrightarrow> f j = Less \<Longrightarrow> f i = Less"
  unfolding partitioned_def by (cases "f i") (metis rank.simps not_one_le_zero le_zero_eq zero_neq_numeral)+

lemma partitioned_above:
  "partitioned f n \<Longrightarrow> i \<le> j \<Longrightarrow> j < n \<Longrightarrow> f i = Greater \<Longrightarrow> f j = Greater"
  unfolding partitioned_def by (cases "f j") force+

lemma bsearch_result:
  assumes "partitioned f n" "left \<le> right" "right \<le> n"
    and "\<forall>i<left. f i = Less" "\<forall>i. right \<le> i \<and> i < n \<longrightarrow> f i = Greater"
  shows "case bsearch f left right of
           Inr k \<Rightarrow> k < n \<and> f k = Equal
         | Inl k \<Rightarrow> k \<le> n \<and> (\<forall>i<k. f i = Less) \<and> (\<forall>i. k \<le> i \<and> i < n \<longrightarrow> f i = Greater)"
  using assms
proof (induction f left right rule: bsearch.induct)
  case (1 f left right)
  show ?case
  proof (cases "left < right")
    case False
    with "1.prems" show ?thesis by (auto simp: bsearch.simps [of f right right])
  next
    case True
    define mid where "mid = left + (right - left) div 2"
    have mid: "left \<le> mid" "mid < right" "mid < n"
      using True "1.prems"(3) by (auto simp: mid_def)
    show ?thesis
    proof (cases "f mid")
      case Less
      have "\<forall>i<Suc mid. f i = Less"
        using partitioned_below [OF "1.prems"(1) _ mid(3) Less] by auto
      with 1 True Less mid show ?thesis
        by (simp add: bsearch.simps [of f left right] mid_def [symmetric])
    next
      case Equal
      with True mid show ?thesis
        by (simp add: bsearch.simps [of f left right] mid_def [symmetric])
    next
      case Greater
      have "\<forall>i. mid \<le> i \<and> i < n \<longrightarrow> f i = Greater"
        using partitioned_above [OF "1.prems"(1) _ _ Greater] by auto
      with 1 True Greater mid show ?thesis
        by (simp add: bsearch.simps [of f left right] mid_def [symmetric])
    qed
  qed
qed

lemma binary_search_by_result:
  assumes "partitioned (\<lambda>i. f (xs ! i)) (length xs)"
  shows "case binary_search_by f xs of
           Inr k \<Rightarrow> k < length xs \<and> f (xs ! k) = Equal
         | Inl k \<Rightarrow> k \<le> length xs \<and> (\<forall>i<k. f (xs ! i) = Less)
             \<and> (\<forall>i. k \<le> i \<and> i < length xs \<longrightarrow> f (xs ! i) = Greater)"
  unfolding binary_search_by_def by (rule bsearch_result [OF assms]) auto

lemma binary_search_by_found_iff:
  assumes "partitioned (\<lambda>i. f (xs ! i)) (length xs)"
  shows "(\<exists>k. binary_search_by f xs = Inr k) \<longleftrightarrow> (\<exists>x\<in>set xs. f x = Equal)"
proof (cases "binary_search_by f xs")
  case (Inl k)
  have "f (xs ! i) \<noteq> Equal" if "i < length xs" for i
    using binary_search_by_result [OF assms] Inl that
    by (cases "i < k") auto
  then show ?thesis using Inl by (auto simp: in_set_conv_nth)
next
  case (Inr k)
  then show ?thesis using binary_search_by_result [OF assms] by (auto intro: nth_mem)
qed

section \<open>Ordered maps\<close>

text \<open>
  A \<open>BTreeMap\<close> is the list of its entries in increasing key order, which is what its
  iterators yield; \<open>range(lo..hi)\<close> takes the keys from \<open>lo\<close> up to but not including \<open>hi\<close>.
\<close>

type_synonym ('k, 'v) btree = "('k \<times> 'v) list"

definition btree_inv :: "('k::linorder, 'v) btree \<Rightarrow> bool" where
  "btree_inv m = sorted_wrt (<) (map fst m)"

fun bt_insert :: "'k::linorder \<Rightarrow> 'v \<Rightarrow> ('k, 'v) btree \<Rightarrow> ('k, 'v) btree" where
  "bt_insert k v [] = [(k, v)]"
| "bt_insert k v ((k', v') # m) =
     (if k < k' then (k, v) # (k', v') # m
      else if k = k' then (k, v) # m
      else (k', v') # bt_insert k v m)"

definition bt_remove :: "'k::linorder \<Rightarrow> ('k, 'v) btree \<Rightarrow> ('k, 'v) btree" where
  "bt_remove k m = filter (\<lambda>(k', _). k' \<noteq> k) m"

definition bt_get :: "('k::linorder, 'v) btree \<Rightarrow> 'k \<Rightarrow> 'v option" where
  "bt_get m k = map_of m k"

definition bt_range :: "'k::linorder \<Rightarrow> 'k \<Rightarrow> ('k, 'v) btree \<Rightarrow> ('k, 'v) btree" where
  "bt_range lo hi m = filter (\<lambda>(k, _). lo \<le> k \<and> k < hi) m"

definition next_back :: "'a list \<Rightarrow> 'a option" where
  "next_back xs = (if xs = [] then None else Some (last xs))"

lemma btree_inv_Nil [simp]: "btree_inv []"
  by (simp add: btree_inv_def)

lemma btree_inv_Cons:
  "btree_inv ((k, v) # m) \<longleftrightarrow> (\<forall>k' \<in> fst ` set m. k < k') \<and> btree_inv m"
  by (auto simp: btree_inv_def)

lemma btree_inv_distinct: "btree_inv m \<Longrightarrow> distinct (map fst m)"
  by (simp add: btree_inv_def strict_sorted_iff)

lemma btree_inv_filter: "btree_inv m \<Longrightarrow> btree_inv (filter P m)"
  by (induction m) (auto simp: btree_inv_Cons)

lemma fst_set_bt_insert: "fst ` set (bt_insert k v m) = insert k (fst ` set m)"
  by (induction m rule: bt_insert.induct) auto

lemma btree_inv_insert: "btree_inv m \<Longrightarrow> btree_inv (bt_insert k v m)"
  by (induction k v m rule: bt_insert.induct)
    (fastforce simp: btree_inv_Cons fst_set_bt_insert)+

lemma map_of_bt_insert:
  "btree_inv m \<Longrightarrow> map_of (bt_insert k v m) = (map_of m)(k \<mapsto> v)"
  by (induction k v m rule: bt_insert.induct) (auto simp: btree_inv_Cons fun_eq_iff)

lemma map_of_bt_remove: "map_of (bt_remove k m) = (map_of m)(k := None)"
  by (induction m) (auto simp: bt_remove_def fun_eq_iff)

lemma btree_inv_remove: "btree_inv m \<Longrightarrow> btree_inv (bt_remove k m)"
  by (simp add: bt_remove_def btree_inv_filter)

lemma bt_get_entry: "btree_inv m \<Longrightarrow> bt_get m k = Some v \<longleftrightarrow> (k, v) \<in> set m"
  by (simp add: bt_get_def btree_inv_distinct)

lemma bt_get_None: "bt_get m k = None \<longleftrightarrow> k \<notin> fst ` set m"
  by (simp add: bt_get_def map_of_eq_None_iff)

lemma next_back_None [simp]: "next_back xs = None \<longleftrightarrow> xs = []"
  by (simp add: next_back_def)

lemma sorted_wrt_last:
  "sorted_wrt (<) (map f xs) \<Longrightarrow> x \<in> set xs \<Longrightarrow> f x \<le> f (last xs :: 'a) \<or> f x = (f (last xs) :: 'b::linorder)"
  by (induction xs) (auto intro: less_imp_le)

lemma next_back_greatest:
  assumes "btree_inv m" "next_back m = Some (k, v)"
  shows "(k, v) \<in> set m" "\<And>k' v'. (k', v') \<in> set m \<Longrightarrow> k' \<le> k"
proof -
  from assms(2) have m: "m \<noteq> []" "last m = (k, v)"
    by (auto simp: next_back_def split: if_splits)
  then show "(k, v) \<in> set m" by (metis last_in_set)
  show "k' \<le> k" if "(k', v') \<in> set m" for k' v'
    using sorted_wrt_last [of fst m "(k', v')"] assms(1) m(2) that by (auto simp: btree_inv_def)
qed

text \<open>
  The contract of an ordered map, as its clients use it: what a lookup returns after each
  update, and that updates keep the representation.
\<close>

locale ordered_map =
  fixes get :: "'m \<Rightarrow> 'k::linorder \<Rightarrow> 'v option"
    and ins :: "'k \<Rightarrow> 'v \<Rightarrow> 'm \<Rightarrow> 'm"
    and rem :: "'k \<Rightarrow> 'm \<Rightarrow> 'm"
    and inv :: "'m \<Rightarrow> bool"
  assumes get_ins: "inv m \<Longrightarrow> get (ins k v m) = (get m)(k \<mapsto> v)"
    and get_rem: "inv m \<Longrightarrow> get (rem k m) = (get m)(k := None)"
    and inv_ins: "inv m \<Longrightarrow> inv (ins k v m)"
    and inv_rem: "inv m \<Longrightarrow> inv (rem k m)"
begin

lemma inv_fold_rem: "inv m \<Longrightarrow> inv (fold rem ks m)"
  by (induction ks arbitrary: m) (auto simp: inv_rem)

lemma get_fold_rem:
  "inv m \<Longrightarrow> get (fold rem ks m) k = (if k \<in> set ks then None else get m k)"
  by (induction ks arbitrary: m) (auto simp: inv_rem get_rem)

lemma ins_ins_commute:
  "inv m \<Longrightarrow> k \<noteq> k' \<Longrightarrow> get (ins k v (ins k' v' m)) = get (ins k' v' (ins k v m))"
  by (simp add: inv_ins get_ins fun_upd_twist)

end

interpretation bt: ordered_map bt_get bt_insert bt_remove btree_inv
  by unfold_locales
    (auto simp: bt_get_def fun_eq_iff map_of_bt_insert map_of_bt_remove btree_inv_insert
      btree_inv_remove)

section \<open>Machines that run instructions\<close>

text \<open>
  A component that handles one instruction at a time: \<open>run_steps\<close> handles a list of them and
  stops at the first failure, whose effects are discarded with the transaction.
\<close>

fun run_steps :: "('i \<Rightarrow> 's \<Rightarrow> ('e, 's) res) \<Rightarrow> 'i list \<Rightarrow> 's \<Rightarrow> ('e, 's) res" where
  "run_steps step [] s = Inr s"
| "run_steps step (i # is) s = and_then (step i s) (run_steps step is)"

locale machine =
  fixes step :: "'i \<Rightarrow> 's \<Rightarrow> ('e, 's) res"
    and valid :: "'i \<Rightarrow> bool"
    and inv :: "'s \<Rightarrow> bool"
  assumes step_inv: "inv s \<Longrightarrow> valid i \<Longrightarrow> step i s = Inr s' \<Longrightarrow> inv s'"
begin

lemma run_inv: "inv s \<Longrightarrow> list_all valid is \<Longrightarrow> run_steps step is s = Inr s' \<Longrightarrow> inv s'"
  by (induction "is" arbitrary: s) (auto simp: res_elim dest: step_inv)

end

text \<open>
  A machine with a relation that every step establishes between the state before and after; the
  relation is a preorder, so that it holds across a run: a quantity that never decreases, or one
  that never changes.
\<close>

locale related_machine = machine step valid inv
  for step :: "'i \<Rightarrow> 's \<Rightarrow> ('e, 's) res" and valid :: "'i \<Rightarrow> bool" and inv :: "'s \<Rightarrow> bool" +
  fixes rel :: "'s \<Rightarrow> 's \<Rightarrow> bool"
  assumes rel_refl: "rel s s"
    and rel_trans: "rel s t \<Longrightarrow> rel t u \<Longrightarrow> rel s u"
    and step_rel: "inv s \<Longrightarrow> valid i \<Longrightarrow> step i s = Inr s' \<Longrightarrow> rel s s'"
begin

lemma run_rel:
  "inv s \<Longrightarrow> list_all valid is \<Longrightarrow> run_steps step is s = Inr s' \<Longrightarrow> rel s s'"
proof (induction "is" arbitrary: s)
  case Nil
  then show ?case by (simp add: rel_refl)
next
  case (Cons i "is")
  from Cons.prems(3) obtain t where t: "step i s = Inr t" "run_steps step is t = Inr s'"
    by (auto simp: res_elim)
  from Cons.prems(1,2) t(1) have "rel s t" "inv t"
    by (auto dest: step_rel step_inv)
  with Cons.IH [OF _ _ t(2)] Cons.prems(2) show ?case by (auto intro: rel_trans)
qed

end

text \<open>A machine that conserves a total, whatever the instructions.\<close>

locale conserving_machine =
  fixes step :: "'i \<Rightarrow> 's \<Rightarrow> ('e, 's) res"
    and inv :: "'s \<Rightarrow> bool"
    and total :: "'s \<Rightarrow> nat"
  assumes conserve_inv: "inv s \<Longrightarrow> step i s = Inr s' \<Longrightarrow> inv s'"
    and conserve_total: "inv s \<Longrightarrow> step i s = Inr s' \<Longrightarrow> total s' = total s"

sublocale conserving_machine \<subseteq> related_machine step "\<lambda>_. True" inv "\<lambda>s s'. total s' = total s"
  by unfold_locales (auto dest: conserve_inv conserve_total)

context conserving_machine
begin

lemma run_total: "inv s \<Longrightarrow> run_steps step is s = Inr s' \<Longrightarrow> total s' = total s"
  by (rule run_rel) (simp_all add: list_all_iff)

end

end
