(* ===== verification/Rust_F64.thy ===== *)
theory Rust_F64
  imports Velas_Prelude
begin

text \<open>
  The primitive type \<open>f64\<close> (IEEE 754 binary64) as far as the sources use it: conversion from
  and to \<open>u64\<close>, multiplication, division, subtraction and comparison of an absolute difference.
  A finite number is a sign, a significand below \<open>2 ^ 53\<close> and an exponent; results are
  rounded to nearest, ties to even, and \<open>as u64\<close> truncates and saturates.
\<close>

datatype f64 = NaN | Infinite bool | Fin bool nat int

fun bit_length :: "nat \<Rightarrow> nat" where
  "bit_length n = (if n = 0 then 0 else Suc (bit_length (n div 2)))"

declare bit_length.simps [simp del]

lemma bit_length_numeral:
  "bit_length 0 = 0" "bit_length 1 = 1" "bit_length (Suc 0) = 1"
  "bit_length (numeral (num.Bit0 n)) = Suc (bit_length (numeral n))"
  "bit_length (numeral (num.Bit1 n)) = Suc (bit_length (numeral n))"
      apply (simp add: bit_length.simps)
     apply (subst bit_length.simps, simp add: bit_length.simps)
    apply (subst bit_length.simps, simp add: bit_length.simps)
   apply (subst bit_length.simps, simp)
  apply (subst bit_length.simps, simp)
  done

text \<open>\<open>scale n d e\<close> is the fraction \<open>n / d / 2 ^ e\<close> as numerator and denominator.\<close>

definition scale :: "nat \<Rightarrow> nat \<Rightarrow> int \<Rightarrow> nat \<times> nat" where
  "scale n d e = (if 0 \<le> e then (n, d * 2 ^ nat e) else (n * 2 ^ nat (- e), d))"

definition f64_round :: "bool \<Rightarrow> nat \<Rightarrow> nat \<Rightarrow> f64" where
  "f64_round s n d =
     (if n = 0 then Fin s 0 0
      else
        let k = int (bit_length n) - int (bit_length d);
            e1 = (case scale n d k of (n', d') \<Rightarrow> if n' < d' then k - 53 else k - 52);
            e = max e1 (- 1074);
            (n', d') = scale n d e;
            q = n' div d'; r = n' mod d';
            q' = (if d' < 2 * r \<or> (2 * r = d' \<and> odd q) then Suc q else q);
            (q2, e2) = (if q' = 2 ^ 53 then (2 ^ 52, e + 1) else (q', e))
        in if 971 < e2 then Infinite s else Fin s q2 e2)"

definition pow2_frac :: "nat \<Rightarrow> int \<Rightarrow> nat \<times> nat" where
  "pow2_frac m e = (if 0 \<le> e then (m * 2 ^ nat e, 1) else (m, 2 ^ nat (- e)))"

definition f64_of_u64 :: "u64 \<Rightarrow> f64" where
  "f64_of_u64 x = f64_round False (unat x) 1"

fun f64_mul :: "f64 \<Rightarrow> f64 \<Rightarrow> f64" where
  "f64_mul (Fin s m e) (Fin s' m' e') =
     (case pow2_frac (m * m') (e + e') of (n, d) \<Rightarrow> f64_round (s \<noteq> s') n d)"
| "f64_mul (Infinite s) (Infinite s') = Infinite (s \<noteq> s')"
| "f64_mul (Infinite s) (Fin s' m _) = (if m = 0 then NaN else Infinite (s \<noteq> s'))"
| "f64_mul (Fin s m _) (Infinite s') = (if m = 0 then NaN else Infinite (s \<noteq> s'))"
| "f64_mul _ _ = NaN"

fun f64_div :: "f64 \<Rightarrow> f64 \<Rightarrow> f64" where
  "f64_div (Fin s m e) (Fin s' m' e') =
     (if m' = 0 then (if m = 0 then NaN else Infinite (s \<noteq> s'))
      else case pow2_frac m (e - e') of (n, d) \<Rightarrow> f64_round (s \<noteq> s') n (d * m'))"
| "f64_div (Infinite s) (Fin s' _ _) = Infinite (s \<noteq> s')"
| "f64_div (Fin s _ _) (Infinite s') = Fin (s \<noteq> s') 0 0"
| "f64_div _ _ = NaN"

definition signed :: "bool \<Rightarrow> nat \<Rightarrow> int" where
  "signed s m = (if s then - int m else int m)"

fun f64_sub :: "f64 \<Rightarrow> f64 \<Rightarrow> f64" where
  "f64_sub (Fin s m e) (Fin s' m' e') =
     (let lo = min e e';
          v = signed s m * 2 ^ nat (e - lo) - signed s' m' * 2 ^ nat (e' - lo)
      in case pow2_frac (nat \<bar>v\<bar>) lo of (n, d) \<Rightarrow> f64_round (v < 0) n d)"
| "f64_sub (Infinite s) (Infinite s') = (if s = s' then NaN else Infinite s)"
| "f64_sub (Infinite s) (Fin _ _ _) = Infinite s"
| "f64_sub (Fin _ _ _) (Infinite s') = Infinite (\<not> s')"
| "f64_sub _ _ = NaN"

text \<open>\<open>x as u64\<close>: truncation towards zero, saturating; \<open>NaN\<close> becomes 0.\<close>

fun u64_of_f64 :: "f64 \<Rightarrow> u64" where
  "u64_of_f64 NaN = 0"
| "u64_of_f64 (Infinite s) = (if s then 0 else u64_MAX)"
| "u64_of_f64 (Fin s m e) =
     (if s then 0
      else case pow2_frac m e of (n, d) \<Rightarrow>
        if n div d < 2 ^ 64 then of_nat (n div d) else u64_MAX)"

text \<open>\<open>x.abs() < f64::EPSILON\<close>, where the epsilon is \<open>2 ^ -52\<close>.\<close>

fun f64_abs_lt_epsilon :: "f64 \<Rightarrow> bool" where
  "f64_abs_lt_epsilon (Fin _ m e) = (case pow2_frac m e of (n, d) \<Rightarrow> n * 2 ^ 52 < d)"
| "f64_abs_lt_epsilon _ = False"

text \<open>The literals the sources use.\<close>

definition f64_2_0 :: f64 where "f64_2_0 = f64_round False 2 1"
definition f64_0_25 :: f64 where "f64_0_25 = f64_round False 1 4"

end
