(* ===== verification/Accounts.thy ===== *)
theory Accounts
  imports Rust_F64
begin

text \<open>
  The ground the native programs stand on: instruction errors, accounts and their lamports,
  keyed accounts and signers, typed account state, rent, the clock, the sysvar cache and the
  invoke context. Every program operation is a function from the account store to an error or
  a new store; the runtime discards the store of a failed instruction with its transaction.
\<close>

section \<open>Errors (\<open>sdk/program/src/instruction.rs\<close>)\<close>

datatype instruction_error =
    GenericError | InvalidArgument | InvalidInstructionData | InvalidAccountData
  | AccountDataTooSmall | InsufficientFunds | IncorrectProgramId | MissingRequiredSignature
  | AccountAlreadyInitialized | UninitializedAccount | UnbalancedInstruction | ModifiedProgramId
  | ExternalAccountLamportSpend | ExternalAccountDataModified | ReadonlyLamportChange
  | ReadonlyDataModified | DuplicateAccountIndex | ExecutableModified | RentEpochModified
  | NotEnoughAccountKeys | AccountDataSizeChanged | AccountNotExecutable | AccountBorrowFailed
  | AccountBorrowOutstanding | DuplicateAccountOutOfSync | Custom u32 | InvalidError
  | ExecutableDataModified | ExecutableLamportChange | ExecutableAccountNotRentExempt
  | UnsupportedProgramId | CallDepth | MissingAccount | ReentrancyNotAllowed
  | MaxSeedLengthExceeded | InvalidSeeds | InvalidRealloc | ComputationalBudgetExceeded
  | PrivilegeEscalation | ProgramEnvironmentSetupFailure | ProgramFailedToComplete
  | ProgramFailedToCompile | Immutable | IncorrectAuthority | BorshIoError string
  | AccountNotRentExempt | InvalidAccountOwner | ArithmeticOverflow | UnsupportedSysvar
  | IllegalOwner | MaxAccountsDataSizeExceeded | ActiveVoteAccountClose

type_synonym 'a ires = "(instruction_error, 'a) res"

definition checked_add :: "u64 \<Rightarrow> u64 \<Rightarrow> u64 ires" where
  "checked_add a b = ok_or (checked_add_w a b) InsufficientFunds"

section \<open>Clock and rent\<close>

record clock =
  clock_slot :: slot
  epoch_start_timestamp :: int
  clock_epoch :: epoch
  leader_schedule_epoch :: epoch
  clock_unix_timestamp :: int

definition clock_default :: clock where
  "clock_default = \<lparr>clock_slot = 0, epoch_start_timestamp = 0, clock_epoch = 0,
     leader_schedule_epoch = 0, clock_unix_timestamp = 0\<rparr>"

record rent =
  lamports_per_byte_year :: u64
  exemption_threshold :: f64
  burn_percent :: u8

definition ACCOUNT_STORAGE_OVERHEAD :: u64 where
  "ACCOUNT_STORAGE_OVERHEAD = 128"

definition DEFAULT_LAMPORTS_PER_BYTE_YEAR :: u64 where
  "DEFAULT_LAMPORTS_PER_BYTE_YEAR = 1000000000 div 100 * 365 div (1024 * 1024)"

definition rent_default :: rent where
  "rent_default = \<lparr>lamports_per_byte_year = DEFAULT_LAMPORTS_PER_BYTE_YEAR,
     exemption_threshold = f64_2_0, burn_percent = 50\<rparr>"

definition rent_free :: rent where
  "rent_free = rent_default\<lparr>lamports_per_byte_year := 0\<rparr>"

definition calculate_burn :: "rent \<Rightarrow> u64 \<Rightarrow> u64 \<times> u64" where
  "calculate_burn r rent_collected =
     (let burned_portion = (rent_collected * ucast (burn_percent r)) div 100
      in (burned_portion, rent_collected - burned_portion))"

definition minimum_balance :: "rent \<Rightarrow> nat \<Rightarrow> u64" where
  "minimum_balance r data_len =
     u64_of_f64 (f64_mul (f64_of_u64 ((ACCOUNT_STORAGE_OVERHEAD + of_nat data_len) * lamports_per_byte_year r))
       (exemption_threshold r))"

definition is_exempt :: "rent \<Rightarrow> u64 \<Rightarrow> nat \<Rightarrow> bool" where
  "is_exempt r balance data_len = (minimum_balance r data_len \<le> balance)"

definition due_amount :: "rent \<Rightarrow> nat \<Rightarrow> f64 \<Rightarrow> u64" where
  "due_amount r data_len years_elapsed =
     (let actual_data_len = of_nat data_len + ACCOUNT_STORAGE_OVERHEAD;
          lamports_per_year = lamports_per_byte_year r * actual_data_len
      in u64_of_f64 (f64_mul (f64_of_u64 lamports_per_year) years_elapsed))"

datatype rent_due = Exempt | Paying u64

definition due :: "rent \<Rightarrow> u64 \<Rightarrow> nat \<Rightarrow> f64 \<Rightarrow> rent_due" where
  "due r balance data_len years_elapsed =
     (if is_exempt r balance data_len then Exempt else Paying (due_amount r data_len years_elapsed))"

fun rent_due_lamports :: "rent_due \<Rightarrow> u64" where
  "rent_due_lamports Exempt = 0"
| "rent_due_lamports (Paying x) = x"

section \<open>Accounts\<close>

text \<open>
  The type of a data cell is a parameter: \<open>u8\<close> in the program. Nothing below depends on
  what a cell is, so every fact holds of bytes.
\<close>

record 'b account =
  lamports :: u64
  data :: "'b list"
  owner :: pubkey
  executable :: bool
  rent_epoch :: epoch

type_synonym 'b store = "pubkey \<Rightarrow> 'b account"

definition account_new :: "u64 \<Rightarrow> nat \<Rightarrow> pubkey \<Rightarrow> 'b::zero account" where
  "account_new l space own =
     \<lparr>lamports = l, data = replicate space 0, owner = own, executable = False, rent_epoch = 0\<rparr>"

definition checked_add_lamports :: "u64 \<Rightarrow> 'b account \<Rightarrow> 'b account ires" where
  "checked_add_lamports l a =
     and_then (ok_or (checked_add_w (lamports a) l) ArithmeticOverflow) (\<lambda>l'. Inr (a\<lparr>lamports := l'\<rparr>))"

definition checked_sub_lamports :: "u64 \<Rightarrow> 'b account \<Rightarrow> 'b account ires" where
  "checked_sub_lamports l a =
     and_then (ok_or (checked_sub_w (lamports a) l) ArithmeticOverflow) (\<lambda>l'. Inr (a\<lparr>lamports := l'\<rparr>))"

text \<open>
  A keyed account names an account of the store: accounts passed twice share one cell
  (\<open>&RefCell<AccountSharedData>\<close>), so an update through one key is seen through the other.
  Borrows never outlive a call in the modelled code, so \<open>try_borrow\<close> always succeeds.
\<close>

record keyed_account =
  is_signer :: bool
  is_writable :: bool
  key :: pubkey

definition signer_key :: "keyed_account \<Rightarrow> pubkey option" where
  "signer_key ka = (if is_signer ka then Some (key ka) else None)"

definition unsigned_key :: "keyed_account \<Rightarrow> pubkey" where
  "unsigned_key ka = key ka"

definition get_signers :: "keyed_account list \<Rightarrow> pubkey set" where
  "get_signers kas = set (List.map_filter signer_key kas)"

definition keyed_account_at_index :: "keyed_account list \<Rightarrow> nat \<Rightarrow> keyed_account ires" where
  "keyed_account_at_index kas i = (if i < length kas then Inr (kas ! i) else Inl (Err NotEnoughAccountKeys))"

definition acct :: "'b store \<Rightarrow> keyed_account \<Rightarrow> 'b account" where
  "acct st ka = st (key ka)"

definition upd_account ::
  "keyed_account \<Rightarrow> ('b account \<Rightarrow> 'b account ires) \<Rightarrow> 'b store \<Rightarrow> 'b store ires" where
  "upd_account ka f st = and_then (f (acct st ka)) (\<lambda>a. Inr (st(key ka := a)))"

section \<open>Typed state (\<open>sdk/src/account_utils.rs\<close>)\<close>

text \<open>
  Serialization is the \<open>bincode\<close> crate: a parameter. \<open>codec_ok\<close> is what the code relies on,
  that reading back the bytes just written, with whatever follows them in the account, gives the
  value that was written.
\<close>

record ('s, 'b) codec =
  encode :: "'s \<Rightarrow> 'b list"
  decode :: "'b list \<Rightarrow> 's option"

definition codec_ok :: "('s, 'b) codec \<Rightarrow> bool" where
  "codec_ok c \<longleftrightarrow> (\<forall>s rest. decode c (encode c s @ rest) = Some s)"

definition get_state :: "('s, 'b) codec \<Rightarrow> 'b account \<Rightarrow> 's ires" where
  "get_state c a = ok_or (decode c (data a)) InvalidAccountData"

definition set_state :: "('s, 'b) codec \<Rightarrow> 's \<Rightarrow> 'b account \<Rightarrow> 'b account ires" where
  "set_state c s a =
     (if length (data a) < length (encode c s) then Inl (Err AccountDataTooSmall)
      else Inr (a\<lparr>data := encode c s @ drop (length (encode c s)) (data a)\<rparr>))"

section \<open>Sysvars and the invoke context\<close>

type_synonym slot_hash = "slot \<times> hash"

record stake_history_entry =
  effective :: u64
  activating :: u64
  deactivating :: u64

type_synonym stake_history = "(epoch \<times> stake_history_entry) list"

record sysvar_cache =
  sysvar_clock :: "clock option"
  sysvar_rent :: "rent option"
  sysvar_slot_hashes :: "slot_hash list option"
  sysvar_recent_blockhashes :: "hash list option"
  sysvar_stake_history :: "stake_history option"

definition get_clock :: "sysvar_cache \<Rightarrow> clock ires" where
  "get_clock sc = ok_or (sysvar_clock sc) UnsupportedSysvar"

definition get_rent :: "sysvar_cache \<Rightarrow> rent ires" where
  "get_rent sc = ok_or (sysvar_rent sc) UnsupportedSysvar"

definition get_slot_hashes :: "sysvar_cache \<Rightarrow> slot_hash list ires" where
  "get_slot_hashes sc = ok_or (sysvar_slot_hashes sc) UnsupportedSysvar"

definition get_recent_blockhashes :: "sysvar_cache \<Rightarrow> hash list ires" where
  "get_recent_blockhashes sc = ok_or (sysvar_recent_blockhashes sc) UnsupportedSysvar"

definition get_stake_history :: "sysvar_cache \<Rightarrow> stake_history ires" where
  "get_stake_history sc = ok_or (sysvar_stake_history sc) UnsupportedSysvar"

text \<open>The features the modelled code asks about (\<open>sdk/src/feature_set.rs\<close>).\<close>

datatype feature =
    Filter_votes_outside_slot_hashes
  | Vote_withdraw_authority_may_change_authorized_voter
  | Vote_authorize_with_seed
  | Allow_votes_to_directly_update_vote_state
  | Reject_non_rent_exempt_vote_withdraws
  | Reject_vote_account_close_unless_zero_credit_epoch
  | Vote_stake_checked_instructions
  | Require_custodian_for_locked_stake_authorize
  | Stake_merge_with_unmatched_credits_observed
  | System_transfer_zero_check
  | Separate_nonce_from_blockhash
  | Merge_nonce_error_into_system_error
  | Nonce_must_be_writable
  | Dedupe_config_program_signers
  | Enable_durable_nonce
  | Nonce_must_be_authorized
  | Disable_durable_nonce
  | Nonce_must_be_advanceable
  | Leave_nonce_on_success
  | Do_support_realloc
  | Cap_accounts_data_len
  | Record_instruction_in_transaction_context_push
  | Reject_empty_instruction_without_program
  | Remove_native_loader
  | Prevent_calling_precompiles_as_programs
  | Evm_cross_execution
  | Native_swap_in_evm_history
  | Evm_new_error_handling
  | Ignore_reset_on_cleared
  | Free_ownership_require_signer
  | Evm_instruction_borsh_serialization
  | Evm_new_precompiles

record invoke_context =
  sysvars :: sysvar_cache
  features :: "feature set"
  ctx_blockhash :: hash
  ctx_lamports_per_signature :: u64

definition is_active :: "feature set \<Rightarrow> feature \<Rightarrow> bool" where
  "is_active fs f = (f \<in> fs)"

text \<open>Addresses: the numbers the base-58 strings of \<open>declare_id!\<close> denote.\<close>

definition system_program_id :: pubkey where
  "system_program_id = 0"
definition vote_program_id :: pubkey where
  "vote_program_id = 3338071818571248938818993247932504658966148473698877128351861063997718528000"
definition stake_program_id :: pubkey where
  "stake_program_id = 2999830881511641543315636960581363899061052244619701952529276772483092971520"
definition stake_config_id :: pubkey where
  "stake_config_id = 2999830883595957297425391470815370877654746576576239794379788187849801596928"
definition config_program_id :: pubkey where
  "config_program_id = 1368054751858961187610615744159202396902912294346696811737198408170517561344"
definition clock_id :: pubkey where
  "clock_id = 3010411245977774767103551433779408434046391008353408711474217313814305570816"
definition rent_id :: pubkey where
  "rent_id = 3010411246019284437244212147455409835011261068170932596721577831542904848384"
definition slot_hashes_id :: pubkey where
  "slot_hashes_id = 3010411246020387390845657635421930170267332101929006271628180992244983005184"
definition recent_blockhashes_id :: pubkey where
  "recent_blockhashes_id = 3010411246019275183202241475159751154561037627022909547359528646525818241024"
definition stake_history_id :: pubkey where
  "stake_history_id = 3010411246023051902640053541412638131892130328438861384560211382976271876096"

definition check_sysvar_keyed_account :: "pubkey \<Rightarrow> keyed_account \<Rightarrow> unit ires" where
  "check_sysvar_keyed_account sid ka = ensure (unsigned_key ka = sid) InvalidArgument"

definition sysvar_clock_checked :: "keyed_account \<Rightarrow> invoke_context \<Rightarrow> clock ires" where
  "sysvar_clock_checked ka ctx =
     and_then (check_sysvar_keyed_account clock_id ka) (\<lambda>_. get_clock (sysvars ctx))"

definition sysvar_rent_checked :: "keyed_account \<Rightarrow> invoke_context \<Rightarrow> rent ires" where
  "sysvar_rent_checked ka ctx =
     and_then (check_sysvar_keyed_account rent_id ka) (\<lambda>_. get_rent (sysvars ctx))"

definition sysvar_slot_hashes_checked :: "keyed_account \<Rightarrow> invoke_context \<Rightarrow> slot_hash list ires" where
  "sysvar_slot_hashes_checked ka ctx =
     and_then (check_sysvar_keyed_account slot_hashes_id ka) (\<lambda>_. get_slot_hashes (sysvars ctx))"

definition sysvar_recent_blockhashes_checked :: "keyed_account \<Rightarrow> invoke_context \<Rightarrow> hash list ires" where
  "sysvar_recent_blockhashes_checked ka ctx =
     and_then (check_sysvar_keyed_account recent_blockhashes_id ka) (\<lambda>_. get_recent_blockhashes (sysvars ctx))"

definition sysvar_stake_history_checked :: "keyed_account \<Rightarrow> invoke_context \<Rightarrow> stake_history ires" where
  "sysvar_stake_history_checked ka ctx =
     and_then (check_sysvar_keyed_account stake_history_id ka) (\<lambda>_. get_stake_history (sysvars ctx))"

section \<open>Derived addresses (\<open>sdk/program/src/pubkey.rs\<close>)\<close>

text \<open>
  The hash of the three parts is SHA-256, a parameter. \<open>PubkeyError\<close> values convert to
  \<open>Custom\<close> errors by their position; a key ends with the 21 bytes of the marker
  \<open>ProgramDerivedAddress\<close> when its lowest 168 bits are that number.
\<close>

definition MAX_SEED_LEN :: nat where
  "MAX_SEED_LEN = 32"

definition PDA_MARKER :: nat where
  "PDA_MARKER = 117573440328550331324708488306763978534806807212915"

definition create_with_seed ::
  "(pubkey \<Rightarrow> string \<Rightarrow> pubkey \<Rightarrow> hash) \<Rightarrow> pubkey \<Rightarrow> string \<Rightarrow> pubkey \<Rightarrow> pubkey ires" where
  "create_with_seed hashv base seed own =
     (if MAX_SEED_LEN < length seed then fail (Custom 0)
      else if unat own mod 2 ^ 168 = PDA_MARKER then fail (Custom 2)
      else Inr (hashv base seed own))"

section \<open>Facts about accounts\<close>

named_theorems acct \<open>what the account operations do to each field\<close>

text \<open>All lamports there are: the key space is finite.\<close>

definition total_lamports :: "'b store \<Rightarrow> nat" where
  "total_lamports st = (\<Sum>k\<in>UNIV. unat (lamports (st k)))"

lemma total_lamports_upd:
  "total_lamports (st(k := a)) + unat (lamports (st k)) = total_lamports st + unat (lamports a)"
proof -
  have "total_lamports st = unat (lamports (st k)) + (\<Sum>k'\<in>UNIV - {k}. unat (lamports (st k')))"
    unfolding total_lamports_def by (simp add: sum.remove)
  moreover have "total_lamports (st(k := a)) =
      unat (lamports a) + (\<Sum>k'\<in>UNIV - {k}. unat (lamports (st k')))"
    unfolding total_lamports_def by (simp add: sum.remove [of UNIV k])
  ultimately show ?thesis by simp
qed

lemma total_lamports_same:
  "lamports a = lamports (st k) \<Longrightarrow> total_lamports (st(k := a)) = total_lamports st"
  using total_lamports_upd [of st k a] by simp

lemma lamports_le_total: "unat (lamports (st k)) \<le> total_lamports st"
  unfolding total_lamports_def by (rule member_le_sum) auto

lemma checked_add_eq_Inr: "checked_add a b = Inr c \<longleftrightarrow> checked_add_w a b = Some c"
  by (simp add: checked_add_def res_elim)

lemma checked_add_unat: "checked_add a b = Inr c \<Longrightarrow> unat c = unat a + unat b"
  by (simp add: checked_add_eq_Inr checked_add_w_unat)

lemma checked_add_lamports_Inr [acct]:
  "checked_add_lamports l a = Inr a' \<longleftrightarrow>
     unat (lamports a) + unat l < 2 ^ 64 \<and> a' = a\<lparr>lamports := lamports a + l\<rparr>"
  by (auto simp: checked_add_lamports_def res_elim checked_add_w_eq_Some)

lemma checked_sub_lamports_Inr [acct]:
  "checked_sub_lamports l a = Inr a' \<longleftrightarrow> l \<le> lamports a \<and> a' = a\<lparr>lamports := lamports a - l\<rparr>"
  by (auto simp: checked_sub_lamports_def res_elim checked_sub_w_eq_Some)

lemma upd_account_Inr [acct]:
  "upd_account ka f st = Inr st' \<longleftrightarrow> (\<exists>a. f (acct st ka) = Inr a \<and> st' = st(key ka := a))"
  by (auto simp: upd_account_def res_elim)

lemma set_state_Inr [acct]:
  "set_state c s a = Inr a' \<longleftrightarrow>
     length (encode c s) \<le> length (data a) \<and>
     a' = a\<lparr>data := encode c s @ drop (length (encode c s)) (data a)\<rparr>"
  by (auto simp: set_state_def)

lemma get_state_Inr [acct]: "get_state c a = Inr s \<longleftrightarrow> decode c (data a) = Some s"
  by (simp add: get_state_def res_elim)

lemma keyed_account_at_index_Inr [acct]:
  "keyed_account_at_index kas i = Inr ka \<longleftrightarrow> i < length kas \<and> ka = kas ! i"
  by (auto simp: keyed_account_at_index_def)

lemma get_set_state:
  "codec_ok c \<Longrightarrow> set_state c s a = Inr a' \<Longrightarrow> get_state c a' = Inr s"
  by (auto simp: acct codec_ok_def)

lemma set_state_frame:
  assumes "set_state c s a = Inr a'"
  shows "lamports a' = lamports a" "owner a' = owner a" "length (data a') = length (data a)"
    "executable a' = executable a" "rent_epoch a' = rent_epoch a"
  using assms by (auto simp: acct)

lemma set_state_total:
  "upd_account ka (set_state c s) st = Inr st' \<Longrightarrow> total_lamports st' = total_lamports st"
  by (auto simp: acct intro!: total_lamports_same) (simp add: acct_def)

text \<open>A withdrawal followed by a deposit of the same amount, and the other order; the two
  accounts may be one.\<close>

lemma sub_add_total:
  assumes "upd_account k1 (checked_sub_lamports l) st = Inr s1"
    and "upd_account k2 (checked_add_lamports l) s1 = Inr s2"
  shows "total_lamports s2 = total_lamports st"
proof -
  from assms(1) have le: "unat l \<le> unat (lamports (st (key k1)))"
    and s1: "s1 = st(key k1 := (st (key k1))\<lparr>lamports := lamports (st (key k1)) - l\<rparr>)"
    by (auto simp: acct acct_def word_le_nat_alt)
  have "total_lamports s1 + unat l = total_lamports st"
    using total_lamports_upd [of st "key k1" "(st (key k1))\<lparr>lamports := lamports (st (key k1)) - l\<rparr>"] le s1
    by (simp add: word_nat word_le_nat_alt)
  moreover from assms(2) have "unat (lamports (s1 (key k2))) + unat l < 2 ^ 64"
    and s2: "s2 = s1(key k2 := (s1 (key k2))\<lparr>lamports := lamports (s1 (key k2)) + l\<rparr>)"
    by (auto simp: acct acct_def)
  then have "total_lamports s2 = total_lamports s1 + unat l"
    using total_lamports_upd [of s1 "key k2" "(s1 (key k2))\<lparr>lamports := lamports (s1 (key k2)) + l\<rparr>"]
    by (simp add: word_nat)
  ultimately show ?thesis by simp
qed

lemma add_sub_total:
  assumes "upd_account k2 (checked_add_lamports l) st = Inr s1"
    and "upd_account k1 (checked_sub_lamports l) s1 = Inr s2"
  shows "total_lamports s2 = total_lamports st"
proof -
  from assms(1) have "unat (lamports (st (key k2))) + unat l < 2 ^ 64"
    and s1: "s1 = st(key k2 := (st (key k2))\<lparr>lamports := lamports (st (key k2)) + l\<rparr>)"
    by (auto simp: acct acct_def)
  then have "total_lamports s1 = total_lamports st + unat l"
    using total_lamports_upd [of st "key k2" "(st (key k2))\<lparr>lamports := lamports (st (key k2)) + l\<rparr>"]
    by (simp add: word_nat)
  moreover from assms(2) have le: "l \<le> lamports (s1 (key k1))"
    and s2: "s2 = s1(key k1 := (s1 (key k1))\<lparr>lamports := lamports (s1 (key k1)) - l\<rparr>)"
    by (auto simp: acct acct_def)
  have "total_lamports s2 + unat l = total_lamports s1"
    using total_lamports_upd [of s1 "key k1" "(s1 (key k1))\<lparr>lamports := lamports (s1 (key k1)) - l\<rparr>"] le s2
    by (simp add: word_nat word_le_nat_alt)
  ultimately show ?thesis by simp
qed

lemma set_state_frame_store:
  assumes "upd_account ka (set_state c s) st = Inr st'"
  shows "lamports (st' k) = lamports (st k)" "owner (st' k) = owner (st k)"
    "length (data (st' k)) = length (data (st k))" "k \<noteq> key ka \<Longrightarrow> st' k = st k"
  using assms by (auto simp: acct acct_def)

lemma get_set_state_store:
  "codec_ok c \<Longrightarrow> upd_account ka (set_state c s) st = Inr st' \<Longrightarrow> get_state c (acct st' ka) = Inr s"
  by (auto simp: acct acct_def codec_ok_def)

lemma no_panic_accounts [simp]:
  "checked_add_lamports l a \<noteq> Inl Panic" "checked_sub_lamports l a \<noteq> Inl Panic"
  "set_state c s a \<noteq> Inl Panic" "get_state c a \<noteq> Inl Panic" "checked_add x y \<noteq> Inl Panic"
  "keyed_account_at_index kas i \<noteq> Inl Panic"
  by (simp_all add: checked_add_lamports_def checked_sub_lamports_def and_then_panic set_state_def
      get_state_def keyed_account_at_index_def checked_add_def)

lemma upd_account_no_panic [simp]:
  "f (acct st ka) \<noteq> Inl Panic \<Longrightarrow> upd_account ka f st \<noteq> Inl Panic"
  by (simp add: upd_account_def and_then_panic)

lemma minimum_balance_rent_free: "minimum_balance rent_free n = 0"
  by (simp add: minimum_balance_def rent_free_def rent_default_def f64_of_u64_def f64_round_def
      f64_2_0_def pow2_frac_def Let_def split: prod.split)

end
