(* ===== verification/Authorized_Voters.thy ===== *)
theory Authorized_Voters
  imports Accounts
begin

text \<open>
  The authorized voters of a vote account by epoch (\<open>programs/vote/src/authorized_voters.rs\<close>)
  and the ring buffer that remembers prior voters (\<open>CircBuf\<close> of
  \<open>programs/vote/src/vote_state/mod.rs\<close>).
\<close>

section \<open>Authorized voters\<close>

type_synonym authorized_voters = "(epoch, pubkey) btree"

definition av_new :: "epoch \<Rightarrow> pubkey \<Rightarrow> authorized_voters" where
  "av_new e pk = bt_insert e pk []"

definition get_or_calculate_authorized_voter_for_epoch ::
  "authorized_voters \<Rightarrow> epoch \<Rightarrow> (pubkey \<times> bool) option" where
  "get_or_calculate_authorized_voter_for_epoch m e =
     (case bt_get m e of
        None \<Rightarrow> map_option (\<lambda>(_, pk). (pk, False)) (next_back (bt_range 0 e m))
      | Some pk \<Rightarrow> Some (pk, True))"

definition get_authorized_voter :: "authorized_voters \<Rightarrow> epoch \<Rightarrow> pubkey option" where
  "get_authorized_voter m e = map_option fst (get_or_calculate_authorized_voter_for_epoch m e)"

definition get_and_cache_authorized_voter_for_epoch ::
  "authorized_voters \<Rightarrow> epoch \<Rightarrow> (pubkey \<times> authorized_voters) option" where
  "get_and_cache_authorized_voter_for_epoch m e =
     map_option (\<lambda>(pk, existed). (pk, if existed then m else bt_insert e pk m))
       (get_or_calculate_authorized_voter_for_epoch m e)"

definition av_insert :: "epoch \<Rightarrow> pubkey \<Rightarrow> authorized_voters \<Rightarrow> authorized_voters" where
  "av_insert e pk m = bt_insert e pk m"

definition purge_authorized_voters :: "authorized_voters \<Rightarrow> epoch \<Rightarrow> ('e, authorized_voters) res" where
  "purge_authorized_voters m current_epoch =
     (let expired_keys = map fst (bt_range 0 current_epoch m);
          m' = fold bt_remove expired_keys m
      in and_then (assert_that (m' \<noteq> [])) (\<lambda>_. Inr m'))"

definition av_is_empty :: "authorized_voters \<Rightarrow> bool" where
  "av_is_empty m = (m = [])"

definition av_first :: "authorized_voters \<Rightarrow> (epoch \<times> pubkey) option" where
  "av_first m = (case m of [] \<Rightarrow> None | x # _ \<Rightarrow> Some x)"

definition av_last :: "authorized_voters \<Rightarrow> (epoch \<times> pubkey) option" where
  "av_last m = next_back m"

definition av_len :: "authorized_voters \<Rightarrow> nat" where
  "av_len m = length m"

definition av_contains :: "authorized_voters \<Rightarrow> epoch \<Rightarrow> bool" where
  "av_contains m e = (bt_get m e \<noteq> None)"

section \<open>The ring buffer of prior voters\<close>

definition MAX_ITEMS :: nat where
  "MAX_ITEMS = 32"

record 'a circ_buf =
  buf :: "'a list"
  idx :: nat
  cb_is_empty :: bool

definition cb_default :: "'a \<Rightarrow> 'a circ_buf" where
  "cb_default d = \<lparr>buf = replicate MAX_ITEMS d, idx = MAX_ITEMS - 1, cb_is_empty = True\<rparr>"

definition cb_append :: "'a \<Rightarrow> 'a circ_buf \<Rightarrow> 'a circ_buf" where
  "cb_append item b =
     (let i = (idx b + 1) mod MAX_ITEMS
      in b\<lparr>idx := i, buf := (buf b)[i := item], cb_is_empty := False\<rparr>)"

text \<open>The index is read from the account: out of range, the access panics.\<close>

definition cb_last :: "'a circ_buf \<Rightarrow> ('e, 'a option) res" where
  "cb_last b =
     (if \<not> cb_is_empty b then if idx b < length (buf b) then Inr (Some (buf b ! idx b)) else Inl Panic
      else Inr None)"

section \<open>What a lookup means\<close>

text \<open>
  The voter of an epoch is the one recorded for the latest epoch not after it. This is the
  reference against which the lookup with its cached entries is judged.
\<close>

definition voter_at :: "authorized_voters \<Rightarrow> epoch \<Rightarrow> pubkey option" where
  "voter_at m e = map_option snd (next_back (filter (\<lambda>(k, _). k \<le> e) m))"

lemma voter_at_Some:
  assumes "btree_inv m"
  shows "voter_at m e = Some pk \<longleftrightarrow>
    (\<exists>k. (k, pk) \<in> set m \<and> k \<le> e \<and> (\<forall>k' v'. (k', v') \<in> set m \<and> k' \<le> e \<longrightarrow> k' \<le> k))"
    (is "_ \<longleftrightarrow> (\<exists>k. ?P k)")
proof
  let ?f = "filter (\<lambda>(k, _). k \<le> e) m"
  have inv: "btree_inv ?f" by (rule btree_inv_filter [OF assms])
  show "\<exists>k. ?P k" if "voter_at m e = Some pk"
  proof -
    from that obtain k where k: "next_back ?f = Some (k, pk)"
      by (auto simp: voter_at_def)
    have "(k, pk) \<in> set ?f" by (rule next_back_greatest(1) [OF inv k])
    moreover have "k' \<le> k" if "(k', v') \<in> set ?f" for k' v'
      by (rule next_back_greatest(2) [OF inv k that])
    ultimately have "?P k" by (simp; blast)
    then show ?thesis by (rule exI)
  qed
  show "voter_at m e = Some pk" if "\<exists>k. ?P k"
  proof -
    from that obtain k where k: "(k, pk) \<in> set ?f" and top: "\<And>k' v'. (k', v') \<in> set ?f \<Longrightarrow> k' \<le> k"
      by auto
    from k have "?f \<noteq> []" by (metis empty_iff list.set(1))
    then obtain k' v' where n: "next_back ?f = Some (k', v')"
      by (cases "last ?f") (simp add: next_back_def)
    have k': "(k', v') \<in> set ?f" by (rule next_back_greatest(1) [OF inv n])
    have "k \<le> k'" by (rule next_back_greatest(2) [OF inv n k])
    with top [OF k'] have "k' = k" by simp
    with k k' have "v' = pk"
      by (metis bt_get_entry [OF inv] option.inject)
    then show ?thesis using n by (simp add: voter_at_def)
  qed
qed

lemma option_eqI: "(\<And>x. a = Some x \<longleftrightarrow> b = Some x) \<Longrightarrow> a = b"
  by (cases a; cases b) auto

lemma set_bt_insert:
  "btree_inv m \<Longrightarrow> (k, v) \<in> set (bt_insert k0 v0 m) \<longleftrightarrow> (if k = k0 then v = v0 else (k, v) \<in> set m)"
  using bt_get_entry [OF btree_inv_insert [of m k0 v0], of k v] bt_get_entry [of m k v]
  by (auto simp: bt.get_ins)

lemma set_fold_bt_remove: "set (fold bt_remove ks m) = {(k, v) \<in> set m. k \<notin> set ks}"
  by (induction ks arbitrary: m) (auto simp: bt_remove_def)

lemma get_authorized_voter_eq:
  assumes "btree_inv m"
  shows "get_authorized_voter m e = voter_at m e"
proof (cases "bt_get m e")
  case None
  then have "\<forall>x \<in> set m. fst x \<noteq> e" by (auto simp: bt_get_None)
  then have "bt_range 0 e m = filter (\<lambda>(k, _). k \<le> e) m"
    unfolding bt_range_def by (intro filter_cong refl) (auto simp: order.strict_iff_order)
  with None show ?thesis
    by (simp add: get_authorized_voter_def get_or_calculate_authorized_voter_for_epoch_def
        voter_at_def option.map_comp comp_def case_prod_unfold)
next
  case (Some pk)
  then have "(e, pk) \<in> set m" by (simp add: bt_get_entry [OF assms])
  then have "voter_at m e = Some pk"
    by (auto simp: voter_at_Some [OF assms] intro!: exI [of _ e])
  with Some show ?thesis
    by (simp add: get_authorized_voter_def get_or_calculate_authorized_voter_for_epoch_def)
qed

text \<open>Caching the voter of the current epoch changes no later lookup.\<close>

lemma get_and_cache_entries:
  assumes "btree_inv m" "get_and_cache_authorized_voter_for_epoch m cur = Some (pk, m1)"
  shows "btree_inv m1" "voter_at m cur = Some pk"
    "\<And>k v. (k, v) \<in> set m1 \<longleftrightarrow> (if k = cur then v = pk else (k, v) \<in> set m)"
proof -
  have pk: "get_authorized_voter m cur = Some pk"
    using assms(2) by (auto simp: get_and_cache_authorized_voter_for_epoch_def get_authorized_voter_def)
  then show "voter_at m cur = Some pk" by (simp add: get_authorized_voter_eq assms(1))
  show "btree_inv m1"
    using assms by (auto simp: get_and_cache_authorized_voter_for_epoch_def btree_inv_insert)
  show "(k, v) \<in> set m1 \<longleftrightarrow> (if k = cur then v = pk else (k, v) \<in> set m)" for k v
  proof (cases "bt_get m cur")
    case None
    then have "m1 = bt_insert cur pk m"
      using assms(2) by (auto simp: get_and_cache_authorized_voter_for_epoch_def
          get_or_calculate_authorized_voter_for_epoch_def)
    then show ?thesis by (simp add: set_bt_insert assms(1))
  next
    case (Some pk')
    then have m1: "m1 = m" "pk' = pk"
      using assms(2) by (auto simp: get_and_cache_authorized_voter_for_epoch_def
          get_or_calculate_authorized_voter_for_epoch_def)
    have "(cur, v) \<in> set m \<longleftrightarrow> v = pk"
      using Some m1(2) bt_get_entry [OF assms(1), of cur v] by auto
    then show ?thesis using m1(1) by auto
  qed
qed

text \<open>
  The current voter is looked up, cached and older entries are dropped: the assertion that an
  entry remains holds, and every lookup from now on answers as before.
\<close>

lemma btree_eqI:
  assumes "btree_inv m" "btree_inv m'" "set m = set m'"
  shows "m = m'"
proof (rule map_sorted_distinct_set_unique)
  have "inj_on fst (set m)" using btree_inv_distinct [OF assms(1)] by (simp add: distinct_map)
  then show "inj_on fst (set m \<union> set m')" using assms(3) by simp
qed (use assms in \<open>auto simp: btree_inv_def strict_sorted_iff\<close>)

lemma filter_upto_split:
  "btree_inv m \<Longrightarrow> c \<le> e \<Longrightarrow> filter (\<lambda>(k, _). k \<le> e) m =
     filter (\<lambda>(k, _). k \<le> c) m @ filter (\<lambda>(k, _). c < k \<and> k \<le> e) m"
proof (induction m)
  case (Cons x m)
  obtain k v where x: "x = (k, v)" by (cases x)
  show ?case
  proof (cases "k \<le> c")
    case True
    then show ?thesis using Cons by (auto simp: x btree_inv_Cons)
  next
    case False
    then have "\<forall>y \<in> set m. c < fst y" using Cons.prems by (force simp: x btree_inv_Cons)
    then have "filter (\<lambda>(k, _). k \<le> c) m = []" by (auto simp: filter_empty_conv)
    then show ?thesis using Cons False by (auto simp: x btree_inv_Cons)
  qed
qed simp

lemma voter_at_after:
  assumes "btree_inv m" "voter_at m c = Some pk" "c \<le> e"
  shows "voter_at ((c, pk) # filter (\<lambda>(k, _). c < k) m) e = voter_at m e"
proof -
  have "filter (\<lambda>(k, _). k \<le> e) (filter (\<lambda>(k, _). c < k) m) = filter (\<lambda>(k, _). c < k \<and> k \<le> e) m"
    by (simp add: conj_commute case_prod_unfold)
  then show ?thesis
    using assms(2,3) filter_upto_split [OF assms(1,3)]
    by (auto simp: voter_at_def next_back_def split: if_splits)
qed

lemma cache_then_purge:
  assumes inv: "btree_inv m" and c: "get_and_cache_authorized_voter_for_epoch m cur = Some (pk, m1)"
  shows "purge_authorized_voters m1 cur = Inr ((cur, pk) # filter (\<lambda>(k, _). cur < k) m)"
proof -
  note e1 = get_and_cache_entries [OF inv c]
  let ?m2 = "fold bt_remove (map fst (bt_range 0 cur m1)) m1"
  have keep: "(k, v) \<in> set ?m2 \<longleftrightarrow> cur \<le> k \<and> (k, v) \<in> set m1" for k v
    by (force simp: set_fold_bt_remove bt_range_def)
  have "?m2 = (cur, pk) # filter (\<lambda>(k, _). cur < k) m"
  proof (rule btree_eqI)
    show "btree_inv ?m2" by (rule bt.inv_fold_rem [OF e1(1)])
    show "btree_inv ((cur, pk) # filter (\<lambda>(k, _). cur < k) m)"
      by (auto simp: btree_inv_Cons btree_inv_filter inv)
    show "set ?m2 = set ((cur, pk) # filter (\<lambda>(k, _). cur < k) m)"
    proof (rule set_eqI)
      fix x :: "epoch \<times> pubkey"
      obtain k v where x: "x = (k, v)" by (cases x)
      show "x \<in> set ?m2 \<longleftrightarrow> x \<in> set ((cur, pk) # filter (\<lambda>(k, _). cur < k) m)"
        unfolding x keep e1(3) by auto
    qed
  qed
  then show ?thesis by (simp add: purge_authorized_voters_def Let_def)
qed

section \<open>The ring buffer keeps the last 32 items\<close>

definition cb_inv :: "'a circ_buf \<Rightarrow> bool" where
  "cb_inv b \<longleftrightarrow> length (buf b) = MAX_ITEMS \<and> idx b < MAX_ITEMS"

text \<open>\<open>cb_recent b n\<close> are the \<open>n\<close> newest items, newest first.\<close>

definition cb_recent :: "'a circ_buf \<Rightarrow> nat \<Rightarrow> 'a list" where
  "cb_recent b n = map (\<lambda>j. buf b ! ((idx b + MAX_ITEMS - j) mod MAX_ITEMS)) [0..<n]"

lemma cb_inv_default [simp]: "cb_inv (cb_default d)"
  by (simp add: cb_inv_def cb_default_def MAX_ITEMS_def)

lemma cb_inv_append: "cb_inv b \<Longrightarrow> cb_inv (cb_append x b)"
  by (simp add: cb_inv_def cb_append_def Let_def MAX_ITEMS_def)

lemma cb_last_append: "cb_inv b \<Longrightarrow> cb_last (cb_append x b) = Inr (Some x)"
  by (simp add: cb_inv_def cb_append_def cb_last_def Let_def MAX_ITEMS_def)

lemma cb_recent_append:
  assumes "cb_inv b" "n < MAX_ITEMS"
  shows "cb_recent (cb_append x b) (Suc n) = x # cb_recent b n"
proof (rule nth_equalityI)
  show "length (cb_recent (cb_append x b) (Suc n)) = length (x # cb_recent b n)"
    by (simp add: cb_recent_def)
  fix j assume "j < length (cb_recent (cb_append x b) (Suc n))"
  then have j: "j < Suc n" by (simp add: cb_recent_def)
  let ?i = "(idx b + 1) mod 32"
  show "cb_recent (cb_append x b) (Suc n) ! j = (x # cb_recent b n) ! j"
  proof (cases j)
    case 0
    then show ?thesis
      using assms by (simp add: cb_recent_def cb_append_def cb_inv_def Let_def MAX_ITEMS_def del: upt_Suc)
  next
    case (Suc k)
    have "(?i + 32 - Suc k) mod 32 = (idx b + 32 - k) mod 32" "(idx b + 32 - k) mod 32 \<noteq> ?i"
      using assms j Suc by (auto simp: cb_inv_def MAX_ITEMS_def mod_if split: if_splits)
    then show ?thesis
      using assms j Suc
      by (simp add: cb_recent_def cb_append_def cb_inv_def Let_def MAX_ITEMS_def del: upt_Suc)
  qed
qed

lemma cb_append_all:
  "cb_inv b \<Longrightarrow> cb_inv (fold cb_append xs b)"
  by (induction xs arbitrary: b) (auto simp: cb_inv_append)

lemma cb_recent_take: "m \<le> n \<Longrightarrow> take m (cb_recent b n) = cb_recent b m"
  by (simp add: cb_recent_def take_map)

lemma cb_recent_fold:
  assumes "cb_inv b" "n \<le> MAX_ITEMS" "n \<le> length xs"
  shows "cb_recent (fold cb_append xs b) n = take n (rev xs)"
  using assms
proof (induction xs arbitrary: n rule: rev_induct)
  case Nil
  then show ?case by (simp add: cb_recent_def)
next
  case (snoc x xs)
  show ?case
  proof (cases n)
    case 0
    then show ?thesis by (simp add: cb_recent_def)
  next
    case (Suc k)
    then have "cb_recent (fold cb_append (xs @ [x]) b) n = x # cb_recent (fold cb_append xs b) k"
      using snoc.prems cb_recent_append [OF cb_append_all [OF snoc.prems(1)], of k x xs] by simp
    then show ?thesis using snoc Suc by simp
  qed
qed

section \<open>Properties\<close>

text \<open>C11: When the authorized voter of the current epoch is looked up, cached, and older entries are
  purged, the voter found is the one with the latest entry not after the epoch, the purge does not
  panic, and every lookup for this or a later epoch answers as before.\<close>

theorem authorized_voter_update_preserves:
  assumes "btree_inv m" "get_and_cache_authorized_voter_for_epoch m cur = Some (pk, m1)"
  shows "voter_at m cur = Some pk
    \<and> (\<exists>m2. purge_authorized_voters m1 cur = Inr m2 \<and> btree_inv m2
        \<and> (\<forall>e \<ge> cur. get_authorized_voter m2 e = get_authorized_voter m e))"
proof (intro conjI exI allI impI)
  let ?m2 = "(cur, pk) # filter (\<lambda>(k, _). cur < k) m"
  show v: "voter_at m cur = Some pk" by (rule get_and_cache_entries(2) [OF assms])
  show "purge_authorized_voters m1 cur = Inr ?m2" by (rule cache_then_purge [OF assms])
  show inv: "btree_inv ?m2" by (auto simp: btree_inv_Cons btree_inv_filter assms(1))
  show "get_authorized_voter ?m2 e = get_authorized_voter m e" if "cur \<le> e" for e
    using voter_at_after [OF assms(1) v that] by (simp add: get_authorized_voter_eq assms(1) inv)
qed

theorem authorized_voter_update_preserves_witness:
  "voter_at [(0, 1), (5, 2)] 3 = Some 1"
  by (rule authorized_voter_update_preserves [of _ _ _ "[(0, 1), (3, 1), (5, 2)]", THEN conjunct1])
    (simp_all add: btree_inv_def get_and_cache_authorized_voter_for_epoch_def
      get_or_calculate_authorized_voter_for_epoch_def bt_get_def bt_range_def next_back_def)

text \<open>The ring buffer of prior voters always holds the last 32 appended entries, newest first, and
  its last entry is the one appended last.\<close>

theorem circ_buf_recent:
  assumes "n \<le> MAX_ITEMS" "n \<le> length xs" "xs \<noteq> []"
  shows "cb_recent (fold cb_append xs (cb_default d)) n = take n (rev xs)
    \<and> cb_last (fold cb_append xs (cb_default d)) = Inr (Some (last xs))"
proof (cases xs rule: rev_cases)
  case (snoc ys y)
  then show ?thesis using cb_recent_fold [OF cb_inv_default assms(1,2)]
    by (simp add: cb_last_append cb_append_all)
qed (use assms(3) in simp)

theorem circ_buf_recent_witness:
  "cb_recent (fold cb_append [1, 2, 3 :: nat] (cb_default 0)) 2 = [3, 2]"
  using circ_buf_recent [of 2 "[1, 2, 3 :: nat]" 0, THEN conjunct1] by (simp add: MAX_ITEMS_def)

end
