(* ===== verification/Vote_State.thy ===== *)
theory Vote_State
  imports Authorized_Voters
begin

text \<open>
  The vote state (\<open>programs/vote/src/vote_state/mod.rs\<close>): the tower of lockouts, its root,
  the credits it earns, and the checks a vote or a proposed tower has to pass.
\<close>

section \<open>Errors (\<open>programs/vote/src/vote_error.rs\<close>)\<close>

datatype vote_error =
    VoteTooOld | SlotsMismatch | SlotHashMismatch | EmptySlots | TimestampTooOld
  | TooSoonToReauthorize | LockoutConflict | NewVoteStateLockoutMismatch | SlotsNotOrdered
  | ConfirmationsNotOrdered | ZeroConfirmations | ConfirmationTooLarge | RootRollBack
  | ConfirmationRollBack | SlotSmallerThanRoot | TooManyVotes | VotesTooOldAllFiltered
  | RootOnDifferentFork | VE_ActiveVoteAccountClose

text \<open>A vote error reaches the runtime as \<open>Custom\<close> of its position.\<close>

fun vote_error_code :: "vote_error \<Rightarrow> u32" where
  "vote_error_code VoteTooOld = 0"
| "vote_error_code SlotsMismatch = 1"
| "vote_error_code SlotHashMismatch = 2"
| "vote_error_code EmptySlots = 3"
| "vote_error_code TimestampTooOld = 4"
| "vote_error_code TooSoonToReauthorize = 5"
| "vote_error_code LockoutConflict = 6"
| "vote_error_code NewVoteStateLockoutMismatch = 7"
| "vote_error_code SlotsNotOrdered = 8"
| "vote_error_code ConfirmationsNotOrdered = 9"
| "vote_error_code ZeroConfirmations = 10"
| "vote_error_code ConfirmationTooLarge = 11"
| "vote_error_code RootRollBack = 12"
| "vote_error_code ConfirmationRollBack = 13"
| "vote_error_code SlotSmallerThanRoot = 14"
| "vote_error_code TooManyVotes = 15"
| "vote_error_code VotesTooOldAllFiltered = 16"
| "vote_error_code RootOnDifferentFork = 17"
| "vote_error_code VE_ActiveVoteAccountClose = 18"

definition from_vote_error :: "vote_error \<Rightarrow> instruction_error" where
  "from_vote_error e = Custom (vote_error_code e)"

section \<open>Lockouts and votes\<close>

definition MAX_LOCKOUT_HISTORY :: nat where "MAX_LOCKOUT_HISTORY = 31"
definition INITIAL_LOCKOUT :: nat where "INITIAL_LOCKOUT = 2"
definition MAX_EPOCH_CREDITS_HISTORY :: nat where "MAX_EPOCH_CREDITS_HISTORY = 64"

record lockout =
  l_slot :: slot
  confirmation_count :: u32

definition lockout_new :: "slot \<Rightarrow> lockout" where
  "lockout_new s = \<lparr>l_slot = s, confirmation_count = 1\<rparr>"

definition lockout_of :: "lockout \<Rightarrow> u64" where
  "lockout_of l = of_nat INITIAL_LOCKOUT ^ unat (confirmation_count l)"

definition last_locked_out_slot :: "lockout \<Rightarrow> slot" where
  "last_locked_out_slot l = l_slot l + lockout_of l"

definition is_locked_out_at_slot :: "lockout \<Rightarrow> slot \<Rightarrow> bool" where
  "is_locked_out_at_slot l s = (s \<le> last_locked_out_slot l)"

record vote =
  v_slots :: "slot list"
  v_hash :: hash
  v_timestamp :: "int option"

definition vote_new :: "slot list \<Rightarrow> hash \<Rightarrow> vote" where
  "vote_new ss h = \<lparr>v_slots = ss, v_hash = h, v_timestamp = None\<rparr>"

record vote_state_update =
  lockouts :: "lockout list"
  u_root :: "slot option"
  u_hash :: hash
  u_timestamp :: "int option"

definition vote_state_update_from :: "(slot \<times> u32) list \<Rightarrow> vote_state_update" where
  "vote_state_update_from recent_slots =
     \<lparr>lockouts = map (\<lambda>(s, c). \<lparr>l_slot = s, confirmation_count = c\<rparr>) recent_slots,
      u_root = None, u_hash = 0, u_timestamp = None\<rparr>"

definition vote_state_update_new :: "lockout list \<Rightarrow> slot option \<Rightarrow> hash \<Rightarrow> vote_state_update" where
  "vote_state_update_new ls r h = \<lparr>lockouts = ls, u_root = r, u_hash = h, u_timestamp = None\<rparr>"

definition u_slots :: "vote_state_update \<Rightarrow> slot list" where
  "u_slots u = map l_slot (lockouts u)"

datatype vote_transaction = VoteTx vote | VoteStateUpdateTx vote_state_update

fun vt_slots :: "vote_transaction \<Rightarrow> slot list" where
  "vt_slots (VoteTx v) = v_slots v"
| "vt_slots (VoteStateUpdateTx u) = u_slots u"

fun vt_slot :: "vote_transaction \<Rightarrow> nat \<Rightarrow> ('e, slot) res" where
  "vt_slot (VoteTx v) i = (if i < length (v_slots v) then Inr (v_slots v ! i) else Inl Panic)"
| "vt_slot (VoteStateUpdateTx u) i =
     (if i < length (lockouts u) then Inr (l_slot (lockouts u ! i)) else Inl Panic)"

fun vt_len :: "vote_transaction \<Rightarrow> nat" where
  "vt_len (VoteTx v) = length (v_slots v)"
| "vt_len (VoteStateUpdateTx u) = length (lockouts u)"

fun vt_is_empty :: "vote_transaction \<Rightarrow> bool" where
  "vt_is_empty (VoteTx v) = (v_slots v = [])"
| "vt_is_empty (VoteStateUpdateTx u) = (lockouts u = [])"

fun vt_hash :: "vote_transaction \<Rightarrow> hash" where
  "vt_hash (VoteTx v) = v_hash v"
| "vt_hash (VoteStateUpdateTx u) = u_hash u"

fun vt_timestamp :: "vote_transaction \<Rightarrow> int option" where
  "vt_timestamp (VoteTx v) = v_timestamp v"
| "vt_timestamp (VoteStateUpdateTx u) = u_timestamp u"

fun vt_set_timestamp :: "int option \<Rightarrow> vote_transaction \<Rightarrow> vote_transaction" where
  "vt_set_timestamp ts (VoteTx v) = VoteTx (v\<lparr>v_timestamp := ts\<rparr>)"
| "vt_set_timestamp ts (VoteStateUpdateTx u) = VoteStateUpdateTx (u\<lparr>u_timestamp := ts\<rparr>)"

fun vt_last_voted_slot :: "vote_transaction \<Rightarrow> slot option" where
  "vt_last_voted_slot (VoteTx v) = next_back (v_slots v)"
| "vt_last_voted_slot (VoteStateUpdateTx u) = map_option l_slot (next_back (lockouts u))"

definition vt_last_voted_slot_hash :: "vote_transaction \<Rightarrow> (slot \<times> hash) option" where
  "vt_last_voted_slot_hash t = map_option (\<lambda>s. (s, vt_hash t)) (vt_last_voted_slot t)"

record vote_init =
  i_node_pubkey :: pubkey
  i_authorized_voter :: pubkey
  i_authorized_withdrawer :: pubkey
  i_commission :: u8

datatype vote_authorize = Voter | Withdrawer

record block_timestamp =
  bt_slot :: slot
  bt_timestamp :: int

section \<open>The vote state\<close>

type_synonym epoch_credit = "epoch \<times> u64 \<times> u64"

record vote_state =
  node_pubkey :: pubkey
  authorized_withdrawer :: pubkey
  commission :: u8
  votes :: "lockout list"
  root_slot :: "slot option"
  authorized_voters :: authorized_voters
  prior_voters :: "(pubkey \<times> epoch \<times> epoch) circ_buf"
  epoch_credits :: "epoch_credit list"
  last_timestamp :: block_timestamp

definition vote_state_default :: vote_state where
  "vote_state_default =
     \<lparr>node_pubkey = 0, authorized_withdrawer = 0, commission = 0, votes = [], root_slot = None,
      authorized_voters = [], prior_voters = cb_default (0, 0, 0), epoch_credits = [],
      last_timestamp = \<lparr>bt_slot = 0, bt_timestamp = 0\<rparr>\<rparr>"

definition vote_state_new :: "vote_init \<Rightarrow> clock \<Rightarrow> vote_state" where
  "vote_state_new vi clk = vote_state_default
     \<lparr>node_pubkey := i_node_pubkey vi,
      authorized_voters := av_new (clock_epoch clk) (i_authorized_voter vi),
      authorized_withdrawer := i_authorized_withdrawer vi,
      commission := i_commission vi\<rparr>"

definition last_lockout :: "vote_state \<Rightarrow> lockout option" where
  "last_lockout vs = next_back (votes vs)"

definition last_voted_slot :: "vote_state \<Rightarrow> slot option" where
  "last_voted_slot vs = map_option l_slot (last_lockout vs)"

definition nth_recent_vote :: "vote_state \<Rightarrow> nat \<Rightarrow> lockout option" where
  "nth_recent_vote vs position =
     (if position < length (votes vs) then Some (votes vs ! (length (votes vs) - 1 - position)) else None)"

definition tower :: "vote_state \<Rightarrow> slot list" where
  "tower vs = map l_slot (votes vs)"

definition current_epoch :: "vote_state \<Rightarrow> epoch" where
  "current_epoch vs = (if epoch_credits vs = [] then 0 else fst (last (epoch_credits vs)))"

definition credits :: "vote_state \<Rightarrow> u64" where
  "credits vs = (if epoch_credits vs = [] then 0 else fst (snd (last (epoch_credits vs))))"

text \<open>Commission: what part of a reward goes to the voter and what part to the staker.\<close>

definition commission_split :: "vote_state \<Rightarrow> u64 \<Rightarrow> u64 \<times> u64 \<times> bool" where
  "commission_split vs on =
     (let split = min (commission vs) 100 in
      if split = 0 then (0, on, False)
      else if split = 100 then (on, 0, False)
      else
        let on' = to_u128 on;
            mine = on' * ucast split div 100;
            theirs = on' * ucast (100 - split) div 100
        in (ucast mine, ucast theirs, True))"

text \<open>Rust searches the deque as one sorted sequence.\<close>

definition contains_slot :: "vote_state \<Rightarrow> slot \<Rightarrow> bool" where
  "contains_slot vs candidate_slot =
     (case binary_search_by (\<lambda>l. cmp (l_slot l) candidate_slot) (votes vs) of Inl _ \<Rightarrow> False | Inr _ \<Rightarrow> True)"

text \<open>The largest vote state; \<open>rnd\<close> are the random keys it is filled with.\<close>

definition get_max_sized_vote_state :: "(nat \<Rightarrow> pubkey) \<Rightarrow> vote_state" where
  "get_max_sized_vote_state rnd = vote_state_default
     \<lparr>votes := replicate MAX_LOCKOUT_HISTORY \<lparr>l_slot = 0, confirmation_count = 0\<rparr>,
      root_slot := Some u64_MAX,
      epoch_credits := replicate MAX_EPOCH_CREDITS_HISTORY (0, 0, 0),
      authorized_voters := fold (\<lambda>i. av_insert (of_nat i) (rnd i)) [0..<4] []\<rparr>"

section \<open>Voting\<close>

function pop_expired_votes :: "slot \<Rightarrow> lockout list \<Rightarrow> lockout list" where
  "pop_expired_votes next_vote_slot vs =
     (if vs \<noteq> [] \<and> \<not> is_locked_out_at_slot (last vs) next_vote_slot
      then pop_expired_votes next_vote_slot (butlast vs) else vs)"
  by pat_completeness auto
termination
  by (relation "measure (\<lambda>(s, vs). length vs)") auto

declare pop_expired_votes.simps [simp del]

definition double_lockout :: "nat \<Rightarrow> nat \<times> lockout \<Rightarrow> lockout" where
  "double_lockout stack_depth = (\<lambda>(i, v).
     if i + unat (confirmation_count v) < stack_depth
     then v\<lparr>confirmation_count := confirmation_count v + 1\<rparr> else v)"

definition double_lockouts :: "lockout list \<Rightarrow> lockout list" where
  "double_lockouts vs = map (double_lockout (length vs)) (enumerate 0 vs)"

fun bump_last_credits :: "epoch_credit list \<Rightarrow> epoch_credit list" where
  "bump_last_credits [] = []"
| "bump_last_credits [(e, c, p)] = [(e, c + 1, p)]"
| "bump_last_credits (x # y # xs) = x # bump_last_credits (y # xs)"

definition increment_credits :: "epoch \<Rightarrow> vote_state \<Rightarrow> vote_state" where
  "increment_credits e vs =
     (let ec = epoch_credits vs;
          ec1 = (if ec = [] then [(e, 0, 0)]
                 else case last ec of (e0, c, p) \<Rightarrow>
                   if e \<noteq> e0 then
                     let ec' = (if c \<noteq> p then ec @ [(e, c, c)] else butlast ec @ [(e, c, p)])
                     in if MAX_EPOCH_CREDITS_HISTORY < length ec' then tl ec' else ec'
                   else ec)
      in vs\<lparr>epoch_credits := bump_last_credits ec1\<rparr>)"

definition process_next_vote_slot :: "slot \<Rightarrow> epoch \<Rightarrow> vote_state \<Rightarrow> vote_state" where
  "process_next_vote_slot next_vote_slot e vs =
     (if (case last_voted_slot vs of None \<Rightarrow> False | Some l \<Rightarrow> next_vote_slot \<le> l) then vs
      else
        let vs1 = vs\<lparr>votes := pop_expired_votes next_vote_slot (votes vs)\<rparr>;
            vs2 = (if length (votes vs1) = MAX_LOCKOUT_HISTORY
                   then increment_credits e
                     (vs1\<lparr>votes := tl (votes vs1), root_slot := Some (l_slot (hd (votes vs1)))\<rparr>)
                   else vs1)
        in vs2\<lparr>votes := double_lockouts (votes vs2 @ [lockout_new next_vote_slot])\<rparr>)"

definition process_timestamp :: "slot \<Rightarrow> int \<Rightarrow> vote_state \<Rightarrow> (vote_error, vote_state) res" where
  "process_timestamp s ts vs =
     (let lt = last_timestamp vs in
      if (s < bt_slot lt \<or> ts < bt_timestamp lt)
         \<or> (s = bt_slot lt \<and> \<lparr>bt_slot = s, bt_timestamp = ts\<rparr> \<noteq> lt \<and> bt_slot lt \<noteq> 0)
      then fail TimestampTooOld
      else Inr (vs\<lparr>last_timestamp := \<lparr>bt_slot = s, bt_timestamp = ts\<rparr>\<rparr>))"

subsection \<open>Votes slot by slot\<close>

function check_slots_loop ::
  "slot list \<Rightarrow> slot_hash list \<Rightarrow> slot option \<Rightarrow> nat \<Rightarrow> nat \<Rightarrow> nat \<times> nat" where
  "check_slots_loop ss sh last_voted i j =
     (if i < length ss \<and> 0 < j then
        if (case last_voted of None \<Rightarrow> False | Some l \<Rightarrow> ss ! i \<le> l)
        then check_slots_loop ss sh last_voted (i + 1) j
        else if ss ! i \<noteq> fst (sh ! (j - 1)) then check_slots_loop ss sh last_voted i (j - 1)
        else check_slots_loop ss sh last_voted (i + 1) (j - 1)
      else (i, j))"
  by pat_completeness auto
termination
  by (relation "measure (\<lambda>(ss, sh, l, i, j). (length ss - i) + j)") auto

declare check_slots_loop.simps [simp del]

definition check_slots_are_valid ::
  "vote_state \<Rightarrow> slot list \<Rightarrow> hash \<Rightarrow> slot_hash list \<Rightarrow> (vote_error, unit) res" where
  "check_slots_are_valid vs ss h sh =
     (case check_slots_loop ss sh (last_voted_slot vs) 0 (length sh) of (i, j) \<Rightarrow>
        if j = length sh then fail VoteTooOld
        else if i \<noteq> length ss then fail SlotsMismatch
        else if snd (sh ! j) \<noteq> h then fail SlotHashMismatch
        else Inr ())"

definition process_vote_slots ::
  "vote \<Rightarrow> slot_hash list \<Rightarrow> epoch \<Rightarrow> feature set option \<Rightarrow> vote_state \<Rightarrow> (vote_error, vote_state) res" where
  "process_vote_slots v sh e fs vs =
     (if v_slots v = [] then fail EmptySlots
      else
        let filtered = (case fs of None \<Rightarrow> None | Some fset \<Rightarrow>
              if is_active fset Filter_votes_outside_slot_hashes then
                let earliest = (if sh = [] then 0 else fst (last sh))
                in Some (filter (\<lambda>s. earliest \<le> s) (v_slots v))
              else None);
            ss = (case filtered of None \<Rightarrow> v_slots v | Some l \<Rightarrow> l)
        in if ss = [] then fail VotesTooOldAllFiltered
           else and_then (check_slots_are_valid vs ss (v_hash v) sh)
             (\<lambda>_. Inr (fold (\<lambda>s. process_next_vote_slot s e) ss vs)))"

definition process_vote_unchecked :: "vote \<Rightarrow> vote_state \<Rightarrow> vote_state" where
  "process_vote_unchecked v vs =
     (let sh = map (\<lambda>x. (x, v_hash v)) (rev (v_slots v)) in
      case process_vote_slots v sh (current_epoch vs) None vs of Inl _ \<Rightarrow> vs | Inr vs' \<Rightarrow> vs')"

definition process_slot_vote_unchecked :: "slot \<Rightarrow> vote_state \<Rightarrow> vote_state" where
  "process_slot_vote_unchecked s vs = process_vote_unchecked (vote_new [s] 0) vs"

end
