(* ===== verification/Vote_Update.thy ===== *)
theory Vote_Update
  imports Vote_State
begin

text \<open>
  Votes that propose a whole tower (\<open>check_update_vote_state_slots_are_valid\<close> and
  \<open>process_new_vote_state\<close> of \<open>programs/vote/src/vote_state/mod.rs\<close>).
\<close>

section \<open>Is the proposed tower on this fork?\<close>

text \<open>
  The loop walks the proposal from its oldest slot (its root first, while \<open>check_root\<close> is
  set) and the slot hashes from the oldest. It returns the two indices and the positions of the
  votes to drop, which are older than the history and not in the present tower.
\<close>

function check_update_loop ::
  "vote_state \<Rightarrow> lockout list \<Rightarrow> slot_hash list \<Rightarrow> slot \<Rightarrow> slot option \<Rightarrow> nat \<Rightarrow> nat \<Rightarrow> nat list
    \<Rightarrow> (vote_error, nat \<times> nat \<times> nat list) res" where
  "check_update_loop vs ls sh earliest check_root i j filt =
     (if i < length ls \<and> 0 < j then
        let proposed = (case check_root of Some r \<Rightarrow> r | None \<Rightarrow> l_slot (ls ! i)) in
        if check_root = None \<and> 0 < i \<and> proposed \<le> l_slot (ls ! (i - 1)) then fail SlotsNotOrdered
        else case cmp proposed (fst (sh ! (j - 1))) of
          Less \<Rightarrow>
            if j = length sh then
              if \<not> proposed < earliest then Inl Panic
              else
                let filt' = (if \<not> contains_slot vs proposed \<and> check_root = None then filt @ [i] else filt)
                in if check_root \<noteq> None then
                     (case root_slot vs of
                        None \<Rightarrow> Inl Panic
                      | Some r \<Rightarrow> if r < earliest then check_update_loop vs ls sh earliest None i j filt'
                                else Inl Panic)
                   else check_update_loop vs ls sh earliest check_root (i + 1) j filt'
            else if check_root \<noteq> None then fail RootOnDifferentFork
            else fail SlotsMismatch
        | Greater \<Rightarrow> check_update_loop vs ls sh earliest check_root i (j - 1) filt
        | Equal \<Rightarrow>
            if check_root \<noteq> None then check_update_loop vs ls sh earliest None i j filt
            else check_update_loop vs ls sh earliest None (i + 1) (j - 1) filt
      else Inr (i, j, filt))"
  by pat_completeness auto
termination
  by (relation "measure (\<lambda>(vs, ls, sh, e, cr, i, j, filt).
        (length ls - i) + j + (case cr of None \<Rightarrow> 0 | Some _ \<Rightarrow> 1))") auto

declare check_update_loop.simps [simp del]

text \<open>The closure passed to \<open>retain\<close>: drop the positions listed, which are in increasing order.\<close>

fun retain_unfiltered :: "nat list \<Rightarrow> nat \<Rightarrow> nat \<Rightarrow> 'a list \<Rightarrow> 'a list" where
  "retain_unfiltered filt i f [] = []"
| "retain_unfiltered filt i f (x # xs) =
     (if f = length filt then x # retain_unfiltered filt (i + 1) f xs
      else if i = filt ! f then retain_unfiltered filt (i + 1) (f + 1) xs
      else x # retain_unfiltered filt (i + 1) f xs)"

definition check_update_vote_state_slots_are_valid ::
  "vote_state \<Rightarrow> vote_state_update \<Rightarrow> slot_hash list \<Rightarrow> (vote_error, vote_state_update) res" where
  "check_update_vote_state_slots_are_valid vs u sh =
     (if lockouts u = [] then fail EmptySlots
      else
        let last_slot = l_slot (last (lockouts u)) in
        if (case last_voted_slot vs of None \<Rightarrow> False | Some l \<Rightarrow> last_slot \<le> l) then fail VoteTooOld
        else if sh = [] then fail SlotsMismatch
        else
          let earliest = fst (last sh) in
          if last_slot < earliest then fail VoteTooOld
          else
            let u1 = (case u_root u of
                        None \<Rightarrow> u
                      | Some r \<Rightarrow> if r < earliest then u\<lparr>u_root := root_slot vs\<rparr> else u)
            in and_then (check_update_loop vs (lockouts u1) sh earliest (u_root u1) 0 (length sh) [])
              (\<lambda>(i, j, filt).
                 if i \<noteq> length (lockouts u1) then fail SlotsMismatch
                 else if \<not> j < length sh then Inl Panic
                 else if last_slot \<noteq> fst (sh ! j) then Inl Panic
                 else if snd (sh ! j) \<noteq> u_hash u1 then fail SlotHashMismatch
                 else Inr (u1\<lparr>lockouts := retain_unfiltered filt 0 0 (lockouts u1)\<rparr>)))"

section \<open>Does the proposed tower respect the present one?\<close>

definition check_new_root :: "slot option \<Rightarrow> slot option \<Rightarrow> (vote_error, unit) res" where
  "check_new_root new_root current =
     (case (new_root, current) of
        (Some n, Some c) \<Rightarrow> if n < c then fail RootRollBack else Inr ()
      | (None, Some _) \<Rightarrow> fail RootRollBack
      | _ \<Rightarrow> Inr ())"

fun check_new_votes :: "slot option \<Rightarrow> lockout option \<Rightarrow> lockout list \<Rightarrow> (vote_error, unit) res" where
  "check_new_votes new_root prev [] = Inr ()"
| "check_new_votes new_root prev (v # vs) =
     (if confirmation_count v = 0 then fail ZeroConfirmations
      else if of_nat MAX_LOCKOUT_HISTORY < confirmation_count v then fail ConfirmationTooLarge
      else if (case new_root of None \<Rightarrow> False | Some r \<Rightarrow> l_slot v \<le> r \<and> r \<noteq> 0) then fail SlotSmallerThanRoot
      else case prev of
        None \<Rightarrow> check_new_votes new_root (Some v) vs
      | Some p \<Rightarrow>
          if l_slot v \<le> l_slot p then fail SlotsNotOrdered
          else if confirmation_count p \<le> confirmation_count v then fail ConfirmationsNotOrdered
          else if last_locked_out_slot p < l_slot v then fail NewVoteStateLockoutMismatch
          else check_new_votes new_root (Some v) vs)"

text \<open>The number of votes, from the oldest, that the new root covers.\<close>

fun skip_rooted :: "slot option \<Rightarrow> lockout list \<Rightarrow> nat" where
  "skip_rooted new_root [] = 0"
| "skip_rooted new_root (v # vs) =
     (case new_root of
        None \<Rightarrow> 0
      | Some r \<Rightarrow> if l_slot v \<le> r then Suc (skip_rooted new_root vs) else 0)"

function compare_towers :: "lockout list \<Rightarrow> lockout list \<Rightarrow> nat \<Rightarrow> nat \<Rightarrow> (vote_error, unit) res" where
  "compare_towers cur new ci ni =
     (if ci < length cur \<and> ni < length new then
        let c = cur ! ci; n = new ! ni in
        case cmp (l_slot c) (l_slot n) of
          Less \<Rightarrow> if l_slot n \<le> last_locked_out_slot c then fail LockoutConflict
                  else compare_towers cur new (ci + 1) ni
        | Equal \<Rightarrow> if confirmation_count n < confirmation_count c then fail ConfirmationRollBack
                  else compare_towers cur new (ci + 1) (ni + 1)
        | Greater \<Rightarrow> compare_towers cur new ci (ni + 1)
      else Inr ())"
  by pat_completeness auto
termination
  by (relation "measure (\<lambda>(cur, new, ci, ni). (length cur - ci) + (length new - ni))") auto

declare compare_towers.simps [simp del]

definition process_new_vote_state ::
  "lockout list \<Rightarrow> slot option \<Rightarrow> int option \<Rightarrow> epoch \<Rightarrow> vote_state \<Rightarrow> (vote_error, vote_state) res" where
  "process_new_vote_state new_state new_root timestamp e vs =
     and_then (assert_that (new_state \<noteq> [])) (\<lambda>_.
     and_then (ensure (length new_state \<le> MAX_LOCKOUT_HISTORY) TooManyVotes) (\<lambda>_.
     and_then (check_new_root new_root (root_slot vs)) (\<lambda>_.
     and_then (check_new_votes new_root None new_state) (\<lambda>_.
     and_then (compare_towers (votes vs) new_state (skip_rooted new_root (votes vs)) 0) (\<lambda>_.
       let vs1 = (if root_slot vs \<noteq> new_root then increment_credits e vs else vs) in
       and_then (case timestamp of
                   None \<Rightarrow> Inr vs1
                 | Some ts \<Rightarrow> process_timestamp (l_slot (last new_state)) ts vs1)
         (\<lambda>vs2. Inr (vs2\<lparr>root_slot := new_root, votes := new_state\<rparr>)))))))"

end
