(* ===== verification/Vote_Tower.thy ===== *)
theory Vote_Tower
  imports Vote_Update
begin

text \<open>
  The tower invariant and the theorems of the two ways of voting: slot by slot
  (\<open>process_next_vote_slot\<close>) and by proposing a whole tower (\<open>process_new_vote_state\<close>).
\<close>

section \<open>The invariant of a tower\<close>

text \<open>
  The three conditions that \<open>process_new_vote_state\<close> states in its comment, with the
  bounds the vote account is sized for: slots strictly increase, confirmation counts strictly
  decrease and lie in [1, 31], and every vote is inside the lockout of the vote before it.
\<close>

definition tower_ok :: "lockout list \<Rightarrow> bool" where
  "tower_ok ls \<longleftrightarrow>
     length ls \<le> MAX_LOCKOUT_HISTORY
   \<and> sorted_wrt (\<lambda>a b. l_slot a < l_slot b) ls
   \<and> sorted_wrt (\<lambda>a b. confirmation_count b < confirmation_count a) ls
   \<and> (\<forall>v \<in> set ls. 1 \<le> confirmation_count v \<and> confirmation_count v \<le> 31)
   \<and> successively (\<lambda>a b. l_slot b \<le> last_locked_out_slot a) ls"

definition root_ok :: "slot option \<Rightarrow> lockout list \<Rightarrow> bool" where
  "root_ok r ls \<longleftrightarrow> (case r of None \<Rightarrow> True
     | Some s \<Rightarrow> ls \<noteq> [] \<and> (s = 0 \<or> (\<forall>v \<in> set ls. s < l_slot v)))"

text \<open>Slots below this bound do not wrap when the longest lockout is added.\<close>

definition slot_bounded :: "slot \<Rightarrow> bool" where
  "slot_bounded s \<longleftrightarrow> unat s + 2 ^ 31 < 2 ^ 64"

definition vote_inv :: "vote_state \<Rightarrow> bool" where
  "vote_inv vs \<longleftrightarrow> tower_ok (votes vs) \<and> root_ok (root_slot vs) (votes vs)
     \<and> (\<forall>v \<in> set (votes vs). slot_bounded (l_slot v))"

section \<open>Lockout arithmetic\<close>

lemma unat_lockout_of:
  assumes "unat (confirmation_count l) < 64"
  shows "unat (lockout_of l) = 2 ^ unat (confirmation_count l)"
proof -
  have "(2::nat) ^ unat (confirmation_count l) < 2 ^ 64"
    using assms by (intro power_strict_increasing) auto
  moreover have "lockout_of l = of_nat (2 ^ unat (confirmation_count l))"
    by (simp add: lockout_of_def INITIAL_LOCKOUT_def)
  ultimately show ?thesis by (simp only:) (rule of_nat_inverse, simp_all)
qed

lemma cc_le_31: "confirmation_count l \<le> 31 \<longleftrightarrow> unat (confirmation_count l) \<le> 31"
  by (simp add: word_le_nat_alt)

lemma unat_last_locked_out_slot:
  assumes "confirmation_count l \<le> 31" "slot_bounded (l_slot l)"
  shows "unat (last_locked_out_slot l) = unat (l_slot l) + 2 ^ unat (confirmation_count l)"
proof -
  have c: "unat (confirmation_count l) \<le> 31" using assms by (simp add: cc_le_31)
  then have "(2::nat) ^ unat (confirmation_count l) \<le> 2 ^ 31" by (intro power_increasing) auto
  then show ?thesis using assms(2) c
    unfolding last_locked_out_slot_def slot_bounded_def
    by (subst unat_add_no_wrap) (simp_all add: unat_lockout_of)
qed

lemma last_locked_out_slot_mono:
  assumes "confirmation_count a \<le> confirmation_count b" "confirmation_count b \<le> 31"
    and "l_slot a = l_slot b" "slot_bounded (l_slot b)"
  shows "last_locked_out_slot a \<le> last_locked_out_slot b"
proof -
  have "confirmation_count a \<le> 31" using assms(1,2) by (rule order_trans)
  then show ?thesis using assms
    by (simp add: word_le_nat_alt unat_last_locked_out_slot)
qed

section \<open>Popping expired votes\<close>

lemma pop_expired_votes_split:
  "\<exists>gone. ls = pop_expired_votes s ls @ gone \<and> (\<forall>v \<in> set gone. last_locked_out_slot v < s)
     \<and> (pop_expired_votes s ls \<noteq> [] \<longrightarrow> s \<le> last_locked_out_slot (last (pop_expired_votes s ls)))"
proof (induction s ls rule: pop_expired_votes.induct)
  case (1 s ls)
  show ?case
  proof (cases "ls \<noteq> [] \<and> \<not> is_locked_out_at_slot (last ls) s")
    case True
    then have e: "pop_expired_votes s ls = pop_expired_votes s (butlast ls)"
      by (simp add: pop_expired_votes.simps [of s ls])
    obtain gone where g: "butlast ls = pop_expired_votes s (butlast ls) @ gone"
      "\<forall>v \<in> set gone. last_locked_out_slot v < s"
      "pop_expired_votes s (butlast ls) \<noteq> [] \<longrightarrow>
         s \<le> last_locked_out_slot (last (pop_expired_votes s (butlast ls)))"
      using 1 True by blast
    have "ls = pop_expired_votes s ls @ (gone @ [last ls])"
      using True g(1) e by (metis append.assoc append_butlast_last_id)
    then show ?thesis using g True e
      by (intro exI [of _ "gone @ [last ls]"]) (auto simp: is_locked_out_at_slot_def)
  next
    case False
    then have e: "pop_expired_votes s ls = ls"
      by (subst pop_expired_votes.simps) (simp only: if_False)
    then show ?thesis using False
      by (intro exI [of _ "[]"]) (auto simp: is_locked_out_at_slot_def)
  qed
qed

lemma tower_ok_append:
  assumes "tower_ok (xs @ ys)" shows "tower_ok xs" "tower_ok ys"
  using assms by (auto simp: tower_ok_def sorted_wrt_append successively_append_iff)

lemma tower_ok_pop: "tower_ok ls \<Longrightarrow> tower_ok (pop_expired_votes s ls)"
  using pop_expired_votes_split [of ls s] by (metis tower_ok_append(1))

lemma tower_ok_tl: "tower_ok ls \<Longrightarrow> tower_ok (tl ls)"
  by (cases ls) (auto simp: tower_ok_def successively_Cons)

lemma pop_full:
  assumes "length ls \<le> n" "length (pop_expired_votes s ls) = n"
  shows "pop_expired_votes s ls = ls"
proof -
  obtain gone where g: "ls = pop_expired_votes s ls @ gone" using pop_expired_votes_split [of ls s] by blast
  have "length ls = length (pop_expired_votes s ls) + length gone"
    using arg_cong [OF g, of length] by (simp only: length_append)
  then have "gone = []" using assms by simp
  then show ?thesis using g by (metis append_Nil2)
qed

lemma pop_locked: "ls \<noteq> [] \<Longrightarrow> s \<le> last_locked_out_slot (last ls) \<Longrightarrow> pop_expired_votes s ls = ls"
  by (simp add: pop_expired_votes.simps [of s ls] is_locked_out_at_slot_def)

lemma pop_full_iff:
  assumes "length ls \<le> 31"
  shows "length (pop_expired_votes s ls) = 31 \<longleftrightarrow> length ls = 31 \<and> s \<le> last_locked_out_slot (last ls)"
proof
  assume l: "length (pop_expired_votes s ls) = 31"
  have "pop_expired_votes s ls = ls" using pop_full [OF assms l] .
  moreover have "pop_expired_votes s ls \<noteq> []" using l by auto
  moreover have "pop_expired_votes s ls \<noteq> [] \<longrightarrow> s \<le> last_locked_out_slot (last (pop_expired_votes s ls))"
    using pop_expired_votes_split [of ls s] by blast
  ultimately show "length ls = 31 \<and> s \<le> last_locked_out_slot (last ls)" using l by simp
next
  assume "length ls = 31 \<and> s \<le> last_locked_out_slot (last ls)"
  moreover from this have "ls \<noteq> []" by auto
  ultimately show "length (pop_expired_votes s ls) = 31" by (simp add: pop_locked)
qed

lemma set_pop_subset: "set (pop_expired_votes s ls) \<subseteq> set ls"
  using pop_expired_votes_split [of ls s] by (metis set_append sup.cobounded1)

section \<open>Doubling lockouts\<close>

lemma length_double_lockouts [simp]: "length (double_lockouts ls) = length ls"
  by (simp add: double_lockouts_def)

lemma nth_double_lockouts:
  "i < length ls \<Longrightarrow> double_lockouts ls ! i = double_lockout (length ls) (i, ls ! i)"
  by (simp add: double_lockouts_def nth_enumerate_eq)

lemma l_slot_double [simp]: "l_slot (double_lockout n (i, v)) = l_slot v"
  by (simp add: double_lockout_def)

lemma slots_double_lockouts [simp]: "map l_slot (double_lockouts ls) = map l_slot ls"
  by (rule nth_equalityI) (simp_all add: nth_double_lockouts)

lemma double_lockouts_empty [simp]: "double_lockouts ls = [] \<longleftrightarrow> ls = []"
  by (metis length_0_conv length_double_lockouts)

lemma unat_cc_double:
  assumes "unat (confirmation_count v) \<le> 31"
  shows "unat (confirmation_count (double_lockout n (i, v))) =
    (if i + unat (confirmation_count v) < n then unat (confirmation_count v) + 1
     else unat (confirmation_count v))"
  using assms by (simp add: double_lockout_def unat_add_no_wrap)

lemma all_nat_split: "(\<forall>i. P i) \<longleftrightarrow> P 0 \<and> (\<forall>i. P (Suc i))"
  by (metis not0_implies_Suc)

lemma successively_nth:
  "successively P xs \<longleftrightarrow> (\<forall>i. Suc i < length xs \<longrightarrow> P (xs ! i) (xs ! Suc i))"
proof (induction xs rule: induct_list012)
  case (3 x y zs)
  have "(\<forall>i. Suc i < length (x # y # zs) \<longrightarrow> P ((x # y # zs) ! i) ((x # y # zs) ! Suc i)) \<longleftrightarrow>
      P x y \<and> (\<forall>i. Suc i < length (y # zs) \<longrightarrow> P ((y # zs) ! i) ((y # zs) ! Suc i))"
    by (subst all_nat_split) simp
  then show ?case using 3 by simp
qed auto

text \<open>The confirmation counts of a tower that has one more vote pushed and is then doubled.\<close>

definition counts_ok :: "lockout list \<Rightarrow> bool" where
  "counts_ok ls \<longleftrightarrow> sorted_wrt (\<lambda>a b. confirmation_count b < confirmation_count a) ls
     \<and> (\<forall>v \<in> set ls. 1 \<le> confirmation_count v \<and> confirmation_count v \<le> 31)"

lemma counts_ok_nth:
  "counts_ok ls \<longleftrightarrow>
     (\<forall>i j. i < j \<longrightarrow> j < length ls \<longrightarrow> unat (confirmation_count (ls ! j)) < unat (confirmation_count (ls ! i)))
   \<and> (\<forall>i < length ls. 1 \<le> unat (confirmation_count (ls ! i)) \<and> unat (confirmation_count (ls ! i)) \<le> 31)"
  by (auto simp: counts_ok_def sorted_wrt_iff_nth_less word_less_nat_alt word_le_nat_alt all_set_conv_all_nth)

lemma unat_cc_push:
  assumes "counts_ok ls" "i < length ls"
  shows "unat (confirmation_count (double_lockouts (ls @ [lockout_new s]) ! i)) =
    (if i + unat (confirmation_count (ls ! i)) \<le> length ls then unat (confirmation_count (ls ! i)) + 1
     else unat (confirmation_count (ls ! i)))"
  using assms by (simp add: nth_double_lockouts nth_append unat_cc_double counts_ok_nth less_Suc_eq_le)

lemma unat_cc_push_new:
  "unat (confirmation_count (double_lockouts (ls @ [lockout_new s]) ! length ls)) = 1"
  by (simp add: nth_double_lockouts unat_cc_double lockout_new_def)

lemma counts_ok_push:
  assumes ok: "counts_ok ls" and len: "length ls < 31"
  shows "counts_ok (double_lockouts (ls @ [lockout_new s]))"
proof -
  have b: "1 \<le> unat (confirmation_count (ls ! i))" "unat (confirmation_count (ls ! i)) \<le> 31"
    if "i < length ls" for i
    using that ok by (auto simp: counts_ok_nth)
  show ?thesis unfolding counts_ok_nth
  proof (intro conjI allI impI, goal_cases)
    case (1 i j)
    show ?case
    proof (cases "j = length ls")
      case True
      then show ?thesis using 1 b(1) [of i] ok by (simp add: unat_cc_push_new unat_cc_push)
    next
      case False
      then have j: "j < length ls" using 1 by simp
      then have "unat (confirmation_count (ls ! j)) < unat (confirmation_count (ls ! i))"
        using 1 ok by (simp add: counts_ok_nth)
      then show ?thesis using 1 j ok by (simp add: unat_cc_push)
    qed
  next
    case (2 i)
    then show ?case using b(1) [of i] ok
      by (cases "i = length ls") (simp_all add: unat_cc_push_new unat_cc_push)
  next
    case (3 i)
    then show ?case using b [of i] ok len
      by (cases "i = length ls") (simp_all add: unat_cc_push_new unat_cc_push)
  qed
qed

lemma chain_push:
  assumes chain: "successively (\<lambda>a b. l_slot b \<le> last_locked_out_slot a) (ls @ [lockout_new s])"
    and ok: "counts_ok ls" "length ls < 31" and bounded: "\<forall>v \<in> set ls. slot_bounded (l_slot v)"
  shows "successively (\<lambda>a b. l_slot b \<le> last_locked_out_slot a) (double_lockouts (ls @ [lockout_new s]))"
    (is "successively _ ?d")
  unfolding successively_nth
proof (intro allI impI)
  fix i assume i: "Suc i < length ?d"
  let ?w = "ls @ [lockout_new s]"
  have il: "i < length ls" using i by simp
  have "l_slot (?w ! Suc i) \<le> last_locked_out_slot (?w ! i)" using i chain by (auto simp: successively_nth)
  also have "\<dots> \<le> last_locked_out_slot (?d ! i)"
  proof (rule last_locked_out_slot_mono)
    show "confirmation_count (?w ! i) \<le> confirmation_count (?d ! i)"
      using il unat_cc_push [OF ok(1) il] by (simp add: word_le_nat_alt nth_append)
    show "confirmation_count (?d ! i) \<le> 31"
      using il counts_ok_push [OF ok] by (simp add: cc_le_31 counts_ok_nth)
    show "l_slot (?w ! i) = l_slot (?d ! i)" "slot_bounded (l_slot (?d ! i))"
      using il bounded by (auto simp: nth_double_lockouts nth_append)
  qed
  finally show "l_slot (?d ! Suc i) \<le> last_locked_out_slot (?d ! i)"
    using i by (simp add: nth_double_lockouts)
qed

lemma tower_ok_alt:
  "tower_ok ls \<longleftrightarrow> length ls \<le> 31 \<and> sorted_wrt (<) (map l_slot ls) \<and> counts_ok ls
     \<and> successively (\<lambda>a b. l_slot b \<le> last_locked_out_slot a) ls"
  by (auto simp: tower_ok_def counts_ok_def MAX_LOCKOUT_HISTORY_def sorted_wrt_map)

lemma tower_ok_push:
  assumes ok: "tower_ok ls" and len: "length ls < 31"
    and bounded: "\<forall>v \<in> set ls. slot_bounded (l_slot v)"
    and slots: "\<forall>v \<in> set ls. l_slot v < s"
    and locked: "ls \<noteq> [] \<longrightarrow> s \<le> last_locked_out_slot (last ls)"
  shows "tower_ok (double_lockouts (ls @ [lockout_new s]))"
proof -
  have "successively (\<lambda>a b. l_slot b \<le> last_locked_out_slot a) (ls @ [lockout_new s])"
    using ok locked by (auto simp: tower_ok_alt successively_append_iff lockout_new_def)
  moreover have "sorted_wrt (<) (map l_slot (ls @ [lockout_new s]))"
    using ok slots by (auto simp: tower_ok_alt sorted_wrt_append lockout_new_def)
  ultimately show ?thesis
    using ok len bounded by (simp add: tower_ok_alt counts_ok_push chain_push del: map_append)
qed


section \<open>One vote\<close>

text \<open>The branches of \<open>process_next_vote_slot\<close>, named.\<close>

abbreviation old_slot :: "slot \<Rightarrow> vote_state \<Rightarrow> bool" where
  "old_slot s vs \<equiv> (case last_voted_slot vs of None \<Rightarrow> False | Some l \<Rightarrow> s \<le> l)"

abbreviation roots :: "slot \<Rightarrow> vote_state \<Rightarrow> bool" where
  "roots s vs \<equiv> length (pop_expired_votes s (votes vs)) = 31"

abbreviation kept :: "slot \<Rightarrow> vote_state \<Rightarrow> lockout list" where
  "kept s vs \<equiv> (if roots s vs then tl (pop_expired_votes s (votes vs)) else pop_expired_votes s (votes vs))"

lemma increment_credits_frame [simp]:
  "votes (increment_credits e vs) = votes vs" "root_slot (increment_credits e vs) = root_slot vs"
  "node_pubkey (increment_credits e vs) = node_pubkey vs"
  "authorized_withdrawer (increment_credits e vs) = authorized_withdrawer vs"
  "authorized_voters (increment_credits e vs) = authorized_voters vs"
  "prior_voters (increment_credits e vs) = prior_voters vs"
  "commission (increment_credits e vs) = commission vs"
  "last_timestamp (increment_credits e vs) = last_timestamp vs"
  by (simp_all add: increment_credits_def Let_def)

lemma process_next_old [simp]: "old_slot s vs \<Longrightarrow> process_next_vote_slot s e vs = vs"
  by (simp add: process_next_vote_slot_def)

lemma process_next_new:
  assumes "\<not> old_slot s vs"
  shows "votes (process_next_vote_slot s e vs) = double_lockouts (kept s vs @ [lockout_new s])"
    and "root_slot (process_next_vote_slot s e vs) =
      (if roots s vs then Some (l_slot (hd (pop_expired_votes s (votes vs)))) else root_slot vs)"
    and "epoch_credits (process_next_vote_slot s e vs) =
      (if roots s vs then epoch_credits (increment_credits e vs) else epoch_credits vs)"
  using assms by (simp_all add: process_next_vote_slot_def MAX_LOCKOUT_HISTORY_def Let_def increment_credits_def
      split del: if_split cong: if_cong) (simp_all)

lemma increment_credits_upd:
  "increment_credits e (vs\<lparr>votes := v, root_slot := r\<rparr>) = (increment_credits e vs)\<lparr>votes := v, root_slot := r\<rparr>"
  by (simp add: increment_credits_def Let_def)

lemma process_next_state:
  assumes "\<not> old_slot s vs"
  shows "process_next_vote_slot s e vs = (if roots s vs then increment_credits e vs else vs)
    \<lparr>root_slot := root_slot (process_next_vote_slot s e vs), votes := votes (process_next_vote_slot s e vs)\<rparr>"
  using assms
  by (cases "roots s vs") (simp_all add: process_next_vote_slot_def Let_def MAX_LOCKOUT_HISTORY_def increment_credits_upd)

lemma in_popped_cases:
  "c \<in> set (p @ gone) \<Longrightarrow>
     c \<in> set gone \<or> (length p = n \<and> c = hd p) \<or> c \<in> set (if length p = n then tl p else p)"
  by (cases p) auto

lemma tower_process_next:
  "\<not> old_slot s vs \<Longrightarrow> tower (process_next_vote_slot s e vs) = map l_slot (kept s vs) @ [s]"
  by (simp add: tower_def process_next_new lockout_new_def)

lemma slots_process_next:
  "\<not> old_slot s vs \<Longrightarrow>
     l_slot ` set (votes (process_next_vote_slot s e vs)) = insert s (l_slot ` set (kept s vs))"
  using tower_process_next [of s vs e] unfolding tower_def
  by (metis list.set_map set_append list.simps(15) empty_set insert_is_Un sup_commute)

lemma last_voted_is_greatest:
  assumes "tower_ok (votes vs)" "\<not> old_slot s vs" "v \<in> set (votes vs)"
  shows "l_slot v < s"
proof -
  have "votes vs \<noteq> []" using assms(3) by auto
  then have l: "l_slot (last (votes vs)) < s"
    using assms(2) by (simp add: last_voted_slot_def last_lockout_def next_back_def)
  have "l_slot v \<le> l_slot (last (votes vs))"
    using sorted_wrt_last [of l_slot "votes vs" v] assms(1,3) by (auto simp: tower_ok_def sorted_wrt_map)
  with l show ?thesis by simp
qed

lemma kept_subset: "set (kept s vs) \<subseteq> set (votes vs)"
  using set_pop_subset [of s "votes vs"] by (auto dest: list.set_sel(2) [rotated])

lemma kept_ok:
  assumes "tower_ok (votes vs)"
  shows "tower_ok (kept s vs)" "length (kept s vs) < 31"
    and "kept s vs \<noteq> [] \<longrightarrow> s \<le> last_locked_out_slot (last (kept s vs))"
proof -
  let ?p = "pop_expired_votes s (votes vs)"
  have p: "tower_ok ?p" using assms by (rule tower_ok_pop)
  then show "tower_ok (kept s vs)" by (simp add: tower_ok_tl)
  have "length ?p \<le> 31" using p by (simp add: tower_ok_alt)
  then show "length (kept s vs) < 31" by simp
  have "?p \<noteq> [] \<longrightarrow> s \<le> last_locked_out_slot (last ?p)"
    using pop_expired_votes_split [of "votes vs" s] by blast
  then show "kept s vs \<noteq> [] \<longrightarrow> s \<le> last_locked_out_slot (last (kept s vs))"
    by (cases ?p) auto
qed

lemma root_ok_step:
  assumes inv: "vote_inv vs" and new: "\<not> old_slot s vs"
  shows "root_ok (root_slot (process_next_vote_slot s e vs)) (votes (process_next_vote_slot s e vs))"
proof -
  let ?p = "pop_expired_votes s (votes vs)"
  note slots = slots_process_next [OF new, of e]
  have lt: "\<forall>v \<in> set (votes vs). l_slot v < s"
    using inv last_voted_is_greatest [OF _ new] by (auto simp: vote_inv_def)
  have "r = 0 \<or> (\<forall>x \<in> insert s (l_slot ` set (kept s vs)). r < x)"
    if "root_slot (process_next_vote_slot s e vs) = Some r" for r
  proof (cases "roots s vs")
    case True
    then have r: "r = l_slot (hd ?p)" and p: "?p \<noteq> []" using that new by (auto simp: process_next_new)
    then have "hd ?p \<in> set (votes vs)" using set_pop_subset by (metis list.set_sel(1) subsetD)
    moreover have "tower_ok ?p" using inv by (simp add: vote_inv_def tower_ok_pop)
    then have "\<forall>v \<in> set (tl ?p). l_slot (hd ?p) < l_slot v"
      using p by (cases ?p) (auto simp: tower_ok_def)
    ultimately show ?thesis using True r lt by auto
  next
    case False
    then have r: "root_slot vs = Some r" using that new by (simp add: process_next_new)
    then have ne: "votes vs \<noteq> []" and c: "r = 0 \<or> (\<forall>v \<in> set (votes vs). r < l_slot v)"
      using inv by (auto simp: vote_inv_def root_ok_def)
    show ?thesis
    proof (cases "r = 0")
      case False
      then have all: "\<forall>v \<in> set (votes vs). r < l_slot v" using c by simp
      then have "r < s" using lt hd_in_set [OF ne] less_trans by blast
      then show ?thesis using all kept_subset [of s vs] by blast
    qed simp
  qed
  moreover have "votes (process_next_vote_slot s e vs) \<noteq> []"
    by (simp add: process_next_new(1) [OF new])
  ultimately show ?thesis unfolding slots [symmetric]
    by (auto simp: root_ok_def split: option.splits)
qed

lemma process_next_vote_slot_vote_inv:
  assumes "vote_inv vs" "slot_bounded s"
  shows "vote_inv (process_next_vote_slot s e vs)"
proof (cases "old_slot s vs")
  case False
  let ?vs' = "process_next_vote_slot s e vs"
  have ok: "tower_ok (votes vs)" and b: "\<forall>v \<in> set (votes vs). slot_bounded (l_slot v)"
    using assms by (auto simp: vote_inv_def)
  have "tower_ok (votes ?vs')"
    unfolding process_next_new(1) [OF False]
    using kept_ok [OF ok] b kept_subset [of s vs] last_voted_is_greatest [OF ok False]
    by (intro tower_ok_push) blast+
  moreover have "\<forall>x \<in> set (tower ?vs'). slot_bounded x"
    using tower_process_next [OF False] b assms(2) kept_subset [of s vs] by auto
  ultimately show ?thesis using root_ok_step [OF assms(1) False]
    by (auto simp: vote_inv_def tower_def)
qed (use assms in simp)

section \<open>Credits\<close>

text \<open>
  The history of credits: at most 64 entries, epochs strictly increasing, and each entry starts
  where the one before it ends. \<open>earned\<close> is what an entry adds.
\<close>

definition credits_ok :: "epoch_credit list \<Rightarrow> bool" where
  "credits_ok ec \<longleftrightarrow> length ec \<le> MAX_EPOCH_CREDITS_HISTORY
     \<and> sorted_wrt (\<lambda>a b. fst a < fst b) ec
     \<and> successively (\<lambda>a b. snd (snd b) = fst (snd a)) ec"

lemma bump_last_credits_eq:
  "ec \<noteq> [] \<Longrightarrow> bump_last_credits ec =
     butlast ec @ [(fst (last ec), fst (snd (last ec)) + 1, snd (snd (last ec)))]"
  by (induction ec rule: bump_last_credits.induct) auto

lemma credits_ok_append1:
  "credits_ok (xs @ [x]) \<longleftrightarrow> length xs < MAX_EPOCH_CREDITS_HISTORY
     \<and> sorted_wrt (\<lambda>a b. fst a < fst b) xs \<and> (\<forall>a \<in> set xs. fst a < fst x)
     \<and> successively (\<lambda>a b. snd (snd b) = fst (snd a)) xs
     \<and> (xs \<noteq> [] \<longrightarrow> snd (snd x) = fst (snd (last xs)))"
  by (auto simp: credits_ok_def sorted_wrt_append successively_append_iff)

lemma epochs_le_last:
  "credits_ok ec \<Longrightarrow> a \<in> set ec \<Longrightarrow> fst a \<le> fst (last ec)"
  using sorted_wrt_last [of fst ec a] by (auto simp: credits_ok_def sorted_wrt_map)

lemma credits_ok_tl: "credits_ok ec \<Longrightarrow> credits_ok (tl ec)"
  by (cases ec) (auto simp: credits_ok_def successively_Cons)

text \<open>The history after a credit: an entry is added, or the last one is replaced.\<close>

definition credited :: "epoch \<Rightarrow> epoch_credit list \<Rightarrow> epoch_credit list" where
  "credited e ec =
     (if ec = [] then [(e, 1, 0)]
      else case last ec of (e0, c, p) \<Rightarrow>
        if e \<noteq> e0 \<and> c \<noteq> p
        then (if length ec \<ge> MAX_EPOCH_CREDITS_HISTORY then tl ec else ec) @ [(e, c + 1, c)]
        else butlast ec @ [(e, c + 1, p)])"

lemma increment_credits_credited:
  assumes "length (epoch_credits vs) \<le> MAX_EPOCH_CREDITS_HISTORY"
  shows "epoch_credits (increment_credits e vs) = credited e (epoch_credits vs)"
proof (cases "epoch_credits vs" rule: rev_cases)
  case Nil
  then show ?thesis by (simp add: increment_credits_def credited_def)
next
  case (snoc xs x)
  obtain e0 c p where x: "x = (e0, c, p)" by (cases x)
  have "length xs < 64" using assms snoc by (simp add: MAX_EPOCH_CREDITS_HISTORY_def)
  then show ?thesis using snoc x
    by (cases xs) (auto simp: increment_credits_def credited_def Let_def bump_last_credits_eq butlast_append
        MAX_EPOCH_CREDITS_HISTORY_def)
qed

lemma credited_last: "credited e ec \<noteq> []" "fst (last (credited e ec)) = e"
  "fst (snd (last (credited e ec))) = (if ec = [] then 0 else fst (snd (last ec))) + 1"
  by (auto simp: credited_def split: prod.splits)

lemma credited_ok:
  assumes ok: "credits_ok ec" and e: "ec \<noteq> [] \<longrightarrow> fst (last ec) \<le> e"
  shows "credits_ok (credited e ec)"
proof (cases ec rule: rev_cases)
  case Nil
  then show ?thesis by (simp add: credited_def credits_ok_def MAX_EPOCH_CREDITS_HISTORY_def)
next
  case (snoc xs x)
  obtain e0 c p where x: "x = (e0, c, p)" by (cases x)
  have o: "credits_ok (xs @ [(e0, c, p)])" and le: "e0 \<le> e" using assms snoc x by simp_all
  then have lt: "\<forall>a \<in> set xs. fst a < e" by (auto simp: credits_ok_append1 dest: order.strict_trans2)
  show ?thesis
  proof (cases "e \<noteq> e0 \<and> c \<noteq> p")
    case True
    then have "e0 < e" using le by (auto simp: order.strict_iff_order)
    then show ?thesis using True o lt snoc x credits_ok_tl [OF o]
      by (cases xs) (auto simp: credited_def credits_ok_append1 credits_ok_def successively_append_iff
          sorted_wrt_append MAX_EPOCH_CREDITS_HISTORY_def successively_Cons)
  next
    case False
    then show ?thesis using o lt snoc x by (auto simp: credited_def credits_ok_append1)
  qed
qed

lemma length_credited: "credits_ok ec \<Longrightarrow> length (credited e ec) \<le> 64"
  by (cases ec rule: rev_cases) (auto simp: credited_def credits_ok_def MAX_EPOCH_CREDITS_HISTORY_def split: prod.splits)

section \<open>A proposed tower\<close>

text \<open>
  The specification of \<open>process_new_vote_state\<close>. A proposal respects a vote of the present
  tower when it keeps the vote with at least its confirmations, or drops it and has no later
  vote inside its lockout.
\<close>

definition keeps_vote :: "lockout list \<Rightarrow> lockout \<Rightarrow> bool" where
  "keeps_vote new c \<longleftrightarrow>
     (\<forall>n \<in> set new. l_slot n = l_slot c \<longrightarrow> confirmation_count c \<le> confirmation_count n)
   \<and> (l_slot c \<notin> l_slot ` set new \<longrightarrow>
        (\<forall>n \<in> set new. l_slot c < l_slot n \<longrightarrow> last_locked_out_slot c < l_slot n))"

definition root_advances :: "slot option \<Rightarrow> slot option \<Rightarrow> bool" where
  "root_advances old new \<longleftrightarrow> (case old of None \<Rightarrow> True | Some o' \<Rightarrow> (\<exists>n. new = Some n \<and> o' \<le> n))"

lemma check_new_root_Inr: "check_new_root new old = Inr u \<longleftrightarrow> root_advances old new"
  by (auto simp: check_new_root_def root_advances_def fail_def not_less split: option.splits)

definition above_root :: "slot option \<Rightarrow> lockout \<Rightarrow> bool" where
  "above_root root v \<longleftrightarrow> (case root of None \<Rightarrow> True | Some r \<Rightarrow> r = 0 \<or> r < l_slot v)"

definition follows :: "lockout \<Rightarrow> lockout \<Rightarrow> bool" where
  "follows p v \<longleftrightarrow> l_slot p < l_slot v \<and> confirmation_count v < confirmation_count p
     \<and> l_slot v \<le> last_locked_out_slot p"

lemma one_le_word: "1 \<le> (x :: u32) \<longleftrightarrow> x \<noteq> 0"
  by (metis less_one linorder_not_le unat_eq_zero unsigned_1 word_le_nat_alt)

lemma check_new_votes_Cons:
  "check_new_votes root prev (v # vs) = Inr u \<longleftrightarrow>
     1 \<le> confirmation_count v \<and> confirmation_count v \<le> 31 \<and> above_root root v
   \<and> (\<forall>p. prev = Some p \<longrightarrow> follows p v) \<and> check_new_votes root (Some v) vs = Inr u"
  by (auto simp: one_le_word fail_def above_root_def follows_def MAX_LOCKOUT_HISTORY_def not_le not_less
      split: option.splits)

lemma check_new_votes_Inr:
  "check_new_votes root prev ls = Inr u \<longleftrightarrow>
     (\<forall>v \<in> set ls. 1 \<le> confirmation_count v \<and> confirmation_count v \<le> 31 \<and> above_root root v)
   \<and> (\<forall>p. prev = Some p \<longrightarrow> ls \<noteq> [] \<longrightarrow> follows p (hd ls)) \<and> successively follows ls"
proof (induction ls arbitrary: prev)
  case (Cons v vs)
  then show ?case by (auto simp del: check_new_votes.simps simp: check_new_votes_Cons successively_Cons)
qed simp

lemma follows_tower:
  "successively follows ls \<longleftrightarrow>
     sorted_wrt (\<lambda>a b. l_slot a < l_slot b) ls
   \<and> sorted_wrt (\<lambda>a b. confirmation_count b < confirmation_count a) ls
   \<and> successively (\<lambda>a b. l_slot b \<le> last_locked_out_slot a) ls"
proof -
  have "successively follows ls \<longleftrightarrow> successively (\<lambda>a b. l_slot a < l_slot b) ls
      \<and> successively (\<lambda>a b. confirmation_count b < confirmation_count a) ls
      \<and> successively (\<lambda>a b. l_slot b \<le> last_locked_out_slot a) ls"
    by (induction ls rule: induct_list012) (auto simp: follows_def)
  moreover have "successively (\<lambda>a b. l_slot a < l_slot b) ls = sorted_wrt (\<lambda>a b. l_slot a < l_slot b) ls"
    "successively (\<lambda>a b. confirmation_count b < confirmation_count a) ls =
      sorted_wrt (\<lambda>a b. confirmation_count b < confirmation_count a) ls"
    by (rule successively_conv_sorted_wrt, rule transpI, use less_trans in blast)+
  ultimately show ?thesis by simp
qed

text \<open>The two-index loop over the towers is a merge of the lists behind the indices.\<close>

fun merge_towers :: "lockout list \<Rightarrow> lockout list \<Rightarrow> bool" where
  "merge_towers [] new = True"
| "merge_towers (c # cs) [] = True"
| "merge_towers (c # cs) (n # ns) =
     (if l_slot c < l_slot n then last_locked_out_slot c < l_slot n \<and> merge_towers cs (n # ns)
      else if l_slot c = l_slot n then confirmation_count c \<le> confirmation_count n \<and> merge_towers cs ns
      else merge_towers (c # cs) ns)"

lemma compare_towers_merge:
  "compare_towers cur new ci ni = Inr u \<longleftrightarrow> merge_towers (drop ci cur) (drop ni new)"
proof (induction cur new ci ni rule: compare_towers.induct)
  case (1 cur new ci ni)
  show ?case
  proof (cases "ci < length cur \<and> ni < length new")
    case True
    then have d: "drop ci cur = cur ! ci # drop (Suc ci) cur" "drop ni new = new ! ni # drop (Suc ni) new"
      by (simp_all add: Cons_nth_drop_Suc)
    show ?thesis using 1 True
      by (subst compare_towers.simps) (auto simp: d cmp_def Let_def fail_def not_le not_less)
  next
    case False
    then show ?thesis by (subst compare_towers.simps) (cases "drop ci cur"; auto)
  qed
qed

lemma merge_towers_respects:
  assumes "sorted_wrt (\<lambda>a b. l_slot a < l_slot b) cur" "sorted_wrt (\<lambda>a b. l_slot a < l_slot b) new"
  shows "merge_towers cur new \<longleftrightarrow> (\<forall>c \<in> set cur. keeps_vote new c)"
  using assms
proof (induction cur new rule: merge_towers.induct)
  case (3 c cs n ns)
  then show ?case by (auto simp: keeps_vote_def)
qed (auto simp: keeps_vote_def)

lemma skip_rooted_drop:
  assumes "sorted_wrt (\<lambda>a b. l_slot a < l_slot b) ls"
  shows "drop (skip_rooted root ls) ls = filter (\<lambda>v. case root of None \<Rightarrow> True | Some r \<Rightarrow> r < l_slot v) ls"
  using assms
proof (induction ls)
  case (Cons v vs)
  show ?case
  proof (cases "\<exists>r. root = Some r \<and> l_slot v \<le> r")
    case True
    then show ?thesis using Cons by auto
  next
    case False
    then have "filter (\<lambda>v. case root of None \<Rightarrow> True | Some r \<Rightarrow> r < l_slot v) (v # vs) = v # vs"
      using Cons.prems by (auto simp: not_le filter_id_conv split: option.splits)
    then show ?thesis using False by (auto split: option.splits)
  qed
qed simp

lemma process_new_vote_state_Inr:
  assumes "sorted_wrt (\<lambda>a b. l_slot a < l_slot b) (votes vs)"
  shows "process_new_vote_state new root None e vs = Inr vs' \<longleftrightarrow>
     new \<noteq> [] \<and> tower_ok new \<and> (\<forall>v \<in> set new. above_root root v)
   \<and> root_advances (root_slot vs) root
   \<and> (\<forall>c \<in> set (votes vs). (\<exists>r. root = Some r \<and> l_slot c \<le> r) \<or> keeps_vote new c)
   \<and> vs' = (if root_slot vs \<noteq> root then increment_credits e vs else vs)\<lparr>root_slot := root, votes := new\<rparr>"
proof -
  have "check_new_votes root None new = Inr () \<and> length new \<le> 31 \<longleftrightarrow>
      tower_ok new \<and> (\<forall>v \<in> set new. above_root root v)"
    by (auto simp: check_new_votes_Inr tower_ok_def follows_tower MAX_LOCKOUT_HISTORY_def)
  moreover have "compare_towers (votes vs) new (skip_rooted root (votes vs)) 0 = Inr () \<longleftrightarrow>
      (\<forall>c \<in> set (votes vs). (\<exists>r. root = Some r \<and> l_slot c \<le> r) \<or> keeps_vote new c)" if "tower_ok new"
  proof -
    have "sorted_wrt (\<lambda>a b. l_slot a < l_slot b) (filter (\<lambda>v. case root of None \<Rightarrow> True | Some r \<Rightarrow> r < l_slot v) (votes vs))"
      using assms by (rule sorted_wrt_filter)
    then show ?thesis using that
      by (cases root) (auto simp: compare_towers_merge skip_rooted_drop [OF assms] merge_towers_respects
          tower_ok_def not_less [symmetric])
  qed
  ultimately show ?thesis
    by (auto simp: process_new_vote_state_def check_new_root_Inr MAX_LOCKOUT_HISTORY_def res_elim Let_def)
qed

lemma slot_inj:
  assumes "tower_ok ls" "a \<in> set ls" "b \<in> set ls" "l_slot a = l_slot b"
  shows "a = b"
  using assms unfolding tower_ok_def sorted_wrt_iff_nth_less in_set_conv_nth
  by (metis linorder_neq_iff)

lemma kept_confirmed:
  assumes "tower_ok (votes vs)" "\<not> old_slot s vs" "c \<in> set (kept s vs)"
  shows "\<exists>n \<in> set (votes (process_next_vote_slot s e vs)).
    l_slot n = l_slot c \<and> confirmation_count c \<le> confirmation_count n"
proof -
  obtain i where i: "i < length (kept s vs)" "kept s vs ! i = c" using assms(3) by (auto simp: in_set_conv_nth)
  have "counts_ok (kept s vs)" using kept_ok(1) [OF assms(1)] by (simp add: tower_ok_alt)
  note u = unat_cc_push [OF this i(1), of s]
  let ?d = "double_lockouts (kept s vs @ [lockout_new s])"
  have "?d ! i \<in> set ?d" using i(1) by (intro nth_mem) (simp del: if_image_distrib)
  moreover have "l_slot (?d ! i) = l_slot c" using i by (simp add: nth_double_lockouts nth_append)
  moreover have "confirmation_count c \<le> confirmation_count (?d ! i)"
    unfolding word_le_nat_alt u i(2) by simp
  ultimately show ?thesis unfolding process_next_new(1) [OF assms(2)] by blast
qed

lemma respects_step:
  assumes inv: "vote_inv vs" and new: "\<not> old_slot s vs" and s: "slot_bounded s" and c: "c \<in> set (votes vs)"
    and root: "roots s vs \<longrightarrow> c \<noteq> hd (pop_expired_votes s (votes vs))"
  shows "keeps_vote (votes (process_next_vote_slot s e vs)) c"
proof -
  let ?new = "votes (process_next_vote_slot s e vs)" and ?p = "pop_expired_votes s (votes vs)"
  have ok: "tower_ok (votes vs)" using inv by (simp add: vote_inv_def)
  have new_ok: "tower_ok ?new"
    using process_next_vote_slot_vote_inv [OF inv s] by (simp add: vote_inv_def)
  obtain gone where g: "votes vs = ?p @ gone" "\<forall>v \<in> set gone. last_locked_out_slot v < s"
    using pop_expired_votes_split [of "votes vs" s] by blast
  note slots = slots_process_next [OF new, of e]
  have cs: "l_slot c < s" using last_voted_is_greatest [OF ok new c] .
  have sorted: "sorted_wrt (\<lambda>a b. l_slot a < l_slot b) (?p @ gone)"
    using ok unfolding tower_ok_def g(1) [symmetric] by blast
  show ?thesis
  proof (cases "c \<in> set gone")
    case True
    have lt: "\<forall>x \<in> l_slot ` set (kept s vs). x < l_slot c"
      using sorted True by (cases ?p) (auto simp: sorted_wrt_append split: if_splits)
    have "l_slot c \<notin> l_slot ` set ?new"
      unfolding slots using lt cs order.irrefl by blast
    then have "l_slot n \<noteq> l_slot c" if "n \<in> set ?new" for n using that by (metis imageI)
    moreover have "\<forall>x \<in> l_slot ` set ?new. l_slot c < x \<longrightarrow> x = s"
      unfolding slots using lt order.asym by blast
    then have "last_locked_out_slot c < l_slot n" if "n \<in> set ?new" "l_slot c < l_slot n" for n
      using bspec [OF g(2) True] that by (metis imageI)
    ultimately show ?thesis unfolding keeps_vote_def by blast
  next
    case False
    then have "c \<in> set (kept s vs)" using in_popped_cases [of c ?p gone 31] c root unfolding g(1) [symmetric] by blast
    then obtain n where n: "n \<in> set ?new" "l_slot n = l_slot c" "confirmation_count c \<le> confirmation_count n"
      using kept_confirmed [OF ok new] by blast
    have "confirmation_count c \<le> confirmation_count x" if "x \<in> set ?new" "l_slot x = l_slot c" for x
      using slot_inj [OF new_ok that(1) n(1)] that(2) n(2,3) by simp
    moreover have "l_slot c \<in> l_slot ` set ?new" using n(1,2) by (metis imageI)
    ultimately show ?thesis unfolding keeps_vote_def by blast
  qed
qed

lemma root_advances_step:
  assumes "vote_inv vs" "\<not> old_slot s vs"
  shows "root_advances (root_slot vs) (root_slot (process_next_vote_slot s e vs))"
proof (cases "roots s vs")
  case True
  let ?p = "pop_expired_votes s (votes vs)"
  have "hd ?p \<in> set (votes vs)" using True set_pop_subset [of s "votes vs"]
    by (metis hd_in_set length_0_conv subsetD zero_neq_numeral)
  then show ?thesis using assms True
    by (auto simp: vote_inv_def root_ok_def root_advances_def process_next_new split: option.splits
        intro: less_imp_le)
next
  case False
  then show ?thesis using assms(2) by (auto simp: process_next_new root_advances_def split: option.splits)
qed

section \<open>Properties of voting\<close>

text \<open>A vote state two votes deep, on which the properties are evaluated.\<close>

definition example_state :: vote_state where
  "example_state = vote_state_default
     \<lparr>votes := [\<lparr>l_slot = 5, confirmation_count = 3\<rparr>, \<lparr>l_slot = 6, confirmation_count = 1\<rparr>],
      root_slot := Some 2, epoch_credits := [(0, 7, 0)]\<rparr>"

lemmas example_simps = example_state_def vote_state_default_def vote_inv_def tower_ok_def root_ok_def
  slot_bounded_def last_locked_out_slot_def lockout_of_def INITIAL_LOCKOUT_def MAX_LOCKOUT_HISTORY_def
  last_voted_slot_def last_lockout_def next_back_def

lemma example_inv: "vote_inv example_state"
  by (simp add: example_simps)

text \<open>C1: Voting for one slot keeps the tower well formed: at most 31 votes, slots strictly
  increasing, confirmation counts strictly decreasing within [1, 31], every vote inside the
  lockout of the vote before it, and the root below every vote.\<close>

theorem process_next_vote_slot_inv:
  assumes "vote_inv vs" "slot_bounded s"
  shows "vote_inv (process_next_vote_slot s e vs)"
  using assms by (rule process_next_vote_slot_vote_inv)

theorem process_next_vote_slot_inv_witness:
  "vote_inv (process_next_vote_slot 9 0 example_state)"
  by (rule process_next_vote_slot_inv [OF example_inv]) (simp add: slot_bounded_def)







text \<open>C5: A vote for a new slot earns one credit exactly when the tower holds 31 votes that are
  still locked out, and then the oldest of them becomes the root; otherwise neither the credits nor
  the root change. The credit history stays bounded by 64 entries, ordered by epoch and chained.\<close>

theorem process_next_vote_slot_credits:
  assumes "vote_inv vs" "credits_ok (epoch_credits vs)" "current_epoch vs \<le> e"
    and "\<forall>l. last_voted_slot vs = Some l \<longrightarrow> l < s"
  shows "(if length (votes vs) = 31 \<and> s \<le> last_locked_out_slot (last (votes vs))
       then credits (process_next_vote_slot s e vs) = credits vs + 1
          \<and> current_epoch (process_next_vote_slot s e vs) = e
          \<and> root_slot (process_next_vote_slot s e vs) = Some (l_slot (hd (votes vs)))
       else credits (process_next_vote_slot s e vs) = credits vs
          \<and> root_slot (process_next_vote_slot s e vs) = root_slot vs)
    \<and> credits_ok (epoch_credits (process_next_vote_slot s e vs))"
proof -
  have new: "\<not> old_slot s vs" using assms(4) by (auto split: option.splits)
  have len: "length (votes vs) \<le> 31" using assms(1) by (simp add: vote_inv_def tower_ok_alt)
  have ec: "epoch_credits (increment_credits e vs) = credited e (epoch_credits vs)"
    using assms(2) by (intro increment_credits_credited) (simp add: credits_ok_def)
  have ok: "credits_ok (credited e (epoch_credits vs))"
    using assms(2,3) by (intro credited_ok) (auto simp: current_epoch_def)
  have roots: "roots s vs \<longleftrightarrow> length (votes vs) = 31 \<and> s \<le> last_locked_out_slot (last (votes vs))"
    using pop_full_iff [OF len] .
  show ?thesis
  proof (cases "roots s vs")
    case True
    have c: "length (votes vs) = 31 \<and> s \<le> last_locked_out_slot (last (votes vs))" using roots True by blast
    have "pop_expired_votes s (votes vs) = votes vs" using pop_full [OF len True] .
    then show ?thesis unfolding if_P [OF c]
      using c ok credited_last [of e "epoch_credits vs"] process_next_new [OF new, of e]
      by (simp add: ec credits_def current_epoch_def)
  next
    case False
    then have c: "\<not> (length (votes vs) = 31 \<and> s \<le> last_locked_out_slot (last (votes vs)))" using roots by blast
    show ?thesis unfolding if_not_P [OF c]
      using False assms(2) process_next_new [OF new, of e] by (simp add: credits_def)
  qed
qed

theorem process_next_vote_slot_credits_witness:
  "root_slot (process_next_vote_slot 9 3 example_state) = Some 2
    \<and> credits (process_next_vote_slot 9 3 example_state) = 7"
  using process_next_vote_slot_credits [OF example_inv, of 3 9]
  by (simp add: example_simps credits_ok_def MAX_EPOCH_CREDITS_HISTORY_def current_epoch_def credits_def)

end
