(* ===== verification/Vote_Checks.thy ===== *)
theory Vote_Checks
  imports Vote_Tower "HOL-Library.Sublist"
begin

text \<open>
  What the checks of a vote against the slot hashes guarantee: \<open>contains_slot\<close>,
  \<open>check_slots_are_valid\<close>, \<open>process_vote_slots\<close> and
  \<open>check_update_vote_state_slots_are_valid\<close>.
\<close>

section \<open>Membership in the tower\<close>

lemma contains_slot_tower:
  assumes "tower_ok (votes vs)"
  shows "contains_slot vs s \<longleftrightarrow> s \<in> set (tower vs)"
proof -
  have "partitioned (\<lambda>i. cmp (l_slot (votes vs ! i)) s) (length (votes vs))"
    unfolding partitioned_def
  proof (intro allI impI)
    fix i j assume ij: "i \<le> j \<and> j < length (votes vs)"
    then have "l_slot (votes vs ! i) \<le> l_slot (votes vs ! j)"
      using assms by (cases "i = j") (auto simp: tower_ok_def sorted_wrt_iff_nth_less intro: less_imp_le)
    then show "rank (cmp (l_slot (votes vs ! i)) s) \<le> rank (cmp (l_slot (votes vs ! j)) s)"
      by (auto simp: cmp_def)
  qed
  note iff = binary_search_by_found_iff [OF this]
  have "contains_slot vs s \<longleftrightarrow> (\<exists>k. binary_search_by (\<lambda>l. cmp (l_slot l) s) (votes vs) = Inr k)"
    by (auto simp: contains_slot_def split: sum.splits)
  also have "\<dots> \<longleftrightarrow> s \<in> set (tower vs)"
    unfolding iff by (auto simp: tower_def cmp_def split: if_splits)
  finally show ?thesis .
qed

section \<open>A vote, slot by slot\<close>

abbreviation is_old :: "slot option \<Rightarrow> slot \<Rightarrow> bool" where
  "is_old lv s \<equiv> (case lv of None \<Rightarrow> False | Some l \<Rightarrow> s \<le> l)"

definition new_slots :: "slot option \<Rightarrow> slot list \<Rightarrow> slot list" where
  "new_slots lv ss = filter (\<lambda>s. \<not> is_old lv s) ss"

lemma drop_nth: "i < length xs \<Longrightarrow> drop i xs = xs ! i # drop (i + 1) xs"
  by (simp add: Cons_nth_drop_Suc)

lemma take_pred: "0 < j \<Longrightarrow> j \<le> length xs \<Longrightarrow> take j xs = take (j - 1) xs @ [xs ! (j - 1)]"
  by (cases j) (simp_all add: take_Suc_conv_app_nth)

lemma check_slots_loop_exit: "\<not> (i < length ss \<and> 0 < j) \<Longrightarrow> check_slots_loop ss sh lv i j = (i, j)"
  by (subst check_slots_loop.simps) (simp only: if_False)

lemma check_slots_loop_sound:
  assumes "check_slots_loop ss sh lv i j = (length ss, j')" "i \<le> length ss" "j \<le> length sh"
  shows "j' \<le> j \<and> subseq (new_slots lv (drop i ss)) (rev (map fst (drop j' (take j sh))))
    \<and> (if new_slots lv (drop i ss) = [] then j' = j
       else j' < j \<and> fst (sh ! j') = last (new_slots lv (drop i ss)))"
  using assms
proof (induction ss sh lv i j rule: check_slots_loop.induct)
  case (1 ss sh lv i j)
  note IH = "1.IH" and prems = "1.prems"
  show ?case
  proof (cases "i < length ss \<and> 0 < j")
    case False
    then show ?thesis using prems by (auto simp: check_slots_loop_exit new_slots_def)
  next
    case True
    note step = check_slots_loop.simps [of ss sh lv i j] and d = drop_nth [of i ss]
    have t: "take j sh = take (j - 1) sh @ [sh ! (j - 1)]" using True prems(3) by (simp add: take_pred)
    have rv: "rev (map fst (drop j' (take j sh))) = fst (sh ! (j - 1)) # rev (map fst (drop j' (take (j - 1) sh)))"
      if "j' \<le> j - 1" using that prems(3) True unfolding t by simp
    consider (old) "is_old lv (ss ! i)"
      | (skip) "\<not> is_old lv (ss ! i)" "ss ! i \<noteq> fst (sh ! (j - 1))"
      | (hit) "\<not> is_old lv (ss ! i)" "ss ! i = fst (sh ! (j - 1))" by blast
    then show ?thesis
    proof cases
      case old
      then show ?thesis using IH(1) [OF True] prems True d by (simp add: step new_slots_def)
    next
      case skip
      then have "check_slots_loop ss sh lv i (j - 1) = (length ss, j')" using prems True by (simp add: step)
      note ih = IH(2) [OF True skip this prems(2)]
      have ne: "new_slots lv (drop i ss) \<noteq> []" using skip d True by (simp add: new_slots_def)
      have "j - 1 \<le> length sh" using prems(3) by simp
      note ih = ih [OF this, unfolded if_not_P [OF ne]]
      then have "j' < j" "j' \<le> j - 1" by auto
      then show ?thesis using ih ne by (simp add: rv list_emb_Cons)
    next
      case hit
      then have "check_slots_loop ss sh lv (i + 1) (j - 1) = (length ss, j')" using prems True by (simp add: step)
      moreover have nn: "\<not> ss ! i \<noteq> fst (sh ! (j - 1))" using hit(2) by simp
      note ih = IH(3) [OF True hit(1) nn calculation]
      have ns: "new_slots lv (drop i ss) = fst (sh ! (j - 1)) # new_slots lv (drop (i + 1) ss)"
        using hit(1) d True unfolding hit(2) [symmetric] by (simp add: new_slots_def)
      have "i + 1 \<le> length ss" "j - 1 \<le> length sh" using True prems(3) by auto
      note ih = ih [OF this]
      then have j: "j' < j" "j' \<le> j - 1" using True by auto
      show ?thesis unfolding ns rv [OF j(2)] using ih j(1) by (auto split: if_splits)
    qed
  qed
qed

lemma check_slots_loop_complete:
  assumes "subseq (new_slots lv (drop i ss)) (rev (map fst (take j sh)))" "i \<le> length ss" "j \<le> length sh"
    and "i < length ss \<longrightarrow> \<not> is_old lv (last ss)"
  shows "\<exists>j'. check_slots_loop ss sh lv i j = (length ss, j')"
  using assms
proof (induction ss sh lv i j rule: check_slots_loop.induct)
  case (1 ss sh lv i j)
  note IH = "1.IH" and prems = "1.prems"
  show ?case
  proof (cases "i < length ss \<and> 0 < j")
    case False
    have "i = length ss"
    proof (rule ccontr)
      assume "i \<noteq> length ss"
      then have "i < length ss" "j = 0" using False prems(2) by auto
      moreover from this have "last ss \<in> set (drop i ss)" by (metis last_drop last_in_set length_drop
            length_greater_0_conv zero_less_diff)
      ultimately show False using prems(1,4) by (auto simp: new_slots_def filter_empty_conv dest!: list_emb_Nil2)
    qed
    then show ?thesis using False by (simp add: check_slots_loop_exit)
  next
    case True
    note step = check_slots_loop.simps [of ss sh lv i j] and d = drop_nth [of i ss]
    have t: "rev (map fst (take j sh)) = fst (sh ! (j - 1)) # rev (map fst (take (j - 1) sh))"
      using True prems(3) by (simp add: take_pred)
    consider (old) "is_old lv (ss ! i)"
      | (skip) "\<not> is_old lv (ss ! i)" "ss ! i \<noteq> fst (sh ! (j - 1))"
      | (hit) "\<not> is_old lv (ss ! i)" "ss ! i = fst (sh ! (j - 1))" by blast
    then show ?thesis
    proof cases
      case old
      then show ?thesis using IH(1) [OF True] prems True d by (simp add: step new_slots_def)
    next
      case skip
      then have "subseq (new_slots lv (drop i ss)) (rev (map fst (take (j - 1) sh)))"
        using prems(1) d True by (simp add: t new_slots_def)
      then show ?thesis using IH(2) [OF True skip] prems True skip by (simp add: step)
    next
      case hit
      have "new_slots lv (drop i ss) = fst (sh ! (j - 1)) # new_slots lv (drop (i + 1) ss)"
        using hit(1) d True unfolding hit(2) [symmetric] by (simp add: new_slots_def)
      then have "subseq (new_slots lv (drop (i + 1) ss)) (rev (map fst (take (j - 1) sh)))"
        using prems(1) by (simp add: t)
      then show ?thesis using IH(3) [OF True hit(1)] prems True hit by (simp add: step)
    qed
  qed
qed

lemma check_slots_are_valid_sound:
  assumes "check_slots_are_valid vs ss h sh = Inr u"
  shows "new_slots (last_voted_slot vs) ss \<noteq> []"
    and "subseq (new_slots (last_voted_slot vs) ss) (rev (map fst sh))"
    and "(last (new_slots (last_voted_slot vs) ss), h) \<in> set sh"
proof -
  obtain i j where ij: "check_slots_loop ss sh (last_voted_slot vs) 0 (length sh) = (i, j)" by fastforce
  then have c: "j \<noteq> length sh" "i = length ss" "snd (sh ! j) = h"
    using assms by (auto simp: check_slots_are_valid_def fail_def split: if_splits)
  let ?new = "new_slots (last_voted_slot vs) ss"
  have s: "subseq ?new (rev (map fst (drop j sh)))"
    "if ?new = [] then j = length sh else j < length sh \<and> fst (sh ! j) = last ?new"
    using check_slots_loop_sound [OF ij [unfolded c(2)]] by simp_all
  show ne: "?new \<noteq> []" using s(2) c(1) by auto
  have "rev (map fst sh) = rev (map fst (drop j sh)) @ rev (map fst (take j sh))"
    by (metis append_take_drop_id map_append rev_append)
  then show "subseq ?new (rev (map fst sh))"
    using subseq_rev_drop_many [OF s(1)] by simp
  have "j < length sh" "sh ! j = (last ?new, h)"
    using s(2) ne c(3) by (auto simp: prod_eq_iff)
  then show "(last ?new, h) \<in> set sh" using nth_mem by metis
qed

lemma check_slots_are_valid_complete:
  assumes "subseq (new_slots (last_voted_slot vs) ss) (rev (map fst sh))" "(last ss, h) \<in> set sh"
    and "ss \<noteq> []" "\<not> is_old (last_voted_slot vs) (last ss)" "distinct (map fst sh)"
  shows "check_slots_are_valid vs ss h sh = Inr ()"
proof -
  let ?new = "new_slots (last_voted_slot vs) ss"
  obtain j where l: "check_slots_loop ss sh (last_voted_slot vs) 0 (length sh) = (length ss, j)"
    using check_slots_loop_complete [of "last_voted_slot vs" 0 ss "length sh" sh] assms(1,4) by auto
  have new: "?new \<noteq> []" "last ?new = last ss"
    using assms(3,4) append_butlast_last_id [OF assms(3)] unfolding new_slots_def
    by (metis (no_types, lifting) filter.simps(2) filter_append last_snoc snoc_eq_iff_butlast filter.simps(1))+
  then have j: "j < length sh" "fst (sh ! j) = last ss"
    using check_slots_loop_sound [OF l] by simp_all
  have "(last ss, snd (sh ! j)) \<in> set sh" using nth_mem [OF j(1)] j(2) by (metis prod.collapse)
  then have "snd (sh ! j) = h" by (rule eq_key_imp_eq_value [OF assms(5) _ assms(2)])
  then show ?thesis using l j by (simp add: check_slots_are_valid_def)
qed

lemma root_advances_refl: "root_advances r r"
  by (simp add: root_advances_def split: option.splits)

lemma root_advances_trans: "root_advances a b \<Longrightarrow> root_advances b c \<Longrightarrow> root_advances a c"
  by (auto simp: root_advances_def split: option.splits)

text \<open>Voting for the slots one after the other: old slots are ignored.\<close>

lemma last_voted_process_next:
  "\<not> old_slot s vs \<Longrightarrow> last_voted_slot (process_next_vote_slot s e vs) = Some s"
proof -
  assume new: "\<not> old_slot s vs"
  have "tower (process_next_vote_slot s e vs) \<noteq> []" "last (tower (process_next_vote_slot s e vs)) = s"
    using tower_process_next [OF new] by simp_all
  then show ?thesis
    by (simp add: tower_def last_voted_slot_def last_lockout_def next_back_def last_map)
qed

lemma new_slots_after:
  assumes "sorted_wrt (<) (s # new_slots lv ss)" "\<not> is_old lv s"
  shows "new_slots (Some s) ss = new_slots lv ss"
  unfolding new_slots_def
proof (rule filter_cong [OF refl])
  fix x assume x: "x \<in> set ss"
  show "(\<not> is_old (Some s) x) = (\<not> is_old lv x)"
  proof (cases "is_old lv x")
    case True
    then have "x \<le> s" using assms(2) by (auto split: option.splits)
    then show ?thesis using True by simp
  next
    case False
    then have "s < x" using assms(1) x by (simp add: new_slots_def)
    then show ?thesis using False by simp
  qed
qed

lemma fold_process_next:
  assumes "vote_inv vs" "sorted_wrt (<) (new_slots (last_voted_slot vs) ss)"
    and "\<forall>s \<in> set (new_slots (last_voted_slot vs) ss). slot_bounded s"
  shows "vote_inv (fold (\<lambda>s. process_next_vote_slot s e) ss vs)
    \<and> root_advances (root_slot vs) (root_slot (fold (\<lambda>s. process_next_vote_slot s e) ss vs))
    \<and> last_voted_slot (fold (\<lambda>s. process_next_vote_slot s e) ss vs) =
       (if new_slots (last_voted_slot vs) ss = [] then last_voted_slot vs
        else Some (last (new_slots (last_voted_slot vs) ss)))"
  using assms
proof (induction ss arbitrary: vs)
  case Nil
  then show ?case by (auto simp: new_slots_def root_advances_def split: option.splits)
next
  case (Cons s ss)
  show ?case
  proof (cases "old_slot s vs")
    case True
    then have "new_slots (last_voted_slot vs) (s # ss) = new_slots (last_voted_slot vs) ss"
      by (simp add: new_slots_def)
    then show ?thesis using Cons True by simp
  next
    case False
    let ?v = "process_next_vote_slot s e vs"
    have ns: "new_slots (last_voted_slot vs) (s # ss) = s # new_slots (last_voted_slot vs) ss"
      using False by (simp add: new_slots_def)
    note prems = Cons.prems [unfolded ns]
    have after: "new_slots (last_voted_slot ?v) ss = new_slots (last_voted_slot vs) ss"
      unfolding last_voted_process_next [OF False] using prems(2) False by (rule new_slots_after)
    have inv: "vote_inv ?v" using prems by (intro process_next_vote_slot_vote_inv) simp_all
    have ih: "vote_inv (fold (\<lambda>s. process_next_vote_slot s e) ss ?v)"
      "root_advances (root_slot ?v) (root_slot (fold (\<lambda>s. process_next_vote_slot s e) ss ?v))"
      "last_voted_slot (fold (\<lambda>s. process_next_vote_slot s e) ss ?v) =
       (if new_slots (last_voted_slot vs) ss = [] then Some s
        else Some (last (new_slots (last_voted_slot vs) ss)))"
      using Cons.IH [OF inv, unfolded after] prems last_voted_process_next [OF False] by auto
    show ?thesis
      using ih root_advances_trans [OF root_advances_step [OF prems(1) False] ih(2)] by (simp add: ns)
  qed
qed

section \<open>A proposed tower\<close>

lemma check_update_loop_exit:
  "\<not> (i < length ls \<and> 0 < j) \<Longrightarrow> check_update_loop vs ls sh e cr i j filt = Inr (i, j, filt)"
  by (subst check_update_loop.simps) (simp only: if_False)

text \<open>One round of the loop, by what it does: while the root is checked, and afterwards.\<close>

lemma check_update_loop_root:
  assumes "i < length ls" "0 < j" "j \<le> length sh" "e = fst (last sh)"
    and "e \<le> r \<or> root_slot vs = Some r"
  obtains (error) err where "check_update_loop vs ls sh e (Some r) i j filt = Inl (Err err)"
  | (root_old) "r < e" "root_slot vs = Some r"
      "check_update_loop vs ls sh e (Some r) i j filt = check_update_loop vs ls sh e None i j filt"
  | (root_hit) "r \<in> fst ` set sh"
      "check_update_loop vs ls sh e (Some r) i j filt = check_update_loop vs ls sh e None i j filt"
  | (newer) "check_update_loop vs ls sh e (Some r) i j filt = check_update_loop vs ls sh e (Some r) i (j - 1) filt"
proof -
  have l: "e = fst (sh ! (j - 1))" if "j = length sh" using that assms(2,4) by (simp add: last_conv_nth)
  have m: "fst (sh ! (j - 1)) \<in> fst ` set sh" using assms(2,3) by simp
  note step = check_update_loop.simps [of vs ls sh e "Some r" i j filt]
  consider "r < fst (sh ! (j - 1))" "j = length sh" | "r < fst (sh ! (j - 1))" "j \<noteq> length sh"
    | "r = fst (sh ! (j - 1))" | "fst (sh ! (j - 1)) < r" by (meson linorder_less_linear)
  then show thesis
  proof cases
    case 1
    then have r: "r < e" "root_slot vs = Some r" using l assms(5) by auto
    moreover have "check_update_loop vs ls sh e (Some r) i j filt = check_update_loop vs ls sh e None i j filt"
      using 1 r assms(1,2) by (subst step) (auto simp: cmp_def)
    ultimately show thesis by (rule root_old)
  next
    case 2
    then show thesis using assms(1,2) by (intro error [of RootOnDifferentFork]) (auto simp: step cmp_def fail_def)
  next
    case 3
    then have "check_update_loop vs ls sh e (Some r) i j filt = check_update_loop vs ls sh e None i j filt"
      using assms(1,2) by (subst step) (simp add: cmp_def)
    then show thesis using 3 m by (intro root_hit) simp_all
  next
    case 4
    then show thesis using assms(1,2) by (intro newer) (auto simp: step cmp_def)
  qed
qed

lemma check_update_loop_vote:
  assumes "i < length ls" "0 < j" "j \<le> length sh" "e = fst (last sh)"
  obtains (error) err where "check_update_loop vs ls sh e None i j filt = Inl (Err err)"
  | (older) "l_slot (ls ! i) < e" "0 < i \<longrightarrow> l_slot (ls ! (i - 1)) < l_slot (ls ! i)"
      "check_update_loop vs ls sh e None i j filt = check_update_loop vs ls sh e None (i + 1) j
         (if \<not> contains_slot vs (l_slot (ls ! i)) then filt @ [i] else filt)"
  | (newer) "check_update_loop vs ls sh e None i j filt = check_update_loop vs ls sh e None i (j - 1) filt"
  | (hit) "l_slot (ls ! i) = fst (sh ! (j - 1))" "0 < i \<longrightarrow> l_slot (ls ! (i - 1)) < l_slot (ls ! i)"
      "check_update_loop vs ls sh e None i j filt = check_update_loop vs ls sh e None (i + 1) (j - 1) filt"
proof -
  have l: "e = fst (sh ! (j - 1))" if "j = length sh" using that assms(2,4) by (simp add: last_conv_nth)
  let ?s = "l_slot (ls ! i)" and ?h = "fst (sh ! (j - 1))"
  show thesis
  proof (cases "0 < i \<and> ?s \<le> l_slot (ls ! (i - 1))")
    case True
    then have "check_update_loop vs ls sh e None i j filt = Inl (Err SlotsNotOrdered)"
      using assms(1,2) by (subst check_update_loop.simps) (simp add: fail_def)
    then show thesis by (rule error)
  next
    case False
    then have ord: "0 < i \<longrightarrow> l_slot (ls ! (i - 1)) < ?s" by auto
    have round: "check_update_loop vs ls sh e None i j filt =
        (case cmp ?s ?h of
           Less \<Rightarrow> if j = length sh then if \<not> ?s < e then Inl Panic
             else check_update_loop vs ls sh e None (i + 1) j
                (if \<not> contains_slot vs ?s then filt @ [i] else filt)
             else fail SlotsMismatch
         | Greater \<Rightarrow> check_update_loop vs ls sh e None i (j - 1) filt
         | Equal \<Rightarrow> check_update_loop vs ls sh e None (i + 1) (j - 1) filt)"
      using assms(1,2) False by (subst check_update_loop.simps) (simp only: Let_def simp_thms if_True if_False option.case)
    consider "?s < ?h" "j = length sh" | "?s < ?h" "j \<noteq> length sh" | "?s = ?h" | "?h < ?s"
      by (meson linorder_less_linear)
    then show thesis
    proof cases
      case 1
      then have "?s < e" using l by simp
      moreover from this have "check_update_loop vs ls sh e None i j filt = check_update_loop vs ls sh e None (i + 1) j
         (if \<not> contains_slot vs ?s then filt @ [i] else filt)"
        unfolding round using 1 by (simp only: cmp_def if_True simp_thms if_False ordering.case)
      ultimately show thesis using ord by (intro older)
    next
      case 2
      then have "cmp ?s ?h = Less" by (simp add: cmp_def)
      then have "check_update_loop vs ls sh e None i j filt = Inl (Err SlotsMismatch)"
        unfolding round using 2(2) by (simp add: fail_def)
      then show thesis by (rule error)
    next
      case 3
      then have "cmp ?s ?h = Equal" by (simp add: cmp_def)
      then have "check_update_loop vs ls sh e None i j filt = check_update_loop vs ls sh e None (i + 1) (j - 1) filt"
        unfolding round by (simp only: ordering.case)
      with 3 ord show thesis by (rule hit)
    next
      case 4
      then have "cmp ?s ?h = Greater" by (auto simp: cmp_def)
      then have "check_update_loop vs ls sh e None i j filt = check_update_loop vs ls sh e None i (j - 1) filt"
        unfolding round by (simp only: ordering.case)
      then show thesis by (rule newer)
    qed
  qed
qed

lemma check_update_loop_no_panic:
  assumes "j \<le> length sh" "e = fst (last sh)" "\<forall>r. cr = Some r \<longrightarrow> e \<le> r \<or> root_slot vs = Some r"
  shows "check_update_loop vs ls sh e cr i j filt \<noteq> Inl Panic"
  using assms
proof (induction "(length ls - i) + j + (case cr of None \<Rightarrow> 0 | Some _ \<Rightarrow> 1)" arbitrary: cr i j filt
    rule: less_induct)
  case less
  show ?case
  proof (cases "i < length ls \<and> 0 < j")
    case True
    then have ij: "i < length ls" "0 < j" by auto
    show ?thesis
    proof (cases cr)
      case None
      show ?thesis unfolding None
        using check_update_loop_vote [OF ij less.prems(1,2), of vs filt]
        by cases (use less ij None in auto)
    next
      case (Some r)
      then have "e \<le> r \<or> root_slot vs = Some r" using less.prems(3) by simp
      from check_update_loop_root [OF ij less.prems(1,2) this, of filt] show ?thesis unfolding Some
        by cases (use less ij Some in auto)
    qed
  next
    case False
    then show ?thesis by (simp add: check_update_loop_exit)
  qed
qed

text \<open>What a completed walk has established of the votes from position \<open>i\<close> on.\<close>

definition on_fork :: "vote_state \<Rightarrow> slot_hash list \<Rightarrow> slot \<Rightarrow> bool" where
  "on_fork vs sh s \<longleftrightarrow> s \<in> fst ` set sh \<or> (s < fst (last sh) \<and> contains_slot vs s)"

definition walked ::
  "vote_state \<Rightarrow> lockout list \<Rightarrow> slot_hash list \<Rightarrow> nat \<Rightarrow> nat list \<Rightarrow> bool" where
  "walked vs ls sh i ex \<longleftrightarrow>
     sorted_wrt (<) ex \<and> set ex \<subseteq> {i..<length ls}
   \<and> (\<forall>k \<in> set ex. l_slot (ls ! k) < fst (last sh) \<and> \<not> contains_slot vs (l_slot (ls ! k)))
   \<and> (\<forall>k. i \<le> k \<longrightarrow> k < length ls \<longrightarrow> k \<notin> set ex \<longrightarrow> on_fork vs sh (l_slot (ls ! k)))
   \<and> (\<forall>k. i \<le> k \<longrightarrow> k < length ls \<longrightarrow> 0 < k \<longrightarrow> l_slot (ls ! (k - 1)) < l_slot (ls ! k))"

lemma walked_end: "walked vs ls sh (length ls) []"
  by (simp add: walked_def)

lemma walked_step:
  assumes "walked vs ls sh (i + 1) ex" "i < length ls" "0 < i \<longrightarrow> l_slot (ls ! (i - 1)) < l_slot (ls ! i)"
  shows "on_fork vs sh (l_slot (ls ! i)) \<Longrightarrow> walked vs ls sh i ex"
    and "l_slot (ls ! i) < fst (last sh) \<Longrightarrow> \<not> contains_slot vs (l_slot (ls ! i)) \<Longrightarrow> walked vs ls sh i (i # ex)"
proof -
  have w: "sorted_wrt (<) ex" "set ex \<subseteq> {i + 1..<length ls}"
    "\<forall>k \<in> set ex. l_slot (ls ! k) < fst (last sh) \<and> \<not> contains_slot vs (l_slot (ls ! k))"
    using assms(1) by (auto simp: walked_def)
  have fork: "on_fork vs sh (l_slot (ls ! k))" if "i + 1 \<le> k" "k < length ls" "k \<notin> set ex" for k
    using assms(1) that by (auto simp: walked_def)
  have ord: "l_slot (ls ! (k - 1)) < l_slot (ls ! k)" if "i + 1 \<le> k" "k < length ls" "0 < k" for k
    using assms(1) that by (auto simp: walked_def)
  have next_k: "k = i \<or> i + 1 \<le> k" if "i \<le> k" for k using that by auto
  have ord': "\<forall>k. i \<le> k \<longrightarrow> k < length ls \<longrightarrow> 0 < k \<longrightarrow> l_slot (ls ! (k - 1)) < l_slot (ls ! k)"
    using next_k ord assms(3) by blast
  have sub: "set ex \<subseteq> {i..<length ls}" "\<forall>k \<in> set ex. i < k" using w(2) by auto
  show "walked vs ls sh i ex" if "on_fork vs sh (l_slot (ls ! i))"
  proof -
    have "on_fork vs sh (l_slot (ls ! k))" if "i \<le> k" "k < length ls" "k \<notin> set ex" for k
      using next_k [OF that(1)] fork [OF _ that(2,3)] \<open>on_fork vs sh (l_slot (ls ! i))\<close> by (elim disjE) auto
    then show ?thesis unfolding walked_def using w(1,3) sub(1) ord' by (intro conjI) simp_all
  qed
  show "walked vs ls sh i (i # ex)" if "l_slot (ls ! i) < fst (last sh)" "\<not> contains_slot vs (l_slot (ls ! i))"
  proof -
    have "on_fork vs sh (l_slot (ls ! k))" if "i \<le> k" "k < length ls" "k \<notin> set (i # ex)" for k
      using next_k [OF that(1)] fork [OF _ that(2)] that(3) by (elim disjE) auto
    then show ?thesis unfolding walked_def using w(1,3) sub ord' that assms(2) by (intro conjI) simp_all
  qed
qed

lemma check_update_loop_sound:
  assumes "check_update_loop vs ls sh e cr i j filt = Inr (length ls, j', filt')"
    and "i < length ls" "j \<le> length sh" "e = fst (last sh)" "e \<le> l_slot (last ls)"
    and "\<forall>r. cr = Some r \<longrightarrow> e \<le> r \<or> root_slot vs = Some r"
  shows "(\<exists>ex. filt' = filt @ ex \<and> walked vs ls sh i ex)
    \<and> j' < length sh \<and> fst (sh ! j') = l_slot (last ls)
    \<and> (\<forall>r. cr = Some r \<longrightarrow> r \<in> fst ` set sh \<or> root_slot vs = Some r)"
  using assms
proof (induction "(length ls - i) + j + (case cr of None \<Rightarrow> 0 | Some _ \<Rightarrow> 1)" arbitrary: cr i j filt
    rule: less_induct)
  case less
  note IH = less.hyps and prems = less.prems
  have j: "0 < j" using prems(1,2) by (cases "0 < j") (auto simp: check_update_loop_exit)
  show ?case
  proof (cases cr)
    case (Some r)
    then have r: "e \<le> r \<or> root_slot vs = Some r" using prems(6) by simp
    show ?thesis
    proof (cases rule: check_update_loop_root [OF prems(2) j prems(3,4) r, of filt])
      case 2
      then show ?thesis using IH [of i j None filt] prems Some j by auto
    next
      case 3
      then show ?thesis using IH [of i j None filt] prems Some j by auto
    next
      case 4
      then show ?thesis using IH [of i "j - 1" cr filt] prems Some j by simp
    qed (use prems Some in simp)
  next
    case None
    have lst: "ls ! i = last ls" if "i + 1 = length ls" using that by (metis add_diff_cancel_right' last_conv_nth
          length_0_conv Zero_not_Suc Suc_eq_plus1)
    note more = walked_step [OF _ prems(2)]
    show ?thesis
    proof (cases rule: check_update_loop_vote [OF prems(2) j prems(3,4), of vs filt])
      case older: 2
      let ?f = "if \<not> contains_slot vs (l_slot (ls ! i)) then filt @ [i] else filt"
      have i: "i + 1 < length ls" using older(1) prems(2,4,5) lst by fastforce
      have m: "length ls - (i + 1) + j + (case None :: slot option of None \<Rightarrow> 0 | Some _ \<Rightarrow> 1) <
          length ls - i + j + (case cr of None \<Rightarrow> 0 | Some _ \<Rightarrow> 1)" using i None by simp
      obtain ex where ex: "filt' = ?f @ ex" "walked vs ls sh (i + 1) ex"
        and j': "j' < length sh" "fst (sh ! j') = l_slot (last ls)"
        using IH [OF m _ i prems(3-5), of ?f] prems(1) None older(3) by auto
      note w = more [OF ex(2) older(2)]
      have "\<exists>ex. filt' = filt @ ex \<and> walked vs ls sh i ex"
      proof (cases "contains_slot vs (l_slot (ls ! i))")
        case True
        then show ?thesis using w(1) ex older(1) prems(4) by (auto simp: on_fork_def)
      next
        case False
        then show ?thesis using w(2) ex older(1) prems(4) by auto
      qed
      then show ?thesis using j' None by simp
    next
      case newer: 3
      then show ?thesis using IH [of i "j - 1" None filt] prems None j by simp
    next
      case hit: 4
      have f: "on_fork vs sh (l_slot (ls ! i))" using hit(1) j prems(3) by (simp add: on_fork_def)
      show ?thesis
      proof (cases "i + 1 < length ls")
        case True
        have m: "length ls - (i + 1) + (j - 1) + (case None :: slot option of None \<Rightarrow> 0 | Some _ \<Rightarrow> 1) <
            length ls - i + j + (case cr of None \<Rightarrow> 0 | Some _ \<Rightarrow> 1)" using True None by simp
        have j1: "j - 1 \<le> length sh" using prems(3) by simp
        obtain ex where "filt' = filt @ ex" "walked vs ls sh (i + 1) ex"
          "j' < length sh" "fst (sh ! j') = l_slot (last ls)"
          using IH [OF m _ True j1 prems(4,5), of filt] prems(1) None hit(3) by auto
        then show ?thesis using more(1) [OF _ hit(2) f] None by auto
      next
        case False
        then have i: "i + 1 = length ls" using prems(2) by simp
        then have "filt' = filt" "j' = j - 1"
          using prems(1) None hit(3) check_update_loop_exit [of "i + 1" ls "j - 1"] by auto
        moreover have "walked vs ls sh i []" using more(1) [OF _ hit(2) f] i walked_end by simp
        ultimately show ?thesis using j prems(3) hit(1) lst [OF i] None by auto
      qed
    qed (use prems None in simp)
  qed
qed

text \<open>Dropping the listed positions.\<close>

lemma retain_unfiltered_nths:
  assumes "sorted_wrt (<) (drop f filt)" "\<forall>k \<in> set (drop f filt). i \<le> k" "f \<le> length filt"
  shows "retain_unfiltered filt i f xs = nths xs {k. i + k \<notin> set (drop f filt)}"
  using assms
proof (induction xs arbitrary: i f)
  case (Cons x xs)
  show ?case
  proof (cases "f = length filt")
    case True
    then show ?thesis using Cons.IH [of f "i + 1"] Cons.prems by (simp add: nths_Cons)
  next
    case False
    then have d: "drop f filt = filt ! f # drop (f + 1) filt" using Cons.prems(3) by (simp add: Cons_nth_drop_Suc)
    have rest: "sorted_wrt (<) (drop (f + 1) filt)" "\<forall>k \<in> set (drop (f + 1) filt). filt ! f < k"
      using Cons.prems(1) unfolding d by auto
    show ?thesis
    proof (cases "i = filt ! f")
      case True
      then have "\<forall>k \<in> set (drop (f + 1) filt). i + 1 \<le> k" using rest(2) by auto
      moreover have "i \<notin> set (drop (f + 1) filt)" using rest(2) True by auto
      ultimately show ?thesis using True False rest Cons.IH [of "f + 1" "i + 1"] Cons.prems(3) d
        by (simp add: nths_Cons)
    next
      case ne: False
      then have lt: "\<forall>k \<in> set (drop f filt). i + 1 \<le> k" using Cons.prems(2) rest(2) unfolding d by auto
      then have "i \<notin> set (drop f filt)" by auto
      then show ?thesis using ne False lt Cons.IH [of f "i + 1"] Cons.prems by (simp add: nths_Cons)
    qed
  qed
qed simp

lemma check_update_sound:
  assumes "check_update_vote_state_slots_are_valid vs u sh = Inr u'"
  obtains ex where "walked vs (lockouts u) sh 0 ex" "lockouts u \<noteq> []"
    "u' = u\<lparr>lockouts := nths (lockouts u) {k. k \<notin> set ex}, u_root := u_root u'\<rparr>"
    "(l_slot (last (lockouts u)), u_hash u) \<in> set sh" "fst (last sh) \<le> l_slot (last (lockouts u))"
    "\<not> is_old (last_voted_slot vs) (l_slot (last (lockouts u)))"
    "u_root u' = (case u_root u of None \<Rightarrow> None
       | Some r \<Rightarrow> if r < fst (last sh) then root_slot vs else Some r)"
    "\<forall>r. u_root u' = Some r \<longrightarrow> r \<in> fst ` set sh \<or> root_slot vs = Some r"
proof -
  let ?ls = "lockouts u" and ?e = "fst (last sh)"
  let ?u1 = "case u_root u of None \<Rightarrow> u | Some r \<Rightarrow> if r < ?e then u\<lparr>u_root := root_slot vs\<rparr> else u"
  have u1: "lockouts ?u1 = ?ls" "u_hash ?u1 = u_hash u"
    "?u1 = u\<lparr>u_root := (case u_root u of None \<Rightarrow> None | Some r \<Rightarrow> if r < ?e then root_slot vs else Some r)\<rparr>"
    by (auto split: option.splits)
  have guards: "?ls \<noteq> []" "\<not> is_old (last_voted_slot vs) (l_slot (last ?ls))" "sh \<noteq> []"
    "?e \<le> l_slot (last ?ls)"
    using assms by (auto simp: check_update_vote_state_slots_are_valid_def Let_def fail_def split: if_splits)
  from assms guards obtain i j filt
    where loop: "check_update_loop vs ?ls sh ?e (u_root ?u1) 0 (length sh) [] = Inr (i, j, filt)"
      and i: "i = length ?ls" and h: "snd (sh ! j) = u_hash u"
      and u': "u' = ?u1\<lparr>lockouts := retain_unfiltered filt 0 0 ?ls\<rparr>"
    unfolding check_update_vote_state_slots_are_valid_def Let_def u1(1,2)
    by (auto simp: res_elim split: if_splits)
  have root: "\<forall>r. u_root ?u1 = Some r \<longrightarrow> ?e \<le> r \<or> root_slot vs = Some r"
    by (auto split: option.splits)
  have "0 < length ?ls" using guards(1) by simp
  note s = check_update_loop_sound [OF loop [unfolded i] this le_refl refl guards(4) root]
  then obtain ex where ex: "filt = ex" "walked vs ?ls sh 0 ex" by auto
  have "retain_unfiltered filt 0 0 ?ls = nths ?ls {k. k \<notin> set ex}"
    using ex retain_unfiltered_nths [of 0 filt 0 ?ls] by (simp add: walked_def)
  then have u'': "u' = u\<lparr>lockouts := nths ?ls {k. k \<notin> set ex}, u_root := u_root u'\<rparr>" "u_root u' = u_root ?u1"
    unfolding u' by (auto split: option.splits)
  have "sh ! j = (l_slot (last ?ls), u_hash u)" "j < length sh" using s h by (auto simp: prod_eq_iff)
  then have "(l_slot (last ?ls), u_hash u) \<in> set sh" by (metis nth_mem)
  moreover have "u_root u' = (case u_root u of None \<Rightarrow> None | Some r \<Rightarrow> if r < ?e then root_slot vs else Some r)"
    unfolding u''(2) by (auto split: option.splits)
  ultimately show thesis using that [OF ex(2) guards(1) u''(1) _ guards(4,2)] s u''(2) by simp
qed

lemma check_update_no_panic: "check_update_vote_state_slots_are_valid vs u sh \<noteq> Inl Panic"
proof
  assume panic: "check_update_vote_state_slots_are_valid vs u sh = Inl Panic"
  let ?ls = "lockouts u" and ?e = "fst (last sh)"
  let ?u1 = "case u_root u of None \<Rightarrow> u | Some r \<Rightarrow> if r < ?e then u\<lparr>u_root := root_slot vs\<rparr> else u"
  have u1: "lockouts ?u1 = ?ls" by (auto split: option.splits)
  have guards: "?ls \<noteq> []" "?e \<le> l_slot (last ?ls)"
    using panic by (auto simp: check_update_vote_state_slots_are_valid_def Let_def fail_def split: if_splits)
  have root: "\<forall>r. u_root ?u1 = Some r \<longrightarrow> ?e \<le> r \<or> root_slot vs = Some r"
    by (auto split: option.splits)
  let ?loop = "check_update_loop vs ?ls sh ?e (u_root ?u1) 0 (length sh) []"
  have "?loop \<noteq> Inl Panic" using root by (intro check_update_loop_no_panic) auto
  moreover have "j < length sh \<and> fst (sh ! j) = l_slot (last ?ls)" if "?loop = Inr (length ?ls, j, filt)" for j filt
    using check_update_loop_sound [OF that _ le_refl refl guards(2) root] guards(1) by simp
  ultimately show False
    using panic unfolding check_update_vote_state_slots_are_valid_def Let_def u1
    by (auto simp: and_then_panic split: if_splits)
qed

lemma retained_last:
  assumes "walked vs ls sh 0 ex" "ls \<noteq> []" "fst (last sh) \<le> l_slot (last ls)"
  shows "nths ls {k. k \<notin> set ex} \<noteq> []" "last (nths ls {k. k \<notin> set ex}) = last ls"
proof -
  obtain xs x where x: "ls = xs @ [x]" using assms(2) by (cases ls rule: rev_cases) auto
  have "length xs \<notin> set ex"
    using assms(1,3) unfolding walked_def x by force
  then have "nths ls {k. k \<notin> set ex} = nths xs {k. k \<notin> set ex} @ [x]" by (simp add: x nths_append)
  then show "nths ls {k. k \<notin> set ex} \<noteq> []" "last (nths ls {k. k \<notin> set ex}) = last ls" by (simp_all add: x)
qed

lemma retained_slots:
  assumes "walked vs ls sh 0 ex"
  shows "\<forall>v \<in> set (nths ls {k. k \<notin> set ex}). v \<in> set ls \<and> on_fork vs sh (l_slot v)"
    and "\<forall>v \<in> set ls. v \<in> set (nths ls {k. k \<notin> set ex})
      \<or> (l_slot v < fst (last sh) \<and> \<not> contains_slot vs (l_slot v))"
  using assms by (auto simp: walked_def set_nths in_set_conv_nth)

section \<open>The vote transactions on a vote state\<close>

text \<open>
  What \<open>process_vote\<close> and \<open>process_vote_state_update\<close> do to the vote state between loading
  and storing it.
\<close>

definition max_slot :: "slot list \<Rightarrow> slot option" where
  "max_slot ss = (if ss = [] then None else Some (foldl max (hd ss) (tl ss)))"

definition vote_body ::
  "vote \<Rightarrow> slot_hash list \<Rightarrow> epoch \<Rightarrow> feature set \<Rightarrow> vote_state \<Rightarrow> (vote_error, vote_state) res" where
  "vote_body v sh e fs vs =
     and_then (process_vote_slots v sh e (Some fs) vs) (\<lambda>vs1.
       case v_timestamp v of
         None \<Rightarrow> Inr vs1
       | Some ts \<Rightarrow> and_then (ok_or (max_slot (v_slots v)) EmptySlots) (\<lambda>s. process_timestamp s ts vs1))"

definition vote_state_update_body ::
  "vote_state_update \<Rightarrow> slot_hash list \<Rightarrow> epoch \<Rightarrow> vote_state \<Rightarrow> (vote_error, vote_state) res" where
  "vote_state_update_body u sh e vs =
     and_then (check_update_vote_state_slots_are_valid vs u sh) (\<lambda>u'.
       process_new_vote_state (lockouts u') (u_root u') (u_timestamp u') e vs)"

fun apply_vote ::
  "feature set \<Rightarrow> vote_transaction \<times> slot_hash list \<times> epoch \<Rightarrow> vote_state \<Rightarrow> (vote_error, vote_state) res" where
  "apply_vote fs (VoteTx v, sh, e) vs = vote_body v sh e fs vs"
| "apply_vote fs (VoteStateUpdateTx u, sh, e) vs = vote_state_update_body u sh e vs"

text \<open>Slot hashes as the sysvar keeps them, newest first, with slots that do not wrap.\<close>

definition slot_hashes_ok :: "slot_hash list \<Rightarrow> bool" where
  "slot_hashes_ok sh \<longleftrightarrow> sorted_wrt (>) (map fst sh) \<and> (\<forall>x \<in> set sh. slot_bounded (fst x))"

lemma process_timestamp_Inr:
  "process_timestamp s ts vs = Inr vs' \<Longrightarrow> \<exists>t. vs' = vs\<lparr>last_timestamp := t\<rparr>"
  by (auto simp: process_timestamp_def Let_def fail_def split: if_splits)

lemma vote_inv_timestamp [simp]:
  "vote_inv (vs\<lparr>last_timestamp := t\<rparr>) = vote_inv vs" "last_voted_slot (vs\<lparr>last_timestamp := t\<rparr>) = last_voted_slot vs"
  by (simp_all add: vote_inv_def last_voted_slot_def last_lockout_def)

lemma subseq_set: "subseq xs ys \<Longrightarrow> set xs \<subseteq> set ys"
  by (auto dest: list_emb_set)

lemma subseq_sorted: "subseq xs ys \<Longrightarrow> sorted_wrt P ys \<Longrightarrow> sorted_wrt P xs"
  by (induction rule: list_emb.induct) (auto dest: subseq_set)

lemma process_vote_slots_props:
  assumes "process_vote_slots v sh e fs vs = Inr vs'" "vote_inv vs" "slot_hashes_ok sh"
  shows "vote_inv vs'" "root_advances (root_slot vs) (root_slot vs')"
    "\<exists>s. last_voted_slot vs' = Some s \<and> (s, v_hash v) \<in> set sh \<and> \<not> is_old (last_voted_slot vs) s"
proof -
  obtain ss where ck: "check_slots_are_valid vs ss (v_hash v) sh = Inr ()"
    and vs': "vs' = fold (\<lambda>s. process_next_vote_slot s e) ss vs"
    using assms(1) by (auto simp: process_vote_slots_def Let_def fail_def res_elim split: if_splits)
  let ?new = "new_slots (last_voted_slot vs) ss"
  note sound = check_slots_are_valid_sound [OF ck]
  have "sorted_wrt (<) (rev (map fst sh))" using assms(3) by (simp add: slot_hashes_ok_def sorted_wrt_rev)
  then have "sorted_wrt (<) ?new" by (rule subseq_sorted [OF sound(2)])
  moreover have "\<forall>s \<in> set ?new. slot_bounded s"
    using subseq_set [OF sound(2)] assms(3) by (auto simp: slot_hashes_ok_def)
  ultimately have f: "vote_inv vs'" "root_advances (root_slot vs) (root_slot vs')"
    "last_voted_slot vs' = Some (last ?new)"
    unfolding vs' using fold_process_next [OF assms(2), of ss e] sound(1) by simp_all
  show "vote_inv vs'" "root_advances (root_slot vs) (root_slot vs')" by fact+
  have "\<forall>s \<in> set ?new. \<not> is_old (last_voted_slot vs) s" by (simp add: new_slots_def)
  then have "\<not> is_old (last_voted_slot vs) (last ?new)" using last_in_set [OF sound(1)] by blast
  then show "\<exists>s. last_voted_slot vs' = Some s \<and> (s, v_hash v) \<in> set sh \<and> \<not> is_old (last_voted_slot vs) s"
    using f(3) sound(3) by blast
qed

lemma process_new_vote_state_timestamp:
  assumes "process_new_vote_state new root ts e vs = Inr vs'"
  shows "\<exists>vs0. process_new_vote_state new root None e vs = Inr vs0 \<and> votes vs' = votes vs0
    \<and> root_slot vs' = root_slot vs0"
  using assms
  by (cases ts) (auto simp: process_new_vote_state_def res_elim Let_def dest!: process_timestamp_Inr
      split del: if_split)

lemma process_new_vote_state_panic:
  "process_new_vote_state new root ts e vs = Inl Panic \<longleftrightarrow> new = []"
proof -
  have "compare_towers cur new i j \<noteq> Inl Panic" for cur i j
  proof (induction cur new i j rule: compare_towers.induct)
    case (1 cur new ci ni)
    then show ?case by (subst compare_towers.simps) (auto simp: Let_def split: ordering.splits)
  qed
  moreover have "check_new_votes root p new \<noteq> Inl Panic" for p
    by (induction new arbitrary: p) (auto split: option.splits)
  moreover have "check_new_root root r \<noteq> Inl Panic" for r
    by (auto simp: check_new_root_def split: option.splits)
  moreover have "process_timestamp s t v \<noteq> Inl Panic" for s t v
    by (simp add: process_timestamp_def Let_def)
  ultimately show ?thesis
    by (auto simp: process_new_vote_state_def and_then_panic Let_def split: option.splits)
qed

lemma process_new_vote_state_props:
  assumes "process_new_vote_state new root ts e vs = Inr vs'" "vote_inv vs" "\<forall>v \<in> set new. slot_bounded (l_slot v)"
  shows "vote_inv vs'" "root_advances (root_slot vs) (root_slot vs')" "votes vs' = new" "root_slot vs' = root"
proof -
  obtain vs0 where 0: "process_new_vote_state new root None e vs = Inr vs0" "votes vs' = votes vs0"
    "root_slot vs' = root_slot vs0"
    using process_new_vote_state_timestamp [OF assms(1)] by blast
  have "sorted_wrt (\<lambda>a b. l_slot a < l_slot b) (votes vs)" using assms(2) by (simp add: vote_inv_def tower_ok_def)
  from 0(1) [unfolded process_new_vote_state_Inr [OF this]]
  have a: "new \<noteq> []" "tower_ok new" "\<forall>v \<in> set new. above_root root v" "root_advances (root_slot vs) root"
    "votes vs0 = new" "root_slot vs0 = root" by auto
  then show "vote_inv vs'" "root_advances (root_slot vs) (root_slot vs')" "votes vs' = new" "root_slot vs' = root"
    using assms(3) by (auto simp: 0(2,3) vote_inv_def root_ok_def above_root_def split: option.splits)
qed

lemma vote_state_update_body_props:
  assumes "vote_state_update_body u sh e vs = Inr vs'" "vote_inv vs" "slot_hashes_ok sh"
  shows "vote_inv vs'" "root_advances (root_slot vs) (root_slot vs')"
    and "last_voted_slot vs' = Some (l_slot (last (lockouts u)))"
    and "(l_slot (last (lockouts u)), u_hash u) \<in> set sh"
    and "\<forall>v \<in> set (votes vs'). v \<in> set (lockouts u) \<and> on_fork vs sh (l_slot v)"
proof -
  obtain u' where u': "check_update_vote_state_slots_are_valid vs u sh = Inr u'"
    and new: "process_new_vote_state (lockouts u') (u_root u') (u_timestamp u') e vs = Inr vs'"
    using assms(1) by (auto simp: vote_state_update_body_def res_elim)
  from u' obtain ex where ex: "walked vs (lockouts u) sh 0 ex" "lockouts u \<noteq> []"
    "lockouts u' = nths (lockouts u) {k. k \<notin> set ex}" "fst (last sh) \<le> l_slot (last (lockouts u))"
    and h: "(l_slot (last (lockouts u)), u_hash u) \<in> set sh"
    by (rule check_update_sound) (metis vote_state_update.select_convs(1) vote_state_update.surjective
        vote_state_update.update_convs(1,2))
  note kept = retained_slots(1) [OF ex(1)] retained_last [OF ex(1,2,4)]
  have fork: "slot_bounded s" if "on_fork vs sh s" for s
    using that assms(2,3) contains_slot_tower [of vs s]
    by (auto simp: on_fork_def slot_hashes_ok_def vote_inv_def tower_def)
  then have "\<forall>v \<in> set (lockouts u'). slot_bounded (l_slot v)" using kept(1) ex(3) by auto
  note p = process_new_vote_state_props [OF new assms(2) this]
  show "vote_inv vs'" "root_advances (root_slot vs) (root_slot vs')" using p by auto
  show "(l_slot (last (lockouts u)), u_hash u) \<in> set sh" by (rule h)
  show "last_voted_slot vs' = Some (l_slot (last (lockouts u)))"
    using p(3) kept(2,3) ex(3) by (simp add: last_voted_slot_def last_lockout_def next_back_def)
  show "\<forall>v \<in> set (votes vs'). v \<in> set (lockouts u) \<and> on_fork vs sh (l_slot v)"
    using p(3) kept(1) ex(3) by simp
qed

lemma vote_body_props:
  assumes "vote_body v sh e fs vs = Inr vs'" "vote_inv vs" "slot_hashes_ok sh"
  shows "vote_inv vs'" "root_advances (root_slot vs) (root_slot vs')"
    "\<exists>s. last_voted_slot vs' = Some s \<and> (s, v_hash v) \<in> set sh \<and> \<not> is_old (last_voted_slot vs) s"
proof -
  obtain vs1 where 1: "process_vote_slots v sh e (Some fs) vs = Inr vs1"
    and vs': "vs' = vs1 \<or> (\<exists>t. vs' = vs1\<lparr>last_timestamp := t\<rparr>)"
    using assms(1) by (auto simp: vote_body_def res_elim split: option.splits dest!: process_timestamp_Inr)
  note p = process_vote_slots_props [OF 1 assms(2,3)]
  show "vote_inv vs'" "root_advances (root_slot vs) (root_slot vs')"
    "\<exists>s. last_voted_slot vs' = Some s \<and> (s, v_hash v) \<in> set sh \<and> \<not> is_old (last_voted_slot vs) s"
    using p vs' by auto
qed

text \<open>A vote account as a machine that applies vote transactions.\<close>

definition valid_vote :: "vote_transaction \<times> slot_hash list \<times> epoch \<Rightarrow> bool" where
  "valid_vote = (\<lambda>(t, sh, e). slot_hashes_ok sh)"

lemma apply_vote_props:
  assumes "apply_vote fs i vs = Inr vs'" "vote_inv vs" "valid_vote i"
  shows "vote_inv vs'" "root_advances (root_slot vs) (root_slot vs')"
  using assms vote_body_props(1,2) vote_state_update_body_props(1,2)
  by (cases "(fs, i, vs)" rule: apply_vote.cases; auto simp: valid_vote_def; blast)+

interpretation voting: related_machine "apply_vote fs" valid_vote vote_inv
    "\<lambda>vs vs'. root_advances (root_slot vs) (root_slot vs')"
  for fs
  by unfold_locales (auto intro: apply_vote_props root_advances_refl root_advances_trans)

section \<open>Properties of the checks\<close>

definition example_hashes :: "slot_hash list" where
  "example_hashes = [(9, 1), (6, 2), (5, 3)]"

definition example_vote :: vote where
  "example_vote = \<lparr>v_slots = [6, 9], v_hash = 1, v_timestamp = None\<rparr>"

definition example_update :: vote_state_update where
  "example_update = \<lparr>lockouts = [\<lparr>l_slot = 3, confirmation_count = 4\<rparr>, \<lparr>l_slot = 5, confirmation_count = 3\<rparr>,
       \<lparr>l_slot = 6, confirmation_count = 2\<rparr>, \<lparr>l_slot = 9, confirmation_count = 1\<rparr>],
     u_root = Some 1, u_hash = 1, u_timestamp = None\<rparr>"

lemmas example_check_simps = example_simps example_hashes_def example_vote_def example_update_def
  slot_hashes_ok_def valid_vote_def new_slots_def



text \<open>C7: What an accepted proposal guarantees: the last slot is newer than the last vote and the
  bank has it with the hash carried; every vote kept is on this fork (its slot is among the slot
  hashes, or is older than all of them and in the present tower); a vote dropped is older than the
  history and not in the present tower; the last vote is kept; and the root is on this fork or is the
  present root.\<close>

theorem check_update_vote_state_slots_are_valid_sound:
  assumes "check_update_vote_state_slots_are_valid vs u sh = Inr u'" "vote_inv vs"
  shows "(\<forall>l. last_voted_slot vs = Some l \<longrightarrow> l < l_slot (last (lockouts u)))
    \<and> (l_slot (last (lockouts u)), u_hash u) \<in> set sh
    \<and> lockouts u' \<noteq> [] \<and> last (lockouts u') = last (lockouts u)
    \<and> (\<forall>v \<in> set (lockouts u'). v \<in> set (lockouts u)
         \<and> (l_slot v \<in> fst ` set sh \<or> l_slot v < fst (last sh) \<and> l_slot v \<in> set (tower vs)))
    \<and> (\<forall>v \<in> set (lockouts u). v \<notin> set (lockouts u') \<longrightarrow>
         l_slot v < fst (last sh) \<and> l_slot v \<notin> set (tower vs))
    \<and> (\<forall>r. u_root u' = Some r \<longrightarrow> r \<in> fst ` set sh \<or> root_slot vs = Some r)"
proof -
  have ok: "tower_ok (votes vs)" using assms(2) by (simp add: vote_inv_def)
  from assms(1) show ?thesis
  proof (rule check_update_sound)
    fix ex
    assume ex: "walked vs (lockouts u) sh 0 ex" "lockouts u \<noteq> []"
      and u': "u' = u\<lparr>lockouts := nths (lockouts u) {k. k \<notin> set ex}, u_root := u_root u'\<rparr>"
      and h: "(l_slot (last (lockouts u)), u_hash u) \<in> set sh" and e: "fst (last sh) \<le> l_slot (last (lockouts u))"
      and old: "\<not> is_old (last_voted_slot vs) (l_slot (last (lockouts u)))"
      and root: "\<forall>r. u_root u' = Some r \<longrightarrow> r \<in> fst ` set sh \<or> root_slot vs = Some r"
    have l: "lockouts u' = nths (lockouts u) {k. k \<notin> set ex}" by (subst u') simp
    show ?thesis
      using old h retained_last [OF ex e] retained_slots [OF ex(1)] root
      unfolding l on_fork_def contains_slot_tower [OF ok] by (auto split: option.splits)
  qed
qed

theorem check_update_vote_state_slots_are_valid_sound_witness:
  "lockouts (example_update\<lparr>lockouts := tl (lockouts example_update), u_root := Some 2\<rparr>) \<noteq> []
   \<and> (9, 1) \<in> set example_hashes"
proof -
  have "\<not> contains_slot example_state 3"
    using contains_slot_tower [OF example_inv [unfolded vote_inv_def, THEN conjunct1]]
    by (simp add: tower_def example_simps)
  then have "check_update_vote_state_slots_are_valid example_state example_update example_hashes =
      Inr (example_update\<lparr>lockouts := tl (lockouts example_update), u_root := Some 2\<rparr>)"
    by (simp add: check_update_vote_state_slots_are_valid_def check_update_loop.simps cmp_def example_check_simps)
  from check_update_vote_state_slots_are_valid_sound [OF this example_inv] show ?thesis
    by (simp add: example_update_def)
qed

text \<open>C8: A vote state update never makes the vote program panic: neither the assertions in the check
  of the slots nor the assertion that the remaining tower is not empty can fail.\<close>

theorem vote_state_update_no_panic:
  "vote_state_update_body u sh e vs \<noteq> Inl Panic"
proof
  assume "vote_state_update_body u sh e vs = Inl Panic"
  then obtain u' where u': "check_update_vote_state_slots_are_valid vs u sh = Inr u'"
    and panic: "process_new_vote_state (lockouts u') (u_root u') (u_timestamp u') e vs = Inl Panic"
    by (auto simp: vote_state_update_body_def and_then_panic check_update_no_panic)
  have "lockouts u' \<noteq> []" using u'
  proof (rule check_update_sound)
    fix ex
    assume ex: "walked vs (lockouts u) sh 0 ex" "lockouts u \<noteq> []" "fst (last sh) \<le> l_slot (last (lockouts u))"
      and u': "u' = u\<lparr>lockouts := nths (lockouts u) {k. k \<notin> set ex}, u_root := u_root u'\<rparr>"
    show "lockouts u' \<noteq> []" by (subst u') (simp add: retained_last [OF ex])
  qed
  then show False using panic process_new_vote_state_panic by blast
qed

text \<open>C9: Over any sequence of vote transactions the vote account accepts, slot by slot or by whole
  towers in any order, the tower stays well formed and the root never goes back.\<close>

theorem votes_keep_tower:
  assumes "run_steps (apply_vote fs) txs vs = Inr vs'" "vote_inv vs" "list_all valid_vote txs"
  shows "vote_inv vs' \<and> root_advances (root_slot vs) (root_slot vs')"
  using voting.run_inv [OF assms(2,3,1)] voting.run_rel [OF assms(2,3,1)] by simp

theorem votes_keep_tower_witness:
  "vote_inv (process_next_vote_slot 9 0 example_state)"
proof -
  have lv: "last_voted_slot example_state = Some 6" by (simp add: example_simps)
  have "check_slots_are_valid example_state [6, 9] 1 example_hashes = Inr ()"
    by (rule check_slots_are_valid_complete) (simp_all add: example_check_simps)
  then have "run_steps (apply_vote {}) [(VoteTx example_vote, example_hashes, 0)] example_state =
      Inr (process_next_vote_slot 9 0 example_state)"
    by (simp add: vote_body_def process_vote_slots_def is_active_def example_vote_def lv)
  from votes_keep_tower [OF this example_inv] show ?thesis
    by (simp add: valid_vote_def slot_hashes_ok_def example_hashes_def slot_bounded_def)
qed

text \<open>The search for a slot in the tower finds exactly the slots the tower holds.\<close>

theorem contains_slot_iff:
  assumes "vote_inv vs"
  shows "contains_slot vs s \<longleftrightarrow> s \<in> set (tower vs)"
  using assms by (intro contains_slot_tower) (simp add: vote_inv_def)

theorem contains_slot_iff_witness:
  "contains_slot example_state 6 \<and> \<not> contains_slot example_state 7"
  using contains_slot_iff [OF example_inv] by (simp add: tower_def example_state_def)

section \<open>Commission\<close>

lemma commission_parts:
  fixes x c :: nat
  assumes "c \<le> 100"
  shows "x * c div 100 + x * (100 - c) div 100 \<le> x" "x \<le> x * c div 100 + x * (100 - c) div 100 + 1"
proof -
  have s: "x * c + x * (100 - c) = 100 * x" using assms by (metis distrib_left le_add_diff_inverse mult.commute)
  have "100 * (x * c div 100) \<le> x * c" "100 * (x * (100 - c) div 100) \<le> x * (100 - c)" by simp_all
  then show "x * c div 100 + x * (100 - c) div 100 \<le> x" using s by linarith
  have "x * c < 100 * (x * c div 100) + 100" "x * (100 - c) < 100 * (x * (100 - c) div 100) + 100"
    by (simp_all add: mult_div_mod_eq [symmetric] dividend_less_times_div)
  then show "x \<le> x * c div 100 + x * (100 - c) div 100 + 1" using s by linarith
qed

lemma unat_percent:
  fixes x :: u8
  assumes "unat x \<le> 100"
  shows "unat (ucast (to_u128 on * ucast x div 100) :: u64) = unat on * unat x div 100"
proof -
  have x: "unat (ucast x :: u128) = unat x"
    by (simp add: unsigned_ucast_eq take_bit_nat_eq_self_iff) (use unsigned_less [of x, where ?'a = nat] in simp)
  have b: "unat on < 2 ^ 64" using unat_u64_less [of on] by simp
  have "unat on * unat x < 2 ^ 64 * 101" using b assms by (intro mult_strict_mono) auto
  then have p: "unat (to_u128 on * ucast x) = unat on * unat x"
    by (subst unat_mult_no_wrap) (simp_all add: x unat_to_u128)
  then have q: "unat (to_u128 on * ucast x div 100) = unat on * unat x div 100"
    by (simp add: unat_div)
  have "unat on * unat x div 100 \<le> unat on * 100 div 100" using assms by (intro div_le_mono mult_le_mono) auto
  then have "unat on * unat x div 100 \<le> unat on" by simp
  then have "unat on * unat x div 100 < 2 ^ 64" using b by (rule le_less_trans)
  then show ?thesis by (simp add: unsigned_ucast_eq take_bit_nat_eq_self_iff q)
qed

lemma commission_split_unat:
  "case commission_split vs on of (mine, theirs, was_split) \<Rightarrow>
     unat mine = unat on * min (unat (commission vs)) 100 div 100
   \<and> unat theirs = unat on * (100 - min (unat (commission vs)) 100) div 100
   \<and> (was_split \<longleftrightarrow> 0 < commission vs \<and> commission vs < 100)"
proof -
  let ?c = "min (commission vs) 100"
  have c: "unat ?c = min (unat (commission vs)) 100" by (simp add: min_def word_le_nat_alt)
  have c100: "unat ?c \<le> 100" by (simp add: c)
  have d: "unat (100 - ?c) = 100 - unat ?c"
    by (subst unat_sub_no_wrap) (simp_all add: word_le_nat_alt c)
  consider "?c = 0" | "?c = 100" | "?c \<noteq> 0" "?c \<noteq> 100" by blast
  then show ?thesis
  proof cases
    case 1
    then have "min (unat (commission vs)) 100 = 0" using c by simp
    then show ?thesis using 1 by (auto simp: commission_split_def min_def split: if_splits)
  next
    case 2
    then have "min (unat (commission vs)) 100 = 100" using c by simp
    then show ?thesis using 2 by (auto simp: commission_split_def min_def split: if_splits)
  next
    case 3
    have lt: "0 < commission vs \<and> commission vs < 100"
      using 3 by (auto simp: min_def not_le word_neq_0_conv split: if_splits)
    have d100: "unat (100 - ?c) \<le> 100" by (simp add: d)
    show ?thesis
      using 3 lt unat_percent [OF c100, of on] unat_percent [OF d100, of on, unfolded d] c
      by (simp add: commission_split_def Let_def)
  qed
qed

lemma commission_split_le:
  "commission_split vs on = (mine, theirs, was_split) \<Longrightarrow> unat mine + unat theirs \<le> unat on"
  using commission_split_unat [of on vs] commission_parts(1) [of "min (unat (commission vs)) 100" "unat on"]
  by simp

text \<open>C10: The commission splits a reward without creating lamports and loses at most one of them to
  rounding; commissions of 0 and of 100 percent or more give everything to one side.\<close>

theorem commission_split_sound:
  "case commission_split vs on of (mine, theirs, was_split) \<Rightarrow>
     unat mine + unat theirs \<le> unat on \<and> unat on \<le> unat mine + unat theirs + 1
   \<and> unat mine = unat on * min (unat (commission vs)) 100 div 100
   \<and> (was_split \<longleftrightarrow> 0 < commission vs \<and> commission vs < 100)"
proof -
  obtain m t b where s: "commission_split vs on = (m, t, b)" by (metis prod_cases3)
  show ?thesis
    using commission_split_unat [of on vs] commission_parts [of "min (unat (commission vs)) 100" "unat on"]
    by (simp add: s)
qed

end
