(* ===== verification/Vote_Program.thy ===== *)
theory Vote_Program
  imports Vote_Checks
begin

text \<open>
  The vote program: versions of the vote state (\<open>vote_state_versions.rs\<close>), the handlers of
  \<open>programs/vote/src/vote_state/mod.rs\<close> and the dispatch of
  \<open>programs/vote/src/vote_processor.rs\<close>. Each handler maps the account store to an error or to
  the store after it.
\<close>

section \<open>Versions of the vote state\<close>

record 'a circ_buf_0_23_5 =
  o_buf :: "'a list"
  o_idx :: nat

record vote_state_0_23_5 =
  o_node_pubkey :: pubkey
  o_authorized_voter :: pubkey
  o_authorized_voter_epoch :: epoch
  o_prior_voters :: "(pubkey \<times> epoch \<times> epoch \<times> slot) circ_buf_0_23_5"
  o_authorized_withdrawer :: pubkey
  o_commission :: u8
  o_votes :: "lockout list"
  o_root_slot :: "slot option"
  o_epoch_credits :: "epoch_credit list"
  o_last_timestamp :: block_timestamp

datatype vote_state_versions = V0_23_5 vote_state_0_23_5 | Current vote_state

definition new_current :: "vote_state \<Rightarrow> vote_state_versions" where
  "new_current vs = Current vs"

fun convert_to_current :: "vote_state_versions \<Rightarrow> vote_state" where
  "convert_to_current (V0_23_5 s) =
     \<lparr>node_pubkey = o_node_pubkey s,
      authorized_withdrawer = o_authorized_withdrawer s,
      commission = o_commission s,
      votes = o_votes s,
      root_slot = o_root_slot s,
      authorized_voters = av_new (o_authorized_voter_epoch s) (o_authorized_voter s),
      prior_voters = cb_default (0, 0, 0),
      epoch_credits = o_epoch_credits s,
      last_timestamp = o_last_timestamp s\<rparr>"
| "convert_to_current (Current s) = s"

fun is_uninitialized :: "vote_state_versions \<Rightarrow> bool" where
  "is_uninitialized (V0_23_5 s) = (o_authorized_voter s = 0)"
| "is_uninitialized (Current s) = av_is_empty (authorized_voters s)"

type_synonym 'b vote_codec = "(vote_state_versions, 'b) codec"

text \<open>The serialized size of the largest vote state; \<open>rnd\<close> are the keys it is filled with.\<close>

definition vote_size_of :: "'b vote_codec \<Rightarrow> (nat \<Rightarrow> pubkey) \<Rightarrow> nat" where
  "vote_size_of c rnd = length (encode c (new_current (get_max_sized_vote_state rnd)))"

definition get_rent_exempt_reserve :: "'b vote_codec \<Rightarrow> (nat \<Rightarrow> pubkey) \<Rightarrow> rent \<Rightarrow> u64" where
  "get_rent_exempt_reserve c rnd r = minimum_balance r (vote_size_of c rnd)"

definition vote_deserialize :: "'b vote_codec \<Rightarrow> 'b list \<Rightarrow> vote_state ires" where
  "vote_deserialize c input =
     and_then (ok_or (decode c input) InvalidAccountData) (\<lambda>v. Inr (convert_to_current v))"

definition vote_serialize :: "'b vote_codec \<Rightarrow> vote_state_versions \<Rightarrow> 'b list \<Rightarrow> 'b list ires" where
  "vote_serialize c v output =
     (if length output < length (encode c v) then fail AccountDataTooSmall
      else Inr (encode c v @ drop (length (encode c v)) output))"

definition vote_from :: "'b vote_codec \<Rightarrow> 'b account \<Rightarrow> vote_state option" where
  "vote_from c a = (case vote_deserialize c (data a) of Inl _ \<Rightarrow> None | Inr vs \<Rightarrow> Some vs)"

definition vote_to :: "'b vote_codec \<Rightarrow> vote_state_versions \<Rightarrow> 'b account \<Rightarrow> 'b account option" where
  "vote_to c v a = (case vote_serialize c v (data a) of Inl _ \<Rightarrow> None | Inr d \<Rightarrow> Some (a\<lparr>data := d\<rparr>))"

definition credits_from :: "'b vote_codec \<Rightarrow> 'b account \<Rightarrow> u64 option" where
  "credits_from c a = map_option credits (vote_from c a)"

section \<open>Authorized voters of a vote state\<close>

definition get_and_update_authorized_voter :: "epoch \<Rightarrow> vote_state \<Rightarrow> (pubkey \<times> vote_state) ires" where
  "get_and_update_authorized_voter cur vs =
     and_then (ok_or (get_and_cache_authorized_voter_for_epoch (authorized_voters vs) cur) InvalidAccountData)
       (\<lambda>(pk, m1). and_then (purge_authorized_voters m1 cur)
         (\<lambda>m2. Inr (pk, vs\<lparr>authorized_voters := m2\<rparr>)))"

definition set_new_authorized_voter ::
  "pubkey \<Rightarrow> epoch \<Rightarrow> epoch \<Rightarrow> (pubkey \<Rightarrow> unit ires) \<Rightarrow> vote_state \<Rightarrow> vote_state ires" where
  "set_new_authorized_voter authorized_pubkey cur target_epoch verify vs =
     and_then (get_and_update_authorized_voter cur vs) (\<lambda>(epoch_authorized_voter, vs1).
     and_then (verify epoch_authorized_voter) (\<lambda>_.
     if av_contains (authorized_voters vs1) target_epoch then fail (from_vote_error TooSoonToReauthorize)
     else
       and_then (ok_or (av_last (authorized_voters vs1)) InvalidAccountData)
         (\<lambda>(latest_epoch, latest_authorized_pubkey).
       and_then
         (if latest_authorized_pubkey \<noteq> authorized_pubkey then
            and_then (cb_last (prior_voters vs1)) (\<lambda>l.
              let epoch_of_last_authorized_switch = (case l of None \<Rightarrow> 0 | Some rng \<Rightarrow> snd (snd rng)) in
              and_then (assert_that (latest_epoch < target_epoch)) (\<lambda>_.
                Inr (vs1\<lparr>prior_voters := cb_append
                  (latest_authorized_pubkey, epoch_of_last_authorized_switch, target_epoch) (prior_voters vs1)\<rparr>)))
          else Inr vs1)
         (\<lambda>vs2. Inr (vs2\<lparr>authorized_voters := av_insert target_epoch authorized_pubkey (authorized_voters vs2)\<rparr>)))))"

section \<open>Handlers\<close>

definition verify_authorized_signer :: "pubkey \<Rightarrow> pubkey set \<Rightarrow> unit ires" where
  "verify_authorized_signer authorized signers = ensure (authorized \<in> signers) MissingRequiredSignature"

definition load_vote_state :: "'b vote_codec \<Rightarrow> keyed_account \<Rightarrow> 'b store \<Rightarrow> vote_state ires" where
  "load_vote_state c ka st =
     and_then (get_state c (acct st ka)) (\<lambda>v. Inr (convert_to_current v))"

definition store_vote_state :: "'b vote_codec \<Rightarrow> keyed_account \<Rightarrow> vote_state \<Rightarrow> 'b store \<Rightarrow> 'b store ires" where
  "store_vote_state c ka vs st = upd_account ka (set_state c (new_current vs)) st"

definition authorize ::
  "'b vote_codec \<Rightarrow> keyed_account \<Rightarrow> pubkey \<Rightarrow> vote_authorize \<Rightarrow> pubkey set \<Rightarrow> clock \<Rightarrow> feature set
    \<Rightarrow> 'b store \<Rightarrow> 'b store ires" where
  "authorize c vote_account authorized va signers clk fs st =
     and_then (load_vote_state c vote_account st) (\<lambda>vs.
     and_then (case va of
         Voter \<Rightarrow>
           let authorized_withdrawer_signer =
                 (if is_active fs Vote_withdraw_authority_may_change_authorized_voter
                  then is_ok (verify_authorized_signer (authorized_withdrawer vs) signers) else False)
           in set_new_authorized_voter authorized (clock_epoch clk) (leader_schedule_epoch clk + 1)
                (\<lambda>epoch_authorized_voter.
                   if authorized_withdrawer_signer then Inr ()
                   else verify_authorized_signer epoch_authorized_voter signers) vs
       | Withdrawer \<Rightarrow>
           and_then (verify_authorized_signer (authorized_withdrawer vs) signers)
             (\<lambda>_. Inr (vs\<lparr>authorized_withdrawer := authorized\<rparr>)))
     (\<lambda>vs'. store_vote_state c vote_account vs' st))"

definition update_validator_identity ::
  "'b vote_codec \<Rightarrow> keyed_account \<Rightarrow> pubkey \<Rightarrow> pubkey set \<Rightarrow> 'b store \<Rightarrow> 'b store ires" where
  "update_validator_identity c vote_account node signers st =
     and_then (load_vote_state c vote_account st) (\<lambda>vs.
     and_then (verify_authorized_signer (authorized_withdrawer vs) signers) (\<lambda>_.
     and_then (verify_authorized_signer node signers) (\<lambda>_.
     store_vote_state c vote_account (vs\<lparr>node_pubkey := node\<rparr>) st)))"

definition update_commission ::
  "'b vote_codec \<Rightarrow> keyed_account \<Rightarrow> u8 \<Rightarrow> pubkey set \<Rightarrow> 'b store \<Rightarrow> 'b store ires" where
  "update_commission c vote_account com signers st =
     and_then (load_vote_state c vote_account st) (\<lambda>vs.
     and_then (verify_authorized_signer (authorized_withdrawer vs) signers) (\<lambda>_.
     store_vote_state c vote_account (vs\<lparr>commission := com\<rparr>) st))"

definition withdraw ::
  "'b vote_codec \<Rightarrow> keyed_account \<Rightarrow> u64 \<Rightarrow> keyed_account \<Rightarrow> pubkey set \<Rightarrow> rent option \<Rightarrow> clock option
    \<Rightarrow> 'b store \<Rightarrow> 'b store ires" where
  "withdraw c vote_account l to_account signers rent_sysvar clk st =
     and_then (load_vote_state c vote_account st) (\<lambda>vs.
     and_then (verify_authorized_signer (authorized_withdrawer vs) signers) (\<lambda>_.
     and_then (ok_or (checked_sub_w (lamports (acct st vote_account)) l) InsufficientFunds) (\<lambda>remaining_balance.
     and_then
       (if remaining_balance = 0 then
          let reject_active_vote_account_close =
                (case (clk, next_back (epoch_credits vs)) of
                   (Some k, Some (last_epoch_with_credits, _, _)) \<Rightarrow>
                     saturating_sub_w (clock_epoch k) last_epoch_with_credits < 2
                 | _ \<Rightarrow> False)
          in if reject_active_vote_account_close then fail (from_vote_error VE_ActiveVoteAccountClose)
             else store_vote_state c vote_account vote_state_default st
        else case rent_sysvar of
          Some r \<Rightarrow>
            if remaining_balance < minimum_balance r (length (data (acct st vote_account)))
            then fail InsufficientFunds else Inr st
        | None \<Rightarrow> Inr st) (\<lambda>st1.
     and_then (upd_account vote_account (checked_sub_lamports l) st1) (\<lambda>st2.
     upd_account to_account (checked_add_lamports l) st2)))))"

definition initialize_account ::
  "'b vote_codec \<Rightarrow> (nat \<Rightarrow> pubkey) \<Rightarrow> keyed_account \<Rightarrow> vote_init \<Rightarrow> pubkey set \<Rightarrow> clock \<Rightarrow> 'b store \<Rightarrow> 'b store ires" where
  "initialize_account c rnd vote_account vi signers clk st =
     and_then (ensure (length (data (acct st vote_account)) = vote_size_of c rnd) InvalidAccountData) (\<lambda>_.
     and_then (get_state c (acct st vote_account)) (\<lambda>versioned.
     and_then (ensure (is_uninitialized versioned) AccountAlreadyInitialized) (\<lambda>_.
     and_then (verify_authorized_signer (i_node_pubkey vi) signers) (\<lambda>_.
     store_vote_state c vote_account (vote_state_new vi clk) st))))"

definition verify_and_get_vote_state ::
  "'b vote_codec \<Rightarrow> keyed_account \<Rightarrow> clock \<Rightarrow> pubkey set \<Rightarrow> 'b store \<Rightarrow> vote_state ires" where
  "verify_and_get_vote_state c vote_account clk signers st =
     and_then (get_state c (acct st vote_account)) (\<lambda>versioned.
     and_then (ensure (\<not> is_uninitialized versioned) UninitializedAccount) (\<lambda>_.
     and_then (get_and_update_authorized_voter (clock_epoch clk) (convert_to_current versioned))
       (\<lambda>(authorized_voter, vs).
     and_then (verify_authorized_signer authorized_voter signers) (\<lambda>_. Inr vs))))"

definition process_vote ::
  "'b vote_codec \<Rightarrow> keyed_account \<Rightarrow> slot_hash list \<Rightarrow> clock \<Rightarrow> vote \<Rightarrow> pubkey set \<Rightarrow> feature set
    \<Rightarrow> 'b store \<Rightarrow> 'b store ires" where
  "process_vote c vote_account sh clk v signers fs st =
     and_then (verify_and_get_vote_state c vote_account clk signers st) (\<lambda>vs.
     and_then (map_err from_vote_error (vote_body v sh (clock_epoch clk) fs vs)) (\<lambda>vs'.
     store_vote_state c vote_account vs' st))"

definition process_vote_state_update ::
  "'b vote_codec \<Rightarrow> keyed_account \<Rightarrow> slot_hash list \<Rightarrow> clock \<Rightarrow> vote_state_update \<Rightarrow> pubkey set
    \<Rightarrow> 'b store \<Rightarrow> 'b store ires" where
  "process_vote_state_update c vote_account sh clk u signers st =
     and_then (verify_and_get_vote_state c vote_account clk signers st) (\<lambda>vs.
     and_then (map_err from_vote_error (vote_state_update_body u sh (clock_epoch clk) vs)) (\<lambda>vs'.
     store_vote_state c vote_account vs' st))"

definition vote_create_account_with_authorized ::
  "('b::zero) vote_codec \<Rightarrow> (nat \<Rightarrow> pubkey) \<Rightarrow> pubkey \<Rightarrow> pubkey \<Rightarrow> pubkey \<Rightarrow> u8 \<Rightarrow> u64 \<Rightarrow> 'b account ires" where
  "vote_create_account_with_authorized c rnd node voter withdrawer com l =
     unwrap (vote_to c (new_current (vote_state_new
       \<lparr>i_node_pubkey = node, i_authorized_voter = voter, i_authorized_withdrawer = withdrawer,
        i_commission = com\<rparr> clock_default)) (account_new l (vote_size_of c rnd) vote_program_id))"

section \<open>Instructions\<close>

datatype vote_instruction =
    InitializeAccount vote_init
  | Authorize pubkey vote_authorize
  | VoteI vote
  | Withdraw u64
  | UpdateValidatorIdentity
  | UpdateCommission u8
  | VoteSwitch vote hash
  | AuthorizeChecked vote_authorize
  | UpdateVoteState vote_state_update
  | UpdateVoteStateSwitch vote_state_update hash
  | AuthorizeWithSeed vote_authorize pubkey string pubkey
  | AuthorizeCheckedWithSeed vote_authorize pubkey string

text \<open>What the program is given: the codec and the keys of the largest vote state, the hash used
  for derived addresses, and the invoke context with the accounts of the instruction.\<close>

record 'b vote_env =
  v_codec :: "'b vote_codec"
  v_rnd :: "nat \<Rightarrow> pubkey"
  v_hashv :: "pubkey \<Rightarrow> string \<Rightarrow> pubkey \<Rightarrow> hash"
  v_ctx :: invoke_context

definition verify_rent_exemption :: "keyed_account \<Rightarrow> rent \<Rightarrow> 'b store \<Rightarrow> unit ires" where
  "verify_rent_exemption ka r st =
     ensure (is_exempt r (lamports (acct st ka)) (length (data (acct st ka)))) InsufficientFunds"

definition process_authorize_with_seed_instruction ::
  "'b vote_env \<Rightarrow> keyed_account list \<Rightarrow> nat \<Rightarrow> keyed_account \<Rightarrow> pubkey \<Rightarrow> vote_authorize \<Rightarrow> pubkey \<Rightarrow> string
    \<Rightarrow> clock \<Rightarrow> 'b store \<Rightarrow> 'b store ires" where
  "process_authorize_with_seed_instruction env kas first vote_account new_authority va own seed clk st =
     and_then (keyed_account_at_index kas (first + 2)) (\<lambda>base_account.
     and_then (case signer_key base_account of
         Some base \<Rightarrow> and_then (create_with_seed (v_hashv env) base seed own) (\<lambda>k. Inr {k})
       | None \<Rightarrow> Inr {}) (\<lambda>expected_authority_keys.
     authorize (v_codec env) vote_account new_authority va expected_authority_keys clk (features (v_ctx env)) st))"

text \<open>\<open>ins\<close> is what \<open>limited_deserialize\<close> makes of the instruction data.\<close>

definition vote_process_instruction ::
  "'b vote_env \<Rightarrow> keyed_account list \<Rightarrow> nat \<Rightarrow> vote_instruction option \<Rightarrow> 'b store \<Rightarrow> 'b store ires" where
  "vote_process_instruction env kas first ins st =
     (let c = v_codec env; ctx = v_ctx env; fs = features ctx in
      and_then (keyed_account_at_index kas first) (\<lambda>me.
      and_then (ensure (owner (acct st me) = vote_program_id) InvalidAccountOwner) (\<lambda>_.
      let signers = get_signers (drop first kas);
          clock_at = (\<lambda>i. and_then (keyed_account_at_index kas (first + i)) (\<lambda>ka. sysvar_clock_checked ka ctx));
          vote_with = (\<lambda>v.
            and_then (and_then (keyed_account_at_index kas (first + 1)) (\<lambda>ka. sysvar_slot_hashes_checked ka ctx)) (\<lambda>sh.
            and_then (clock_at 2) (\<lambda>clk. process_vote c me sh clk v signers fs st)));
          update_with = (\<lambda>u.
            if is_active fs Allow_votes_to_directly_update_vote_state then
              and_then (get_slot_hashes (sysvars ctx)) (\<lambda>sh.
              and_then (get_clock (sysvars ctx)) (\<lambda>clk. process_vote_state_update c me sh clk u signers st))
            else fail InvalidInstructionData)
      in
      and_then (ok_or ins InvalidInstructionData) (\<lambda>i. case i of
        InitializeAccount vi \<Rightarrow>
          and_then (and_then (keyed_account_at_index kas (first + 1)) (\<lambda>ka. sysvar_rent_checked ka ctx)) (\<lambda>r.
          and_then (verify_rent_exemption me r st) (\<lambda>_.
          and_then (clock_at 2) (\<lambda>clk. initialize_account c (v_rnd env) me vi signers clk st)))
      | Authorize voter_pubkey va \<Rightarrow>
          and_then (clock_at 1) (\<lambda>clk. authorize c me voter_pubkey va signers clk fs st)
      | AuthorizeWithSeed va own seed new_authority \<Rightarrow>
          and_then (ensure (is_active fs Vote_authorize_with_seed) InvalidInstructionData) (\<lambda>_.
          and_then (clock_at 1) (\<lambda>clk.
            process_authorize_with_seed_instruction env kas first me new_authority va own seed clk st))
      | AuthorizeCheckedWithSeed va own seed \<Rightarrow>
          and_then (ensure (is_active fs Vote_authorize_with_seed) InvalidInstructionData) (\<lambda>_.
          and_then (and_then (keyed_account_at_index kas (first + 3))
              (\<lambda>ka. ok_or (signer_key ka) MissingRequiredSignature)) (\<lambda>new_authority.
          and_then (clock_at 1) (\<lambda>clk.
            process_authorize_with_seed_instruction env kas first me new_authority va own seed clk st)))
      | UpdateValidatorIdentity \<Rightarrow>
          and_then (keyed_account_at_index kas (first + 1)) (\<lambda>ka.
            update_validator_identity c me (unsigned_key ka) signers st)
      | UpdateCommission com \<Rightarrow> update_commission c me com signers st
      | VoteI v \<Rightarrow> vote_with v
      | VoteSwitch v _ \<Rightarrow> vote_with v
      | UpdateVoteState u \<Rightarrow> update_with u
      | UpdateVoteStateSwitch u _ \<Rightarrow> update_with u
      | Withdraw l \<Rightarrow>
          and_then (keyed_account_at_index kas (first + 1)) (\<lambda>to.
          and_then (if is_active fs Reject_non_rent_exempt_vote_withdraws
                    then and_then (get_rent (sysvars ctx)) (\<lambda>r. Inr (Some r)) else Inr None) (\<lambda>rent_sysvar.
          and_then (if is_active fs Reject_vote_account_close_unless_zero_credit_epoch
                    then and_then (get_clock (sysvars ctx)) (\<lambda>k. Inr (Some k)) else Inr None) (\<lambda>clk.
            withdraw c me l to signers rent_sysvar clk st)))
      | AuthorizeChecked va \<Rightarrow>
          if is_active fs Vote_stake_checked_instructions then
            and_then (and_then (keyed_account_at_index kas (first + 3))
                (\<lambda>ka. ok_or (signer_key ka) MissingRequiredSignature)) (\<lambda>voter_pubkey.
            and_then (clock_at 1) (\<lambda>clk. authorize c me voter_pubkey va signers clk fs st))
          else fail InvalidInstructionData))))"

section \<open>Conservation of lamports\<close>

lemma store_vote_state_total:
  "store_vote_state c ka vs st = Inr st' \<Longrightarrow> total_lamports st' = total_lamports st"
  by (simp add: store_vote_state_def set_state_total)

lemma store_vote_state_frame:
  assumes "store_vote_state c ka vs st = Inr st'"
  shows "lamports (st' k) = lamports (st k)" "owner (st' k) = owner (st k)"
    "length (data (st' k)) = length (data (st k))" "k \<noteq> key ka \<Longrightarrow> st' k = st k"
  using set_state_frame_store assms unfolding store_vote_state_def by metis+

lemmas handler_defs = authorize_def update_validator_identity_def update_commission_def
  initialize_account_def process_vote_def process_vote_state_update_def

lemma handler_total:
  "authorize c ka a va sg clk fs st = Inr st' \<Longrightarrow> total_lamports st' = total_lamports st"
  "update_validator_identity c ka n sg st = Inr st' \<Longrightarrow> total_lamports st' = total_lamports st"
  "update_commission c ka com sg st = Inr st' \<Longrightarrow> total_lamports st' = total_lamports st"
  "initialize_account c rnd ka vi sg clk st = Inr st' \<Longrightarrow> total_lamports st' = total_lamports st"
  "process_vote c ka sh clk v sg fs st = Inr st' \<Longrightarrow> total_lamports st' = total_lamports st"
  "process_vote_state_update c ka sh clk u sg st = Inr st' \<Longrightarrow> total_lamports st' = total_lamports st"
  by (auto simp: handler_defs res_elim dest!: store_vote_state_total)

lemma withdraw_steps:
  assumes "withdraw c ka l to sg r clk st = Inr st'"
  obtains st1 st2 where "st1 = st \<or> store_vote_state c ka vote_state_default st = Inr st1"
    "upd_account ka (checked_sub_lamports l) st1 = Inr st2" "upd_account to (checked_add_lamports l) st2 = Inr st'"
  using assms by (auto simp: withdraw_def res_elim Let_def split: if_splits option.splits)

lemma withdraw_total:
  assumes "withdraw c ka l to sg r clk st = Inr st'"
  shows "total_lamports st' = total_lamports st"
  using assms
proof (rule withdraw_steps)
  fix st1 st2
  assume 1: "st1 = st \<or> store_vote_state c ka vote_state_default st = Inr st1"
    and 2: "upd_account ka (checked_sub_lamports l) st1 = Inr st2" "upd_account to (checked_add_lamports l) st2 = Inr st'"
  from sub_add_total [OF 2] 1 show ?thesis by (auto dest: store_vote_state_total)
qed

text \<open>
  A successful instruction is one of seven effects on the vote account. The keys that stand for
  the signers of an authorization are the signers of the instruction, or the address derived from
  the base account when that account signed.
\<close>

definition seed_signers ::
  "'b vote_env \<Rightarrow> keyed_account list \<Rightarrow> nat \<Rightarrow> pubkey \<Rightarrow> string \<Rightarrow> pubkey set \<Rightarrow> bool" where
  "seed_signers env kas first own seed sg \<longleftrightarrow> first + 2 < length kas
     \<and> (case signer_key (kas ! (first + 2)) of
          None \<Rightarrow> sg = {}
        | Some base \<Rightarrow> \<exists>k. create_with_seed (v_hashv env) base seed own = Inr k \<and> sg = {k})"

lemma authorize_with_seed_Inr:
  assumes "process_authorize_with_seed_instruction env kas first me a va own seed clk st = Inr st'"
  obtains sg where "seed_signers env kas first own seed sg"
    "authorize (v_codec env) me a va sg clk (features (v_ctx env)) st = Inr st'"
  using assms that
  by (auto simp: process_authorize_with_seed_instruction_def seed_signers_def res_elim acct split: option.splits)

lemma vote_dispatch:
  assumes "vote_process_instruction env kas first ins st = Inr st'"
  obtains (initialize) vi clk where "ins = Some (InitializeAccount vi)" "first < length kas"
      "owner (acct st (kas ! first)) = vote_program_id"
      "initialize_account (v_codec env) (v_rnd env) (kas ! first) vi (get_signers (drop first kas)) clk st = Inr st'"
  | (authorize) a va sg clk where "first < length kas" "owner (acct st (kas ! first)) = vote_program_id"
      "sg = get_signers (drop first kas) \<or> (\<exists>own seed. seed_signers env kas first own seed sg)"
      "authorize (v_codec env) (kas ! first) a va sg clk (features (v_ctx env)) st = Inr st'"
  | (identity) n where "first < length kas" "owner (acct st (kas ! first)) = vote_program_id"
      "update_validator_identity (v_codec env) (kas ! first) n (get_signers (drop first kas)) st = Inr st'"
  | (commission) com where "first < length kas" "owner (acct st (kas ! first)) = vote_program_id"
      "update_commission (v_codec env) (kas ! first) com (get_signers (drop first kas)) st = Inr st'"
  | (vote) v sh clk where "first < length kas" "owner (acct st (kas ! first)) = vote_program_id"
      "sysvar_slot_hashes (sysvars (v_ctx env)) = Some sh" "sysvar_clock (sysvars (v_ctx env)) = Some clk"
      "process_vote (v_codec env) (kas ! first) sh clk v (get_signers (drop first kas)) (features (v_ctx env)) st = Inr st'"
  | (update) u sh clk where "first < length kas" "owner (acct st (kas ! first)) = vote_program_id"
      "sysvar_slot_hashes (sysvars (v_ctx env)) = Some sh" "sysvar_clock (sysvars (v_ctx env)) = Some clk"
      "process_vote_state_update (v_codec env) (kas ! first) sh clk u (get_signers (drop first kas)) st = Inr st'"
  | (withdraw) l r clk where "ins = Some (Withdraw l)" "first + 1 < length kas"
      "owner (acct st (kas ! first)) = vote_program_id"
      "withdraw (v_codec env) (kas ! first) l (kas ! (first + 1)) (get_signers (drop first kas)) r clk st = Inr st'"
proof -
  let ?me = "kas ! first" and ?fs = "features (v_ctx env)"
  obtain i where i: "ins = Some i" "first < length kas" "owner (acct st ?me) = vote_program_id"
    using assms by (auto simp: vote_process_instruction_def Let_def res_elim acct)
  note run = assms [unfolded vote_process_instruction_def Let_def i(1), simplified res_elim acct]
  show thesis
  proof (cases i)
    case (InitializeAccount vi)
    then show thesis using run i by (auto simp: res_elim intro: initialize)
  next
    case (Authorize a va)
    then show thesis using run i by (auto simp: res_elim intro: authorize)
  next
    case (AuthorizeChecked va)
    then show thesis using run i by (auto simp: res_elim intro: authorize split: if_splits)
  next
    case (AuthorizeWithSeed va own seed a)
    then obtain clk where "process_authorize_with_seed_instruction env kas first ?me a va own seed clk st = Inr st'"
      using run i by (auto simp: res_elim)
    then show thesis by (rule authorize_with_seed_Inr) (use i in \<open>auto intro: authorize\<close>)
  next
    case (AuthorizeCheckedWithSeed va own seed)
    then obtain a clk where "process_authorize_with_seed_instruction env kas first ?me a va own seed clk st = Inr st'"
      using run i by (auto simp: res_elim)
    then show thesis by (rule authorize_with_seed_Inr) (use i in \<open>auto intro: authorize\<close>)
  next
    case (VoteI v)
    then show thesis using run i
      by (auto simp: res_elim sysvar_slot_hashes_checked_def sysvar_clock_checked_def get_slot_hashes_def get_clock_def intro: vote)
  next
    case (VoteSwitch v h)
    then show thesis using run i
      by (auto simp: res_elim sysvar_slot_hashes_checked_def sysvar_clock_checked_def get_slot_hashes_def get_clock_def intro: vote)
  next
    case (UpdateVoteState u)
    then show thesis using run i
      by (auto simp: res_elim get_slot_hashes_def get_clock_def intro: update split: if_splits)
  next
    case (UpdateVoteStateSwitch u h)
    then show thesis using run i
      by (auto simp: res_elim get_slot_hashes_def get_clock_def intro: update split: if_splits)
  next
    case (Withdraw l)
    then show thesis using run i by (auto simp: res_elim acct intro: withdraw split: if_splits)
  next
    case UpdateValidatorIdentity
    then show thesis using run i by (auto simp: res_elim intro: identity)
  next
    case (UpdateCommission com)
    then show thesis using run i by (auto simp: res_elim intro: commission)
  qed
qed

lemma vote_process_instruction_total:
  assumes "vote_process_instruction env kas first ins st = Inr st'"
  shows "total_lamports st' = total_lamports st"
  using assms by (rule vote_dispatch) (auto dest: handler_total withdraw_total)

text \<open>The vote program as a machine: an instruction comes with its environment and accounts.\<close>

fun vote_step ::
  "'b vote_env \<times> keyed_account list \<times> nat \<times> vote_instruction option \<Rightarrow> 'b store \<Rightarrow> 'b store ires" where
  "vote_step (env, kas, first, ins) st = vote_process_instruction env kas first ins st"

interpretation vote_lamports: conserving_machine vote_step "\<lambda>_. True" total_lamports
  by unfold_locales (auto intro: vote_process_instruction_total elim: vote_step.elims)

section \<open>What authorizing a voter does\<close>

lemma get_and_update_Inr:
  assumes "get_and_update_authorized_voter cur vs = Inr (pk, vs1)" "btree_inv (authorized_voters vs)"
  shows "voter_at (authorized_voters vs) cur = Some pk"
    and "vs1 = vs\<lparr>authorized_voters := (cur, pk) # filter (\<lambda>(k, _). cur < k) (authorized_voters vs)\<rparr>"
proof -
  obtain m1 m2 where 1: "get_and_cache_authorized_voter_for_epoch (authorized_voters vs) cur = Some (pk, m1)"
    and 2: "(purge_authorized_voters m1 cur :: authorized_voters ires) = Inr m2" "vs1 = vs\<lparr>authorized_voters := m2\<rparr>"
    using assms(1) by (auto simp: get_and_update_authorized_voter_def res_elim)
  show "voter_at (authorized_voters vs) cur = Some pk" using get_and_cache_entries(2) [OF assms(2) 1] .
  show "vs1 = vs\<lparr>authorized_voters := (cur, pk) # filter (\<lambda>(k, _). cur < k) (authorized_voters vs)\<rparr>"
    using 2(2) 2(1) [unfolded cache_then_purge [OF assms(2) 1]] by simp
qed

lemma voter_at_insert:
  assumes "btree_inv m" "\<forall>x \<in> set m. fst x \<noteq> t"
  shows "voter_at (bt_insert t pk m) t = Some pk" "e < t \<Longrightarrow> voter_at (bt_insert t pk m) e = voter_at m e"
proof -
  have inv: "btree_inv (bt_insert t pk m)" by (rule btree_inv_insert [OF assms(1)])
  show "voter_at (bt_insert t pk m) t = Some pk"
    unfolding voter_at_Some [OF inv] by (intro exI [of _ t]) (auto simp: set_bt_insert [OF assms(1)])
  show "voter_at (bt_insert t pk m) e = voter_at m e" if "e < t"
  proof -
    have "filter (\<lambda>(k, _). k \<le> e) (bt_insert t pk m) = filter (\<lambda>(k, _). k \<le> e) m"
      using that by (induction m) (auto simp: case_prod_unfold split: if_splits)
    then show ?thesis by (simp add: voter_at_def)
  qed
qed

lemma set_new_authorized_voter_Inr:
  assumes "set_new_authorized_voter new cur target verify vs = Inr vs'" "btree_inv (authorized_voters vs)"
  shows "\<exists>pk. voter_at (authorized_voters vs) cur = Some pk \<and> verify pk = Inr ()"
    and "btree_inv (authorized_voters vs')"
    and "voter_at (authorized_voters vs') target = Some new"
    and "cur \<le> e \<Longrightarrow> e < target \<Longrightarrow> voter_at (authorized_voters vs') e = voter_at (authorized_voters vs) e"
    and "votes vs' = votes vs \<and> root_slot vs' = root_slot vs \<and> epoch_credits vs' = epoch_credits vs"
proof -
  obtain pk vs1 vs2 where 1: "get_and_update_authorized_voter cur vs = Inr (pk, vs1)" "verify pk = Inr ()"
    and c: "\<not> av_contains (authorized_voters vs1) target"
    and vs2: "vs2 = vs1 \<or> (\<exists>b. vs2 = vs1\<lparr>prior_voters := b\<rparr>)"
    and vs': "vs' = vs2\<lparr>authorized_voters := av_insert target new (authorized_voters vs2)\<rparr>"
    using assms(1) by (auto simp: set_new_authorized_voter_def res_elim Let_def fail_def split: if_splits)
  note u = get_and_update_Inr [OF 1(1) assms(2)]
  let ?m = "(cur, pk) # filter (\<lambda>(k, _). cur < k) (authorized_voters vs)"
  have m: "authorized_voters vs2 = ?m" using vs2 u(2) by auto
  have inv: "btree_inv ?m" by (auto simp: btree_inv_Cons btree_inv_filter assms(2))
  have "bt_get ?m target = None" using c u(2) by (simp add: av_contains_def)
  then have fresh: "\<forall>x \<in> set ?m. fst x \<noteq> target" unfolding bt_get_None by blast
  have m': "authorized_voters vs' = bt_insert target new ?m" using vs' m by (simp add: av_insert_def)
  show "\<exists>pk. voter_at (authorized_voters vs) cur = Some pk \<and> verify pk = Inr ()" using u(1) 1(2) by blast
  show "btree_inv (authorized_voters vs')" unfolding m' by (rule btree_inv_insert [OF inv])
  show "voter_at (authorized_voters vs') target = Some new" unfolding m' by (rule voter_at_insert(1) [OF inv fresh])
  show "voter_at (authorized_voters vs') e = voter_at (authorized_voters vs) e" if "cur \<le> e" "e < target"
    unfolding m' voter_at_insert(2) [OF inv fresh that(2)] by (rule voter_at_after [OF assms(2) u(1) that(1)])
  show "votes vs' = votes vs \<and> root_slot vs' = root_slot vs \<and> epoch_credits vs' = epoch_credits vs"
    using vs' vs2 u(2) by auto
qed

section \<open>Every vote account stays well formed\<close>

definition vote_state_ok :: "vote_state \<Rightarrow> bool" where
  "vote_state_ok vs \<longleftrightarrow> vote_inv vs \<and> btree_inv (authorized_voters vs)"

definition vote_store_ok :: "'b vote_codec \<Rightarrow> 'b store \<Rightarrow> bool" where
  "vote_store_ok c st \<longleftrightarrow> codec_ok c \<and> (\<forall>k v. owner (st k) = vote_program_id \<longrightarrow>
     decode c (data (st k)) = Some v \<longrightarrow> vote_state_ok (convert_to_current v))"

lemma vote_state_ok_default: "vote_state_ok vote_state_default"
  by (simp add: vote_state_ok_def vote_inv_def vote_state_default_def tower_ok_def root_ok_def)

lemma vote_state_ok_new: "vote_state_ok (vote_state_new vi clk)"
  by (simp add: vote_state_ok_def vote_inv_def vote_state_new_def vote_state_default_def tower_ok_def root_ok_def
      av_new_def btree_inv_def)

lemma vote_store_ok_load:
  "vote_store_ok c st \<Longrightarrow> owner (acct st ka) = vote_program_id \<Longrightarrow> get_state c (acct st ka) = Inr v
    \<Longrightarrow> vote_state_ok (convert_to_current v)"
  by (auto simp: vote_store_ok_def acct acct_def)

lemma vote_store_ok_store:
  assumes "vote_store_ok c st" "store_vote_state c ka vs st = Inr st'" "vote_state_ok vs"
  shows "vote_store_ok c st'"
  using assms
  by (auto simp: vote_store_ok_def store_vote_state_def new_current_def acct codec_ok_def)

lemma vote_store_ok_lamports:
  assumes "vote_store_ok c st"
  shows "upd_account ka (checked_sub_lamports l) st = Inr st' \<Longrightarrow> vote_store_ok c st'"
    and "upd_account ka (checked_add_lamports l) st = Inr st' \<Longrightarrow> vote_store_ok c st'"
  using assms by (auto simp: vote_store_ok_def acct acct_def)

lemma vote_state_ok_fields [simp]:
  "vote_state_ok (vs\<lparr>node_pubkey := n\<rparr>) = vote_state_ok vs"
  "vote_state_ok (vs\<lparr>commission := com\<rparr>) = vote_state_ok vs"
  "vote_state_ok (vs\<lparr>authorized_withdrawer := w\<rparr>) = vote_state_ok vs"
  by (simp_all add: vote_state_ok_def vote_inv_def)

lemma verify_and_get_vote_state_ok:
  assumes "verify_and_get_vote_state c ka clk sg st = Inr vs" "vote_store_ok c st"
    and "owner (acct st ka) = vote_program_id"
  shows "vote_state_ok vs"
proof -
  obtain v pk where v: "get_state c (acct st ka) = Inr v"
    and u: "get_and_update_authorized_voter (clock_epoch clk) (convert_to_current v) = Inr (pk, vs)"
    using assms(1) by (auto simp: verify_and_get_vote_state_def res_elim)
  have ok: "vote_state_ok (convert_to_current v)" by (rule vote_store_ok_load [OF assms(2,3) v])
  then have b: "btree_inv (authorized_voters (convert_to_current v))" by (simp add: vote_state_ok_def)
  show ?thesis using ok get_and_update_Inr(2) [OF u b]
    by (auto simp: vote_state_ok_def vote_inv_def btree_inv_Cons btree_inv_filter)
qed

lemma process_timestamp_authorized_voters:
  "process_timestamp s ts vs = Inr vs' \<Longrightarrow> authorized_voters vs' = authorized_voters vs"
  by (auto dest!: process_timestamp_Inr)

lemma process_vote_slots_authorized_voters:
  assumes "process_vote_slots v sh e fs vs = Inr vs'"
  shows "authorized_voters vs' = authorized_voters vs"
proof -
  have 1: "authorized_voters (process_next_vote_slot s e vs) = authorized_voters vs" for s e vs
    by (simp add: process_next_vote_slot_def Let_def)
  have 2: "authorized_voters (fold (\<lambda>s. process_next_vote_slot s e) ss vs) = authorized_voters vs" for ss e vs
    by (induction ss arbitrary: vs) (simp_all add: 1)
  obtain ss where "vs' = fold (\<lambda>s. process_next_vote_slot s e) ss vs"
    using assms by (auto simp: process_vote_slots_def Let_def fail_def res_elim split: if_splits)
  then show ?thesis by (simp add: 2)
qed

lemma body_authorized_voters:
  "vote_body v sh e fs vs = Inr vs' \<Longrightarrow> authorized_voters vs' = authorized_voters vs"
  "vote_state_update_body u sh e vs = Inr vs' \<Longrightarrow> authorized_voters vs' = authorized_voters vs"
proof -
  show "vote_body v sh e fs vs = Inr vs' \<Longrightarrow> authorized_voters vs' = authorized_voters vs"
    unfolding vote_body_def res_elim
    by (cases "v_timestamp v") (auto simp: res_elim dest!: process_vote_slots_authorized_voters
        process_timestamp_authorized_voters)
  have "process_new_vote_state new root ts e vs = Inr vs' \<Longrightarrow> authorized_voters vs' = authorized_voters vs" for new root ts
    unfolding process_new_vote_state_def res_elim Let_def
    by (cases ts) (auto dest!: process_timestamp_authorized_voters split: if_splits)
  then show "vote_state_update_body u sh e vs = Inr vs' \<Longrightarrow> authorized_voters vs' = authorized_voters vs"
    by (auto simp: vote_state_update_body_def res_elim)
qed

lemma vote_handlers_ok:
  assumes "vote_store_ok c st" "owner (acct st ka) = vote_program_id"
  shows "initialize_account c rnd ka vi sg clk st = Inr st' \<Longrightarrow> vote_store_ok c st'"
    and "authorize c ka a va sg clk fs st = Inr st' \<Longrightarrow> vote_store_ok c st'"
    and "update_validator_identity c ka n sg st = Inr st' \<Longrightarrow> vote_store_ok c st'"
    and "update_commission c ka com sg st = Inr st' \<Longrightarrow> vote_store_ok c st'"
    and "withdraw c ka l to sg r clko st = Inr st' \<Longrightarrow> vote_store_ok c st'"
proof -
  note put = vote_store_ok_store [OF assms(1)] and get = vote_store_ok_load [OF assms]
  show "initialize_account c rnd ka vi sg clk st = Inr st' \<Longrightarrow> vote_store_ok c st'"
    by (auto simp: initialize_account_def res_elim vote_state_ok_new intro: put)
  show "update_validator_identity c ka n sg st = Inr st' \<Longrightarrow> vote_store_ok c st'"
    by (auto simp: update_validator_identity_def load_vote_state_def res_elim get intro!: put)
  show "update_commission c ka com sg st = Inr st' \<Longrightarrow> vote_store_ok c st'"
    by (auto simp: update_commission_def load_vote_state_def res_elim get intro!: put)
  show "vote_store_ok c st'" if w: "withdraw c ka l to sg r clko st = Inr st'"
    using w
  proof (rule withdraw_steps)
    fix st1 st2
    assume 1: "st1 = st \<or> store_vote_state c ka vote_state_default st = Inr st1"
      and 2: "upd_account ka (checked_sub_lamports l) st1 = Inr st2" "upd_account to (checked_add_lamports l) st2 = Inr st'"
    have "vote_store_ok c st1" using 1 assms(1) put vote_state_ok_default by blast
    then show ?thesis using vote_store_ok_lamports 2 by blast
  qed
  show "authorize c ka a va sg clk fs st = Inr st' \<Longrightarrow> vote_store_ok c st'"
  proof (cases va)
    case Voter
    assume "authorize c ka a va sg clk fs st = Inr st'"
    then obtain v vs' verify where v: "get_state c (acct st ka) = Inr v" "store_vote_state c ka vs' st = Inr st'"
      and n: "set_new_authorized_voter a (clock_epoch clk) (leader_schedule_epoch clk + 1) verify (convert_to_current v) = Inr vs'"
      by (auto simp: authorize_def Voter load_vote_state_def res_elim Let_def)
    have ok: "vote_state_ok (convert_to_current v)" using v(1) by (rule get)
    then show ?thesis using set_new_authorized_voter_Inr(2,5) [OF n]
      by (intro put [OF v(2)]) (auto simp: vote_state_ok_def vote_inv_def)
  next
    case Withdrawer
    then show "authorize c ka a va sg clk fs st = Inr st' \<Longrightarrow> vote_store_ok c st'"
      by (auto simp: authorize_def load_vote_state_def res_elim get intro!: put)
  qed
qed

lemma vote_handlers_vote_ok:
  assumes "vote_store_ok c st" "owner (acct st ka) = vote_program_id" "slot_hashes_ok sh"
  shows "process_vote c ka sh clk v sg fs st = Inr st' \<Longrightarrow> vote_store_ok c st'"
    and "process_vote_state_update c ka sh clk u sg st = Inr st' \<Longrightarrow> vote_store_ok c st'"
proof -
  note get = verify_and_get_vote_state_ok [OF _ assms(1,2)]
  show "vote_store_ok c st'" if run: "process_vote c ka sh clk v sg fs st = Inr st'"
  proof -
    obtain vs vs' where vs: "verify_and_get_vote_state c ka clk sg st = Inr vs"
      "vote_body v sh (clock_epoch clk) fs vs = Inr vs'" "store_vote_state c ka vs' st = Inr st'"
      using run by (auto simp: process_vote_def res_elim)
    show ?thesis using get [OF vs(1)] vote_body_props(1) [OF vs(2)] body_authorized_voters(1) [OF vs(2)] assms(3)
      by (intro vote_store_ok_store [OF assms(1) vs(3)]) (simp add: vote_state_ok_def)
  qed
  show "vote_store_ok c st'" if run: "process_vote_state_update c ka sh clk u sg st = Inr st'"
  proof -
    obtain vs vs' where vs: "verify_and_get_vote_state c ka clk sg st = Inr vs"
      "vote_state_update_body u sh (clock_epoch clk) vs = Inr vs'" "store_vote_state c ka vs' st = Inr st'"
      using run by (auto simp: process_vote_state_update_def res_elim)
    show ?thesis using get [OF vs(1)] vote_state_update_body_props(1) [OF vs(2)] body_authorized_voters(2) [OF vs(2)] assms(3)
      by (intro vote_store_ok_store [OF assms(1) vs(3)]) (simp add: vote_state_ok_def)
  qed
qed

fun vote_input_ok ::
  "'b vote_codec \<Rightarrow> 'b vote_env \<times> keyed_account list \<times> nat \<times> vote_instruction option \<Rightarrow> bool" where
  "vote_input_ok c (env, kas, first, ins) \<longleftrightarrow> v_codec env = c
     \<and> (case sysvar_slot_hashes (sysvars (v_ctx env)) of None \<Rightarrow> True | Some sh \<Rightarrow> slot_hashes_ok sh)"

lemma vote_process_instruction_ok:
  assumes "vote_process_instruction env kas first ins st = Inr st'" "vote_store_ok (v_codec env) st"
    and "\<forall>sh. sysvar_slot_hashes (sysvars (v_ctx env)) = Some sh \<longrightarrow> slot_hashes_ok sh"
  shows "vote_store_ok (v_codec env) st'"
  using assms(1)
  by (rule vote_dispatch)
    (use assms(2,3) in \<open>auto dest: vote_handlers_ok [OF assms(2)] vote_handlers_vote_ok [OF assms(2)]\<close>)

interpretation vote_accounts: machine vote_step "vote_input_ok c" "vote_store_ok c" for c
  by unfold_locales
    (auto intro: vote_process_instruction_ok elim!: vote_input_ok.elims split: option.splits)

section \<open>Properties of the vote program\<close>

text \<open>A codec that stores the state in one cell, and a store with one vote account.\<close>

definition cell_codec :: "('s, 's) codec" where
  "cell_codec = \<lparr>encode = (\<lambda>s. [s]), decode = (\<lambda>d. case d of [] \<Rightarrow> None | x # _ \<Rightarrow> Some x)\<rparr>"

lemma cell_codec_ok: "codec_ok cell_codec"
  by (simp add: codec_ok_def cell_codec_def)

definition demo_vote_state :: vote_state where
  "demo_vote_state = example_state\<lparr>authorized_withdrawer := 7, authorized_voters := [(0, 8)]\<rparr>"

definition demo_store :: "vote_state_versions store" where
  "demo_store = (\<lambda>k. if k = 1 then \<lparr>lamports = 100, data = [Current demo_vote_state], owner = vote_program_id,
       executable = False, rent_epoch = 0\<rparr>
     else \<lparr>lamports = 5, data = [], owner = 0, executable = False, rent_epoch = 0\<rparr>)"

definition demo_accounts :: "keyed_account list" where
  "demo_accounts = [\<lparr>is_signer = False, is_writable = True, key = 1\<rparr>,
     \<lparr>is_signer = False, is_writable = True, key = 2\<rparr>, \<lparr>is_signer = True, is_writable = False, key = 7\<rparr>,
     \<lparr>is_signer = True, is_writable = False, key = 8\<rparr>]"

definition demo_env :: "vote_state_versions vote_env" where
  "demo_env = \<lparr>v_codec = cell_codec, v_rnd = (\<lambda>_. 0), v_hashv = (\<lambda>_ _ _. 0),
     v_ctx = \<lparr>sysvars = \<lparr>sysvar_clock = Some clock_default, sysvar_rent = Some rent_free,
         sysvar_slot_hashes = Some example_hashes, sysvar_recent_blockhashes = None,
         sysvar_stake_history = None\<rparr>,
       features = {Allow_votes_to_directly_update_vote_state}, ctx_blockhash = 0, ctx_lamports_per_signature = 0\<rparr>\<rparr>"

lemmas demo_simps = demo_vote_state_def demo_store_def demo_accounts_def demo_env_def cell_codec_def
  acct_def get_signers_def signer_key_def unsigned_key_def

lemma demo_store_ok: "vote_store_ok cell_codec demo_store"
proof -
  have "vote_inv demo_vote_state" by (simp add: demo_vote_state_def example_simps)
  then show ?thesis using cell_codec_ok
    by (auto simp: vote_store_ok_def demo_store_def cell_codec_def vote_state_ok_def
        demo_vote_state_def btree_inv_def vote_program_id_def split: if_splits)
qed

lemma demo_withdraw:
  "\<exists>st'. vote_process_instruction demo_env demo_accounts 0 (Some (Withdraw 40)) demo_store = Inr st'
     \<and> withdraw cell_codec (demo_accounts ! 0) 40 (demo_accounts ! 1) {7, 8} None None demo_store = Inr st'
     \<and> lamports (st' 1) = 60 \<and> lamports (st' 2) = 45"
  by (simp add: vote_process_instruction_def withdraw_def load_vote_state_def get_state_def
      keyed_account_at_index_def verify_authorized_signer_def upd_account_def checked_sub_w_def
      checked_sub_lamports_def checked_add_lamports_def checked_add_w_def is_active_def demo_simps
      List.map_filter_def Let_def)

text \<open>C12: Every sequence of vote instructions that succeeds conserves lamports: what leaves a vote
  account arrives in another account, and nothing else moves.\<close>

theorem vote_instructions_conserve:
  assumes "run_steps vote_step ins st = Inr st'"
  shows "total_lamports st' = total_lamports st"
  by (rule vote_lamports.run_total [OF TrueI assms])

theorem vote_instructions_conserve_witness:
  "\<exists>st'. run_steps vote_step [(demo_env, demo_accounts, 0, Some (Withdraw 40))] demo_store = Inr st'
    \<and> total_lamports st' = total_lamports demo_store"
proof -
  obtain st' where "run_steps vote_step [(demo_env, demo_accounts, 0, Some (Withdraw 40))] demo_store = Inr st'"
    using demo_withdraw by auto
  from vote_instructions_conserve [OF this] this show ?thesis by blast
qed

text \<open>C13: Every sequence of vote instructions keeps every vote account well formed: its tower, its
  root and its authorized voters.\<close>

theorem vote_accounts_stay_ok:
  assumes "run_steps vote_step ins st = Inr st'" "vote_store_ok c st" "list_all (vote_input_ok c) ins"
  shows "vote_store_ok c st'"
  by (rule vote_accounts.run_inv [OF assms(2,3,1)])

theorem vote_accounts_stay_ok_witness:
  "\<exists>st'. run_steps vote_step [(demo_env, demo_accounts, 0, Some (Withdraw 40))] demo_store = Inr st'
    \<and> vote_store_ok cell_codec st'"
proof -
  obtain st' where "run_steps vote_step [(demo_env, demo_accounts, 0, Some (Withdraw 40))] demo_store = Inr st'"
    using demo_withdraw by auto
  from vote_accounts_stay_ok [OF this demo_store_ok] this show ?thesis
    by (auto simp: demo_env_def slot_hashes_ok_def example_hashes_def slot_bounded_def)
qed



text \<open>C15: A vote instruction succeeds only with the signature of the voter authorized for the current
  epoch, and then the account's last vote is a slot newer than the one before, which the bank has with
  the hash the vote carries.\<close>

theorem vote_needs_authorized_voter:
  assumes "vote_process_instruction env kas first (Some (VoteI v)) st = Inr st'"
    and "vote_store_ok (v_codec env) st" "sysvar_slot_hashes (sysvars (v_ctx env)) = Some sh" "slot_hashes_ok sh"
    and "sysvar_clock (sysvars (v_ctx env)) = Some clk"
  shows "\<exists>vs vs' pk s. load_vote_state (v_codec env) (kas ! first) st = Inr vs
    \<and> load_vote_state (v_codec env) (kas ! first) st' = Inr vs'
    \<and> voter_at (authorized_voters vs) (clock_epoch clk) = Some pk \<and> pk \<in> get_signers (drop first kas)
    \<and> last_voted_slot vs' = Some s \<and> (s, v_hash v) \<in> set sh
    \<and> (\<forall>l. last_voted_slot vs = Some l \<longrightarrow> l < s)"
proof -
  let ?c = "v_codec env" and ?me = "kas ! first"
  have own: "owner (acct st ?me) = vote_program_id"
    and run: "process_vote ?c ?me sh clk v (get_signers (drop first kas)) (features (v_ctx env)) st = Inr st'"
    using assms(1,3,5) by (auto simp: vote_process_instruction_def Let_def res_elim acct sysvar_slot_hashes_checked_def
        sysvar_clock_checked_def get_slot_hashes_def get_clock_def)
  obtain ver pk vs1 vs' where g: "get_state ?c (acct st ?me) = Inr ver"
    and u: "get_and_update_authorized_voter (clock_epoch clk) (convert_to_current ver) = Inr (pk, vs1)"
    and pk: "pk \<in> get_signers (drop first kas)"
    and b: "vote_body v sh (clock_epoch clk) (features (v_ctx env)) vs1 = Inr vs'"
    and w: "store_vote_state ?c ?me vs' st = Inr st'"
    using run by (auto simp: process_vote_def verify_and_get_vote_state_def res_elim verify_authorized_signer_def)
  have ok: "vote_state_ok (convert_to_current ver)" by (rule vote_store_ok_load [OF assms(2) own g])
  then have "btree_inv (authorized_voters (convert_to_current ver))" by (simp add: vote_state_ok_def)
  note u' = get_and_update_Inr [OF u this]
  have inv1: "vote_inv vs1" using ok u'(2) by (simp add: vote_state_ok_def vote_inv_def)
  have lv: "last_voted_slot vs1 = last_voted_slot (convert_to_current ver)"
    using u'(2) by (simp add: last_voted_slot_def last_lockout_def)
  obtain s where s: "last_voted_slot vs' = Some s" "(s, v_hash v) \<in> set sh" "\<not> is_old (last_voted_slot vs1) s"
    using vote_body_props(3) [OF b inv1 assms(4)] by blast
  have "load_vote_state ?c ?me st' = Inr vs'"
    using w assms(2) by (auto simp: load_vote_state_def store_vote_state_def new_current_def acct acct_def
        res_elim vote_store_ok_def codec_ok_def get_state_def)
  moreover have "load_vote_state ?c ?me st = Inr (convert_to_current ver)"
    using g by (simp add: load_vote_state_def)
  ultimately show ?thesis using u'(1) pk s lv by (auto split: option.splits)
qed

definition demo_vote_accounts :: "keyed_account list" where
  "demo_vote_accounts = [\<lparr>is_signer = False, is_writable = True, key = 1\<rparr>,
     \<lparr>is_signer = False, is_writable = False, key = slot_hashes_id\<rparr>,
     \<lparr>is_signer = False, is_writable = False, key = clock_id\<rparr>, \<lparr>is_signer = True, is_writable = False, key = 8\<rparr>]"

lemma demo_update_voter:
  "get_and_update_authorized_voter 0 demo_vote_state = Inr (8, demo_vote_state)"
  by (simp add: get_and_update_authorized_voter_def get_and_cache_authorized_voter_for_epoch_def
      get_or_calculate_authorized_voter_for_epoch_def bt_get_def purge_authorized_voters_def bt_range_def
      demo_vote_state_def)

lemma demo_voters: "authorized_voters demo_vote_state = [(0, 8)]"
  by (simp add: demo_vote_state_def)

lemma demo_vote_body:
  "vote_body example_vote example_hashes 0 fs demo_vote_state = Inr (process_next_vote_slot 9 0 demo_vote_state)"
proof -
  have lv: "last_voted_slot demo_vote_state = Some 6"
    by (simp add: demo_vote_state_def example_simps)
  have "check_slots_are_valid demo_vote_state [6, 9] 1 example_hashes = Inr ()"
    by (rule check_slots_are_valid_complete) (simp_all add: lv example_hashes_def new_slots_def)
  then show ?thesis
    by (simp add: vote_body_def process_vote_slots_def is_active_def example_vote_def example_hashes_def lv)
qed

lemma demo_vote:
  "\<exists>st'. vote_process_instruction demo_env demo_vote_accounts 0 (Some (VoteI example_vote)) demo_store = Inr st'"
  by (simp add: vote_process_instruction_def demo_vote_accounts_def keyed_account_at_index_def
      sysvar_slot_hashes_checked_def sysvar_clock_checked_def check_sysvar_keyed_account_def unsigned_key_def
      demo_env_def get_slot_hashes_def get_clock_def process_vote_def verify_and_get_vote_state_def get_state_def
      demo_store_def acct_def cell_codec_def demo_update_voter demo_vote_body verify_authorized_signer_def
      get_signers_def signer_key_def List.map_filter_def store_vote_state_def upd_account_def set_state_def
      clock_default_def av_is_empty_def new_current_def demo_voters)

theorem vote_needs_authorized_voter_witness:
  "\<exists>st' vs'. vote_process_instruction demo_env demo_vote_accounts 0 (Some (VoteI example_vote)) demo_store = Inr st'
    \<and> load_vote_state cell_codec (demo_vote_accounts ! 0) st' = Inr vs'"
proof -
  obtain st' where r: "vote_process_instruction demo_env demo_vote_accounts 0 (Some (VoteI example_vote)) demo_store = Inr st'"
    using demo_vote by blast
  have e: "vote_store_ok (v_codec demo_env) demo_store"
    "sysvar_slot_hashes (sysvars (v_ctx demo_env)) = Some example_hashes" "slot_hashes_ok example_hashes"
    "sysvar_clock (sysvars (v_ctx demo_env)) = Some clock_default" and c: "v_codec demo_env = cell_codec"
    using demo_store_ok by (simp_all add: demo_env_def slot_hashes_ok_def example_hashes_def slot_bounded_def)
  from vote_needs_authorized_voter [OF r e] r show ?thesis by (auto simp: c)
qed

text \<open>C16: Authorizing a new voter takes effect in the epoch after the leader schedule's: from then the
  new key votes, and until then every epoch keeps the voter it had. It needs the signature of the
  current voter, or of the withdrawer where the feature allows it.\<close>

theorem authorize_voter_effect:
  assumes "authorize c ka a Voter sg clk fs st = Inr st'" "load_vote_state c ka st = Inr vs"
    and "vote_state_ok vs" "codec_ok c"
  shows "\<exists>vs' pk. load_vote_state c ka st' = Inr vs' \<and> vote_state_ok vs'
    \<and> voter_at (authorized_voters vs) (clock_epoch clk) = Some pk
    \<and> (pk \<in> sg \<or> authorized_withdrawer vs \<in> sg
         \<and> is_active fs Vote_withdraw_authority_may_change_authorized_voter)
    \<and> voter_at (authorized_voters vs') (leader_schedule_epoch clk + 1) = Some a
    \<and> (\<forall>e. clock_epoch clk \<le> e \<longrightarrow> e < leader_schedule_epoch clk + 1 \<longrightarrow>
         voter_at (authorized_voters vs') e = voter_at (authorized_voters vs) e)"
proof -
  let ?w = "is_active fs Vote_withdraw_authority_may_change_authorized_voter \<and> authorized_withdrawer vs \<in> sg"
  let ?verify = "\<lambda>pk. if ?w then Inr () else verify_authorized_signer pk sg"
  have w: "(if is_active fs Vote_withdraw_authority_may_change_authorized_voter
       then is_ok (verify_authorized_signer (authorized_withdrawer vs) sg) else False) = ?w"
    by (simp add: verify_authorized_signer_def is_ok_iff res_elim)
  obtain vs' where vs': "set_new_authorized_voter a (clock_epoch clk) (leader_schedule_epoch clk + 1) ?verify vs = Inr vs'"
    and s: "store_vote_state c ka vs' st = Inr st'"
    using assms(1,2) by (auto simp: authorize_def res_elim Let_def w)
  have b: "btree_inv (authorized_voters vs)" using assms(3) by (simp add: vote_state_ok_def)
  note n = set_new_authorized_voter_Inr [OF vs' b]
  obtain pk where pk: "voter_at (authorized_voters vs) (clock_epoch clk) = Some pk" "?verify pk = Inr ()"
    using n(1) by blast
  have "pk \<in> sg \<or> ?w" using pk(2) by (auto simp: verify_authorized_signer_def res_elim split: if_splits)
  moreover have "load_vote_state c ka st' = Inr vs'"
    using s assms(4) by (auto simp: load_vote_state_def store_vote_state_def new_current_def acct acct_def
        res_elim codec_ok_def get_state_def)
  moreover have "vote_state_ok vs'" using n(2,5) assms(3) by (simp add: vote_state_ok_def vote_inv_def)
  ultimately show ?thesis using pk(1) n(3,4) by blast
qed

lemma demo_load: "load_vote_state cell_codec (demo_accounts ! 0) demo_store = Inr demo_vote_state"
  by (simp add: load_vote_state_def get_state_def demo_accounts_def demo_store_def cell_codec_def acct_def)

theorem authorize_voter_effect_witness:
  "\<exists>st' vs'. authorize cell_codec (demo_accounts ! 0) 9 Voter {8} clock_default {} demo_store = Inr st'
    \<and> load_vote_state cell_codec (demo_accounts ! 0) st' = Inr vs' \<and> voter_at (authorized_voters vs') 1 = Some 9"
proof -
  have "\<exists>st'. authorize cell_codec (demo_accounts ! 0) 9 Voter {8} clock_default {} demo_store = Inr st'"
    by (simp add: authorize_def demo_load set_new_authorized_voter_def clock_default_def demo_update_voter is_active_def
        verify_authorized_signer_def av_contains_def bt_get_def av_last_def next_back_def demo_voters cb_last_def)
      (simp add: demo_vote_state_def example_simps cb_default_def store_vote_state_def upd_account_def set_state_def
        cell_codec_def demo_accounts_def demo_store_def acct_def)
  then obtain st' where r: "authorize cell_codec (demo_accounts ! 0) 9 Voter {8} clock_default {} demo_store = Inr st'"
    by blast
  have "vote_state_ok demo_vote_state"
    by (simp add: vote_state_ok_def demo_vote_state_def example_simps btree_inv_def)
  from authorize_voter_effect [OF r demo_load this cell_codec_ok] r show ?thesis
    by (auto simp: clock_default_def)
qed

text \<open>Initializing a vote account needs the node's signature and writes exactly the new state;
  an initialized account cannot be initialized again.\<close>

theorem initialize_account_once:
  assumes "initialize_account c rnd ka vi sg clk st = Inr st'" "codec_ok c"
  shows "i_node_pubkey vi \<in> sg \<and> load_vote_state c ka st' = Inr (vote_state_new vi clk)
    \<and> initialize_account c rnd ka vi' sg' clk' st' = Inl (Err AccountAlreadyInitialized)"
proof -
  have s: "store_vote_state c ka (vote_state_new vi clk) st = Inr st'" and sg: "i_node_pubkey vi \<in> sg"
    and len: "length (data (acct st ka)) = vote_size_of c rnd"
    using assms(1) by (auto simp: initialize_account_def res_elim verify_authorized_signer_def)
  have g: "get_state c (acct st' ka) = Inr (Current (vote_state_new vi clk))"
    using s assms(2) by (auto simp: store_vote_state_def new_current_def acct acct_def codec_ok_def)
  moreover have "length (data (acct st' ka)) = vote_size_of c rnd"
    using store_vote_state_frame(3) [OF s] len by (simp add: acct_def)
  moreover have "authorized_voters (vote_state_new vi clk) \<noteq> []"
    by (simp add: vote_state_new_def av_new_def)
  ultimately show ?thesis using sg by (simp add: initialize_account_def load_vote_state_def av_is_empty_def)
qed

theorem initialize_account_once_witness:
  "\<exists>st'. initialize_account cell_codec (\<lambda>_. 0) (demo_accounts ! 0)
       \<lparr>i_node_pubkey = 7, i_authorized_voter = 8, i_authorized_withdrawer = 9, i_commission = 0\<rparr> {7} clock_default
       (demo_store(1 := (demo_store 1)\<lparr>data := [Current vote_state_default]\<rparr>)) = Inr st'
     \<and> initialize_account cell_codec (\<lambda>_. 0) (demo_accounts ! 0)
       \<lparr>i_node_pubkey = 7, i_authorized_voter = 8, i_authorized_withdrawer = 9, i_commission = 0\<rparr> {7} clock_default
       st' = Inl (Err AccountAlreadyInitialized)"
proof -
  let ?vi = "\<lparr>i_node_pubkey = 7, i_authorized_voter = 8, i_authorized_withdrawer = 9, i_commission = 0\<rparr>"
  have "\<exists>st'. initialize_account cell_codec (\<lambda>_. 0) (demo_accounts ! 0) ?vi {7} clock_default
       (demo_store(1 := (demo_store 1)\<lparr>data := [Current vote_state_default]\<rparr>)) = Inr st'"
    by (simp add: initialize_account_def demo_accounts_def demo_store_def acct_def cell_codec_def vote_size_of_def
        get_state_def vote_state_default_def av_is_empty_def verify_authorized_signer_def store_vote_state_def
        upd_account_def set_state_def)
  then obtain st' where r: "initialize_account cell_codec (\<lambda>_. 0) (demo_accounts ! 0) ?vi {7} clock_default
       (demo_store(1 := (demo_store 1)\<lparr>data := [Current vote_state_default]\<rparr>)) = Inr st'" by blast
  from initialize_account_once [OF r cell_codec_ok] r show ?thesis by blast
qed



end
