(* ===== verification/Sysvar_Logs.thy ===== *)
theory Sysvar_Logs
  imports Accounts
begin

text \<open>
  The two sysvars that are logs of bounded length: the stake history
  (\<open>sdk/program/src/stake_history.rs\<close>) and the slot hashes
  (\<open>sdk/program/src/slot_hashes.rs\<close>). Both keep a vector of entries in decreasing key order,
  look up by binary search, and drop the oldest entries beyond \<open>MAX_ENTRIES\<close>. Their common
  contract is the locale \<open>bounded_log\<close>: whatever was added, a log holds its newest entries.
\<close>

section \<open>Stake history\<close>

definition STAKE_HISTORY_MAX_ENTRIES :: nat where
  "STAKE_HISTORY_MAX_ENTRIES = 512"

definition stake_history_entry_default :: stake_history_entry where
  "stake_history_entry_default = \<lparr>effective = 0, activating = 0, deactivating = 0\<rparr>"

definition with_effective :: "u64 \<Rightarrow> stake_history_entry" where
  "with_effective e = stake_history_entry_default\<lparr>effective := e\<rparr>"

definition with_effective_and_activating :: "u64 \<Rightarrow> u64 \<Rightarrow> stake_history_entry" where
  "with_effective_and_activating e a = stake_history_entry_default\<lparr>effective := e, activating := a\<rparr>"

definition with_deactivating :: "u64 \<Rightarrow> stake_history_entry" where
  "with_deactivating d = stake_history_entry_default\<lparr>effective := d, deactivating := d\<rparr>"

definition entry_add :: "stake_history_entry \<Rightarrow> stake_history_entry \<Rightarrow> stake_history_entry" where
  "entry_add x y =
     \<lparr>effective = saturating_add_w (effective x) (effective y),
      activating = saturating_add_w (activating x) (activating y),
      deactivating = saturating_add_w (deactivating x) (deactivating y)\<rparr>"

definition stake_history_get :: "stake_history \<Rightarrow> epoch \<Rightarrow> stake_history_entry option" where
  "stake_history_get h e =
     (case binary_search_by (\<lambda>probe. cmp e (fst probe)) h of
        Inr index \<Rightarrow> Some (snd (h ! index))
      | Inl _ \<Rightarrow> None)"

definition stake_history_add :: "epoch \<Rightarrow> stake_history_entry \<Rightarrow> stake_history \<Rightarrow> stake_history" where
  "stake_history_add e entry h =
     take STAKE_HISTORY_MAX_ENTRIES
       (case binary_search_by (\<lambda>probe. cmp e (fst probe)) h of
          Inr index \<Rightarrow> h[index := (e, entry)]
        | Inl index \<Rightarrow> take index h @ (e, entry) # drop index h)"

section \<open>Slot hashes\<close>

definition SLOT_HASHES_MAX_ENTRIES :: nat where
  "SLOT_HASHES_MAX_ENTRIES = 512"

definition get_entries :: nat where
  "get_entries = SLOT_HASHES_MAX_ENTRIES"

definition slot_hashes_add :: "slot \<Rightarrow> hash \<Rightarrow> slot_hash list \<Rightarrow> slot_hash list" where
  "slot_hashes_add sl h shs =
     take get_entries
       (case binary_search_by (\<lambda>(probe, _). cmp sl probe) shs of
          Inr index \<Rightarrow> shs[index := (sl, h)]
        | Inl index \<Rightarrow> take index shs @ (sl, h) # drop index shs)"

definition slot_hashes_position :: "slot_hash list \<Rightarrow> slot \<Rightarrow> nat option" where
  "slot_hashes_position shs sl =
     (case binary_search_by (\<lambda>(probe, _). cmp sl probe) shs of Inr index \<Rightarrow> Some index | Inl _ \<Rightarrow> None)"

definition slot_hashes_get :: "slot_hash list \<Rightarrow> slot \<Rightarrow> hash option" where
  "slot_hashes_get shs sl =
     (case binary_search_by (\<lambda>(probe, _). cmp sl probe) shs of
        Inr index \<Rightarrow> Some (snd (shs ! index))
      | Inl _ \<Rightarrow> None)"

text \<open>\<open>sort_by\<close> of the slice library is stable; the comparator \<open>b.cmp(a)\<close> puts large slots first.\<close>

definition slot_hashes_new :: "slot_hash list \<Rightarrow> slot_hash list" where
  "slot_hashes_new shs = sort_key (\<lambda>e. u64_MAX - fst e) shs"

section \<open>Newest entries\<close>

definition newest :: "nat \<Rightarrow> ('k::linorder \<rightharpoonup> 'v) \<Rightarrow> ('k \<rightharpoonup> 'v)" where
  "newest n m k = (if card {j \<in> dom m. k < j} < n then m k else None)"

lemma top_card:
  assumes "finite S" "n \<le> card S"
  shows "n \<le> card {j \<in> S. card {i \<in> S. (j::'k::linorder) < i} < n}" (is "n \<le> card ?T")
proof (rule ccontr)
  assume "\<not> n \<le> card ?T"
  then have less: "card ?T < n" by simp
  have "S - ?T \<noteq> {}"
  proof
    assume "S - ?T = {}"
    then have "S \<subseteq> ?T" by blast
    then have "card S \<le> card ?T" using assms(1) by (intro card_mono) auto
    with less assms(2) show False by simp
  qed
  define j where "j = Max (S - ?T)"
  have j: "j \<in> S - ?T"
    using \<open>S - ?T \<noteq> {}\<close> assms(1) unfolding j_def by (intro Max_in) auto
  have "{i \<in> S. j < i} \<subseteq> ?T"
  proof
    fix i assume i: "i \<in> {i \<in> S. j < i}"
    show "i \<in> ?T"
    proof (rule ccontr)
      assume "i \<notin> ?T"
      with i have "i \<le> j" unfolding j_def by (intro Max_ge) (use assms(1) in auto)
      with i show False by (simp add: not_less [symmetric])
    qed
  qed
  then have "card {i \<in> S. j < i} \<le> card ?T" using assms(1) by (intro card_mono) auto
  with less j show False by simp
qed

lemma finite_dom_upd: "finite (dom f) \<Longrightarrow> finite (dom (f(k \<mapsto> v)))"
  by simp

lemma newest_absorb:
  assumes "finite (dom m)"
  shows "newest n ((newest n m)(k \<mapsto> v)) = newest n (m(k \<mapsto> v))"
proof
  fix x
  let ?a = "{j \<in> dom ((newest n m)(k \<mapsto> v)). x < j}" and ?b = "{j \<in> dom (m(k \<mapsto> v)). x < j}"
  have fin: "finite ?b" using assms by simp
  have sub: "?a \<subseteq> ?b" by (auto simp: newest_def split: if_splits)
  have top: "{j \<in> ?b. card {i \<in> ?b. j < i} < n} \<subseteq> ?a"
  proof
    fix j assume j: "j \<in> {j \<in> ?b. card {i \<in> ?b. j < i} < n}"
    have "card {i \<in> dom m. j < i} \<le> card {i \<in> ?b. j < i}"
      by (rule card_mono [OF finite_subset [OF _ fin]]) (use j in auto)
    with j show "j \<in> ?a" by (auto simp: newest_def)
  qed
  show "newest n ((newest n m)(k \<mapsto> v)) x = newest n (m(k \<mapsto> v)) x"
  proof (cases "card ?b < n")
    case True
    have small: "card {i \<in> ?b. j < i} < n" for j
      using card_mono [OF fin, of "{i \<in> ?b. j < i}"] True by fastforce
    then have "?a = ?b" using sub top by blast
    moreover have "card {j \<in> dom m. x < j} \<le> card ?b" by (rule card_mono [OF fin]) auto
    then have "((newest n m)(k \<mapsto> v)) x = (m(k \<mapsto> v)) x" using True by (simp add: newest_def)
    ultimately show ?thesis using True by (simp add: newest_def)
  next
    case False
    then have "n \<le> card {j \<in> ?b. card {i \<in> ?b. j < i} < n}" using top_card [OF fin, of n] by simp
    also have "\<dots> \<le> card ?a" by (rule card_mono [OF finite_subset [OF sub fin] top])
    finally show ?thesis using False by (simp add: newest_def)
  qed
qed

lemma newest_card:
  assumes "finite (dom m)"
  shows "card (dom (newest n m)) \<le> n"
proof (cases "dom (newest n m) = {}")
  case False
  have fin: "finite (dom (newest n m))"
    by (rule finite_subset [OF _ assms]) (auto simp: newest_def split: if_splits)
  define k where "k = Min (dom (newest n m))"
  have k: "k \<in> dom (newest n m)" unfolding k_def by (rule Min_in [OF fin False])
  have "dom (newest n m) \<subseteq> insert k {j \<in> dom m. k < j}"
  proof
    fix j assume j: "j \<in> dom (newest n m)"
    then have "k \<le> j" unfolding k_def by (rule Min_le [OF fin])
    with j show "j \<in> insert k {j \<in> dom m. k < j}" by (auto simp: newest_def split: if_splits)
  qed
  then have "card (dom (newest n m)) \<le> Suc (card {j \<in> dom m. k < j})"
    using card_mono [of "insert k {j \<in> dom m. k < j}" "dom (newest n m)"] assms by simp
  with k show ?thesis by (auto simp: newest_def split: if_splits)
qed simp

section \<open>Logs in decreasing order\<close>

definition desc :: "('k::linorder \<times> 'v) list \<Rightarrow> bool" where
  "desc xs = sorted_wrt (>) (map fst xs)"

lemma desc_Nil [simp]: "desc []"
  by (simp add: desc_def)

lemma desc_Cons: "desc ((k, v) # xs) \<longleftrightarrow> (\<forall>j \<in> fst ` set xs. j < k) \<and> desc xs"
  by (auto simp: desc_def)

lemma desc_append: "desc (xs @ ys) \<longleftrightarrow>
    desc xs \<and> desc ys \<and> (\<forall>i \<in> fst ` set xs. \<forall>j \<in> fst ` set ys. j < i)"
  by (auto simp: desc_def sorted_wrt_append)

lemma desc_filter: "desc xs \<Longrightarrow> desc (filter P xs)"
  by (induction xs) (auto simp: desc_Cons)

lemma desc_take: "desc xs \<Longrightarrow> desc (take n xs)"
  by (simp add: desc_def take_map [symmetric] sorted_wrt_take)

lemma desc_partitioned:
  assumes "desc xs"
  shows "partitioned (\<lambda>i. cmp k (fst (xs ! i))) (length xs)"
  unfolding partitioned_def
proof (intro allI impI)
  fix i j assume "i \<le> j \<and> j < length xs"
  with assms have "fst (xs ! j) \<le> fst (xs ! i)"
    unfolding desc_def sorted_wrt_iff_nth_less by (cases "i = j") (auto intro: less_imp_le)
  then show "rank (cmp k (fst (xs ! i))) \<le> rank (cmp k (fst (xs ! j)))"
    by (auto simp: cmp_def)
qed

lemma cmp_simps [simp]:
  "cmp a b = Less \<longleftrightarrow> a < b" "cmp a b = Equal \<longleftrightarrow> a = b" "cmp a b = Greater \<longleftrightarrow> b < a"
  by (auto simp: cmp_def)

lemma desc_search:
  assumes "desc xs"
  shows "case binary_search_by (\<lambda>probe. cmp k (fst probe)) xs of
      Inr i \<Rightarrow> \<exists>w. i < length xs \<and> xs ! i = (k, w)
    | Inl i \<Rightarrow> i \<le> length xs \<and> (\<forall>e \<in> set (take i xs). k < fst e) \<and> (\<forall>e \<in> set (drop i xs). fst e < k)"
proof (cases "binary_search_by (\<lambda>probe. cmp k (fst probe)) xs")
  case (Inl i)
  then show ?thesis using binary_search_by_result [OF desc_partitioned [OF assms, of k]]
    by (auto simp: in_set_conv_nth) (metis fst_conv, metis fst_conv le_add1 less_diff_conv add.commute)
next
  case (Inr i)
  then show ?thesis using binary_search_by_result [OF desc_partitioned [OF assms, of k]]
    by (auto intro: exI [of _ "snd (xs ! i)"])
qed

lemma desc_split:
  assumes "desc (ys @ zs)" "\<forall>e \<in> set ys. k < fst e" "\<forall>e \<in> set zs. fst e < k"
  shows "filter (\<lambda>e. k < fst e) (ys @ zs) = ys" "filter (\<lambda>e. fst e < k) (ys @ zs) = zs"
  using assms(2,3) by (auto simp: filter_empty_conv filter_id_conv order.asym)

lemma desc_update:
  assumes "desc xs"
  shows "(case binary_search_by (\<lambda>probe. cmp k (fst probe)) xs of
      Inr i \<Rightarrow> xs[i := (k, v)] | Inl i \<Rightarrow> take i xs @ (k, v) # drop i xs)
    = filter (\<lambda>e. k < fst e) xs @ (k, v) # filter (\<lambda>e. fst e < k) xs"
proof (cases "binary_search_by (\<lambda>probe. cmp k (fst probe)) xs")
  case (Inl i)
  then have *: "\<forall>e \<in> set (take i xs). k < fst e" "\<forall>e \<in> set (drop i xs). fst e < k"
    using desc_search [OF assms, of k] by auto
  have "filter (\<lambda>e. k < fst e) xs = take i xs" "filter (\<lambda>e. fst e < k) xs = drop i xs"
    using desc_split [of "take i xs" "drop i xs" k, OF _ *] assms by simp_all
  with Inl show ?thesis by simp
next
  case (Inr i)
  then obtain w where i: "i < length xs" "xs ! i = (k, w)"
    using desc_search [OF assms, of k] by auto
  have xs: "xs = take i xs @ (k, w) # drop (Suc i) xs"
    using id_take_nth_drop [OF i(1)] unfolding i(2) .
  have *: "\<forall>e \<in> set (take i xs). k < fst e" "\<forall>e \<in> set (drop (Suc i) xs). fst e < k"
    using subst [of _ _ desc, OF xs assms] by (simp_all add: desc_append desc_Cons)
  have "filter (\<lambda>e. k < fst e) (take i xs @ (k, w) # drop (Suc i) xs) = take i xs"
    "filter (\<lambda>e. fst e < k) (take i xs @ (k, w) # drop (Suc i) xs) = drop (Suc i) xs"
    using * by (auto simp: filter_empty_conv filter_id_conv order.asym)
  then have "filter (\<lambda>e. k < fst e) xs = take i xs" "filter (\<lambda>e. fst e < k) xs = drop (Suc i) xs"
    unfolding xs [symmetric] .
  then show ?thesis using Inr i by (simp add: upd_conv_take_nth_drop)
qed

lemma desc_insert: "desc xs \<Longrightarrow> desc (filter (\<lambda>e. k < fst e) xs @ (k, v) # filter (\<lambda>e. fst e < k) xs)"
  by (auto simp: desc_append desc_Cons desc_filter)

lemma map_of_filter_key: "map_of (filter (\<lambda>e. P (fst e)) xs) k = (if P k then map_of xs k else None)"
  by (induction xs) auto

lemma map_of_desc_insert:
  "map_of (filter (\<lambda>e. (k :: 'k::linorder) < fst e) xs @ (k, v) # filter (\<lambda>e. fst e < k) xs) = (map_of xs)(k \<mapsto> v)"
  using map_of_filter_key [of "\<lambda>j. k < j" xs] map_of_filter_key [of "\<lambda>j. j < k" xs]
  by (intro ext) (auto simp: map_add_def split: option.splits)

lemma map_of_take_desc: "desc xs \<Longrightarrow> map_of (take n xs) = newest n (map_of xs)"
proof (induction xs arbitrary: n)
  case Nil
  then show ?case by (auto simp: newest_def)
next
  case (Cons e xs)
  obtain a b where e: "e = (a, b)" by force
  from Cons.prems have a: "j < a" if "j \<in> dom (map_of xs)" for j
    using that by (auto simp: e desc_Cons dom_map_of_conv_image_fst)
  show ?case
  proof (cases n)
    case 0
    then show ?thesis by (auto simp: newest_def)
  next
    case (Suc m)
    have IH: "map_of (take m xs) = newest m (map_of xs)" using Cons by (simp add: e desc_Cons)
    show ?thesis
    proof
      fix k
      let ?up = "{j \<in> dom (map_of xs). k < j}"
      have fin: "finite ?up" by (simp add: finite_dom_map_of)
      have "a \<notin> dom (map_of xs)" using a by blast
      then have notin: "a \<notin> ?up" by blast
      show "map_of (take n (e # xs)) k = newest n (map_of (e # xs)) k"
      proof (cases "k = a")
        case True
        have "{j \<in> dom (map_of (e # xs)). k < j} = {}" using a True by (auto simp: e dest: order.asym)
        then have "card {j \<in> dom (map_of (e # xs)). k < j} = 0" by (simp only: card.empty)
        then show ?thesis unfolding newest_def by (simp only: Suc) (simp add: e True)
      next
        case False
        show ?thesis
        proof (cases "map_of xs k")
          case None
          with False show ?thesis by (simp add: Suc e IH newest_def)
        next
          case (Some w)
          then have "k < a" using a by blast
          then have "{j \<in> dom (map_of (e # xs)). k < j} = insert a ?up" by (auto simp: e)
          then have "card {j \<in> dom (map_of (e # xs)). k < j} = Suc (card ?up)"
            using card_insert_disjoint [OF fin notin] by simp
          then show ?thesis using False by (simp add: Suc e IH newest_def)
        qed
      qed
    qed
  qed
qed

section \<open>The contract of a bounded log\<close>

locale bounded_log =
  fixes get :: "'m \<Rightarrow> 'k::linorder \<Rightarrow> 'v option"
    and add :: "'k \<Rightarrow> 'v \<Rightarrow> 'm \<Rightarrow> 'm"
    and inv :: "'m \<Rightarrow> bool"
    and cap :: nat
  assumes inv_add: "inv m \<Longrightarrow> inv (add k v m)"
    and get_add: "inv m \<Longrightarrow> get (add k v m) = newest cap ((get m)(k \<mapsto> v))"
    and get_finite: "inv m \<Longrightarrow> finite (dom (get m))"
    and get_newest: "inv m \<Longrightarrow> get m = newest cap (get m)"
begin

lemma inv_fold_add: "inv m \<Longrightarrow> inv (fold (\<lambda>(k, v). add k v) es m)"
  by (induction es arbitrary: m) (auto simp: inv_add)

lemma get_fold_add:
  assumes "inv m" "finite (dom f)" "get m = newest cap f"
  shows "get (fold (\<lambda>(k, v). add k v) es m) = newest cap (f ++ map_of (rev es))"
  using assms
proof (induction es arbitrary: m f)
  case Nil
  then show ?case by simp
next
  case (Cons e es)
  obtain k v where e: "e = (k, v)" by force
  have "get (add k v m) = newest cap (f(k \<mapsto> v))"
    using get_add [OF Cons.prems(1)] newest_absorb [OF Cons.prems(2)] Cons.prems(3) by simp
  from Cons.IH [OF inv_add [OF Cons.prems(1)] finite_dom_upd [OF Cons.prems(2)] this]
  have "get (fold (\<lambda>(k, v). add k v) es (add k v m)) = newest cap (f(k \<mapsto> v) ++ map_of (rev es))" .
  then show ?case by (simp add: e)
qed

lemma log_is_newest:
  assumes "inv m"
  shows "get (fold (\<lambda>(k, v). add k v) es m) = newest cap (get m ++ map_of (rev es))"
  by (rule get_fold_add [OF assms get_finite [OF assms] get_newest [OF assms]])

lemma log_card: "inv m \<Longrightarrow> card (dom (get m)) \<le> cap"
  using newest_card [OF get_finite] get_newest by metis

end

text \<open>Both sysvars meet it, on vectors in decreasing order of at most \<open>MAX_ENTRIES\<close> entries.\<close>

definition log_inv :: "nat \<Rightarrow> ('k::linorder \<times> 'v) list \<Rightarrow> bool" where
  "log_inv cap xs \<longleftrightarrow> desc xs \<and> length xs \<le> cap"

lemma desc_get:
  assumes "desc xs"
  shows "(case binary_search_by (\<lambda>probe. cmp k (fst probe)) xs of
      Inr index \<Rightarrow> Some (snd (xs ! index)) | Inl _ \<Rightarrow> None) = map_of xs k"
proof (cases "binary_search_by (\<lambda>probe. cmp k (fst probe)) xs")
  case (Inl i)
  then have "\<forall>e \<in> set (take i xs @ drop i xs). fst e \<noteq> k"
    using desc_search [OF assms, of k] by (simp only: set_append ball_Un) auto
  then have "map_of xs k = None" by (auto simp: map_of_eq_None_iff)
  with Inl show ?thesis by simp
next
  case (Inr i)
  then obtain w where i: "i < length xs" "xs ! i = (k, w)"
    using desc_search [OF assms, of k] by auto
  have "distinct (map fst xs)"
    using assms unfolding desc_def by (induction xs) auto
  with i have "map_of xs k = Some w" by (metis map_of_eq_Some_iff nth_mem)
  with Inr i show ?thesis by simp
qed

lemma log_laws:
  assumes "log_inv cap xs"
  shows "log_inv cap (take cap (filter (\<lambda>e. k < fst e) xs @ (k, v) # filter (\<lambda>e. fst e < k) xs))"
    and "map_of (take cap (filter (\<lambda>e. k < fst e) xs @ (k, v) # filter (\<lambda>e. fst e < k) xs))
      = newest cap ((map_of xs)(k \<mapsto> v))"
    and "map_of xs = newest cap (map_of xs)"
proof -
  from assms have d: "desc xs" "length xs \<le> cap" by (simp_all add: log_inv_def)
  show "log_inv cap (take cap (filter (\<lambda>e. k < fst e) xs @ (k, v) # filter (\<lambda>e. fst e < k) xs))"
    unfolding log_inv_def using desc_take [OF desc_insert [OF d(1)]] by simp
  show "map_of (take cap (filter (\<lambda>e. k < fst e) xs @ (k, v) # filter (\<lambda>e. fst e < k) xs))
      = newest cap ((map_of xs)(k \<mapsto> v))"
    unfolding map_of_take_desc [OF desc_insert [OF d(1)]] map_of_desc_insert ..
  show "map_of xs = newest cap (map_of xs)"
    using map_of_take_desc [OF d(1), of cap] d(2) by simp
qed

lemma stake_history_get_map: "desc h \<Longrightarrow> stake_history_get h = map_of h"
  by (rule ext) (simp add: stake_history_get_def desc_get)

lemma stake_history_add_insert:
  "desc h \<Longrightarrow> stake_history_add e x h =
     take STAKE_HISTORY_MAX_ENTRIES (filter (\<lambda>y. e < fst y) h @ (e, x) # filter (\<lambda>y. fst y < e) h)"
  by (simp add: stake_history_add_def desc_update)

lemma probe_fst: "(\<lambda>(probe, _). cmp k probe) = (\<lambda>probe. cmp k (fst probe))"
  by (simp add: fun_eq_iff)

lemma slot_hashes_get_map: "desc shs \<Longrightarrow> slot_hashes_get shs = map_of shs"
  by (rule ext) (simp add: slot_hashes_get_def probe_fst desc_get)

lemma slot_hashes_add_insert:
  "desc shs \<Longrightarrow> slot_hashes_add sl x shs =
     take get_entries (filter (\<lambda>y. sl < fst y) shs @ (sl, x) # filter (\<lambda>y. fst y < sl) shs)"
  by (simp add: slot_hashes_add_def probe_fst desc_update)

interpretation sh_log: bounded_log stake_history_get stake_history_add
    "log_inv STAKE_HISTORY_MAX_ENTRIES" STAKE_HISTORY_MAX_ENTRIES
proof (unfold_locales, goal_cases)
  case (1 m k v)
  then show ?case using log_laws(1) [OF 1] by (simp add: stake_history_add_insert log_inv_def)
next
  case (2 m k v)
  have "desc m" "desc (stake_history_add k v m)"
    using 2 log_laws(1) [OF 2] by (simp_all add: stake_history_add_insert log_inv_def)
  then show ?case
    using log_laws(2) [OF 2] by (simp add: stake_history_get_map stake_history_add_insert)
next
  case (3 m)
  then show ?case by (simp add: stake_history_get_map log_inv_def finite_dom_map_of)
next
  case (4 m)
  then show ?case using log_laws(3) [OF 4] by (simp add: stake_history_get_map log_inv_def)
qed

interpretation hashes_log: bounded_log slot_hashes_get slot_hashes_add
    "log_inv get_entries" get_entries
proof (unfold_locales, goal_cases)
  case (1 m k v)
  then show ?case using log_laws(1) [OF 1] by (simp add: slot_hashes_add_insert log_inv_def)
next
  case (2 m k v)
  have "desc m" "desc (slot_hashes_add k v m)"
    using 2 log_laws(1) [OF 2] by (simp_all add: slot_hashes_add_insert log_inv_def)
  then show ?case
    using log_laws(2) [OF 2] by (simp add: slot_hashes_get_map slot_hashes_add_insert)
next
  case (3 m)
  then show ?case by (simp add: slot_hashes_get_map log_inv_def finite_dom_map_of)
next
  case (4 m)
  then show ?case using log_laws(3) [OF 4] by (simp add: slot_hashes_get_map log_inv_def)
qed

text \<open>C23: The stake history refines a map cut to its newest entries: after any sequence of \<open>add\<close>,
  a lookup by binary search returns exactly what the map of everything added holds, later
  additions for an epoch replacing earlier ones, restricted to the 512 largest epochs; and the
  vector stays in decreasing order within \<open>MAX_ENTRIES\<close>.
\<close>

theorem stake_history_refines_newest:
  assumes "log_inv STAKE_HISTORY_MAX_ENTRIES h"
  shows "stake_history_get (fold (\<lambda>(e, x). stake_history_add e x) es h)
      = newest STAKE_HISTORY_MAX_ENTRIES (stake_history_get h ++ map_of (rev es))
    \<and> log_inv STAKE_HISTORY_MAX_ENTRIES (fold (\<lambda>(e, x). stake_history_add e x) es h)"
  using sh_log.log_is_newest [OF assms] sh_log.inv_fold_add [OF assms] by blast

theorem stake_history_refines_newest_witness:
  "stake_history_get (fold (\<lambda>(e, x). stake_history_add e x)
      [(3, with_effective 5), (7, with_effective 6), (3, with_effective 9)] []) 3 = Some (with_effective 9)"
proof -
  let ?es = "[(3, with_effective 5), (7, with_effective 6), (3, with_effective 9)]"
  have "log_inv STAKE_HISTORY_MAX_ENTRIES []" by (simp add: log_inv_def)
  note r = stake_history_refines_newest [OF this, of ?es, THEN conjunct1]
  have "card {j \<in> dom (stake_history_get [] ++ map_of (rev ?es)). 3 < j} \<le> card {7 :: epoch}"
    by (rule card_mono) (auto simp: stake_history_get_map)
  then show ?thesis unfolding r newest_def
    by (simp add: stake_history_get_map STAKE_HISTORY_MAX_ENTRIES_def)
qed

text \<open>The slot hashes refine a map cut to its newest entries in the same way: after any sequence
  of \<open>add\<close>, \<open>get\<close> answers from the largest slots ever added, and from no more than 512.
\<close>

theorem slot_hashes_refine_newest:
  assumes "log_inv get_entries shs"
  shows "slot_hashes_get (fold (\<lambda>(s, h). slot_hashes_add s h) es shs)
      = newest get_entries (slot_hashes_get shs ++ map_of (rev es))
    \<and> card (dom (slot_hashes_get (fold (\<lambda>(s, h). slot_hashes_add s h) es shs))) \<le> 512"
proof
  show "slot_hashes_get (fold (\<lambda>(s, h). slot_hashes_add s h) es shs)
      = newest get_entries (slot_hashes_get shs ++ map_of (rev es))"
    by (rule hashes_log.log_is_newest [OF assms])
  show "card (dom (slot_hashes_get (fold (\<lambda>(s, h). slot_hashes_add s h) es shs))) \<le> 512"
    using hashes_log.log_card [OF hashes_log.inv_fold_add [OF assms, of es]]
    by (simp add: get_entries_def SLOT_HASHES_MAX_ENTRIES_def)
qed

theorem slot_hashes_refine_newest_witness:
  "slot_hashes_get (fold (\<lambda>(s, h). slot_hashes_add s h) [(4, 40), (9, 90), (6, 60)] []) 6 = Some 60"
proof -
  let ?es = "[(4, 40), (9, 90), (6, 60)] :: slot_hash list"
  have "log_inv get_entries []" by (simp add: log_inv_def)
  note r = slot_hashes_refine_newest [OF this, of ?es, THEN conjunct1]
  have "card {j \<in> dom (slot_hashes_get [] ++ map_of (rev ?es)). 6 < j} \<le> card {9 :: slot}"
    by (rule card_mono) (auto simp: slot_hashes_get_map)
  then show ?thesis unfolding r newest_def
    by (simp add: slot_hashes_get_map get_entries_def SLOT_HASHES_MAX_ENTRIES_def)
qed

end
