(* ===== verification/Stake_State.thy ===== *)
theory Stake_State
  imports Sysvar_Logs
begin

text \<open>
  The state of a stake account (\<open>sdk/program/src/stake/state.rs\<close>): its authorities and lockup,
  its delegation, and how much of a delegation is effective in an epoch as it warms up and cools
  down with the cluster. The fractions of an epoch's stake are computed in \<open>f64\<close>, as in the
  sources.
\<close>

section \<open>Errors and configuration\<close>

datatype stake_error =
    NoCreditsToRedeem | LockupInForce | AlreadyDeactivated | TooSoonToRedelegate
  | InsufficientStake | MergeTransientStake | MergeMismatch | CustodianMissing
  | CustodianSignatureMissing

fun stake_error_code :: "stake_error \<Rightarrow> u32" where
  "stake_error_code NoCreditsToRedeem = 0"
| "stake_error_code LockupInForce = 1"
| "stake_error_code AlreadyDeactivated = 2"
| "stake_error_code TooSoonToRedelegate = 3"
| "stake_error_code InsufficientStake = 4"
| "stake_error_code MergeTransientStake = 5"
| "stake_error_code MergeMismatch = 6"
| "stake_error_code CustodianMissing = 7"
| "stake_error_code CustodianSignatureMissing = 8"

text \<open>\<open>StakeError::into\<close>: the error becomes \<open>Custom\<close> of its number.\<close>

definition from_stake_error :: "stake_error \<Rightarrow> instruction_error" where
  "from_stake_error e = Custom (stake_error_code e)"

record stake_config =
  config_warmup_cooldown_rate :: f64
  slash_penalty :: u8

definition DEFAULT_WARMUP_COOLDOWN_RATE :: f64 where
  "DEFAULT_WARMUP_COOLDOWN_RATE = f64_0_25"

definition DEFAULT_SLASH_PENALTY :: u8 where
  "DEFAULT_SLASH_PENALTY = of_nat ((5 * 255) div 100)"

definition stake_config_default :: stake_config where
  "stake_config_default =
     \<lparr>config_warmup_cooldown_rate = DEFAULT_WARMUP_COOLDOWN_RATE, slash_penalty = DEFAULT_SLASH_PENALTY\<rparr>"

section \<open>Lockup and authorities\<close>

record lockup =
  lockup_unix_timestamp :: int
  lockup_epoch :: epoch
  lockup_custodian :: pubkey

definition lockup_default :: lockup where
  "lockup_default = \<lparr>lockup_unix_timestamp = 0, lockup_epoch = 0, lockup_custodian = 0\<rparr>"

definition is_in_force :: "lockup \<Rightarrow> clock \<Rightarrow> pubkey option \<Rightarrow> bool" where
  "is_in_force l clk custodian =
     (if custodian = Some (lockup_custodian l) then False
      else clock_unix_timestamp clk < lockup_unix_timestamp l \<or> clock_epoch clk < lockup_epoch l)"

datatype stake_authorize = Staker | StakeWithdrawer

record authorized =
  staker :: pubkey
  withdrawer :: pubkey

definition authorized_default :: authorized where
  "authorized_default = \<lparr>staker = 0, withdrawer = 0\<rparr>"

definition authorized_auto :: "pubkey \<Rightarrow> authorized" where
  "authorized_auto k = \<lparr>staker = k, withdrawer = k\<rparr>"

definition authorized_check :: "authorized \<Rightarrow> pubkey set \<Rightarrow> stake_authorize \<Rightarrow> unit ires" where
  "authorized_check a signers sa =
     (case sa of
        Staker \<Rightarrow> ensure (staker a \<in> signers) MissingRequiredSignature
      | StakeWithdrawer \<Rightarrow> ensure (withdrawer a \<in> signers) MissingRequiredSignature)"

definition authorized_authorize ::
  "pubkey set \<Rightarrow> pubkey \<Rightarrow> stake_authorize \<Rightarrow> (lockup \<times> clock \<times> pubkey option) option
    \<Rightarrow> authorized \<Rightarrow> authorized ires" where
  "authorized_authorize signers new_authorized sa lockup_custodian_args a =
     (case sa of
        Staker \<Rightarrow>
          if staker a \<notin> signers \<and> withdrawer a \<notin> signers then fail MissingRequiredSignature
          else Inr (a\<lparr>staker := new_authorized\<rparr>)
      | StakeWithdrawer \<Rightarrow>
          and_then
            (case lockup_custodian_args of
               None \<Rightarrow> Inr ()
             | Some (l, clk, custodian) \<Rightarrow>
                 if is_in_force l clk None then
                   (case custodian of
                      None \<Rightarrow> fail (from_stake_error CustodianMissing)
                    | Some c \<Rightarrow>
                        if c \<notin> signers then fail (from_stake_error CustodianSignatureMissing)
                        else if is_in_force l clk (Some c) then fail (from_stake_error LockupInForce)
                        else Inr ())
                 else Inr ())
            (\<lambda>_. and_then (authorized_check a signers sa) (\<lambda>_. Inr (a\<lparr>withdrawer := new_authorized\<rparr>))))"

record lockup_args =
  args_unix_timestamp :: "int option"
  args_epoch :: "epoch option"
  args_custodian :: "pubkey option"

record meta =
  rent_exempt_reserve :: u64
  meta_authorized :: authorized
  meta_lockup :: lockup

definition meta_default :: meta where
  "meta_default =
     \<lparr>rent_exempt_reserve = 0, meta_authorized = authorized_default, meta_lockup = lockup_default\<rparr>"

definition meta_auto :: "pubkey \<Rightarrow> meta" where
  "meta_auto k = meta_default\<lparr>meta_authorized := authorized_auto k\<rparr>"

definition meta_set_lockup :: "lockup_args \<Rightarrow> pubkey set \<Rightarrow> clock \<Rightarrow> meta \<Rightarrow> meta ires" where
  "meta_set_lockup args signers clk m =
     (let l = meta_lockup m in
      if is_in_force l clk None \<and> lockup_custodian l \<notin> signers then fail MissingRequiredSignature
      else if \<not> is_in_force l clk None \<and> withdrawer (meta_authorized m) \<notin> signers
      then fail MissingRequiredSignature
      else
        let l1 = (case args_unix_timestamp args of Some t \<Rightarrow> l\<lparr>lockup_unix_timestamp := t\<rparr> | None \<Rightarrow> l);
            l2 = (case args_epoch args of Some e \<Rightarrow> l1\<lparr>lockup_epoch := e\<rparr> | None \<Rightarrow> l1);
            l3 = (case args_custodian args of Some c \<Rightarrow> l2\<lparr>lockup_custodian := c\<rparr> | None \<Rightarrow> l2)
        in Inr (m\<lparr>meta_lockup := l3\<rparr>))"

section \<open>Delegations\<close>

record delegation =
  voter_pubkey :: pubkey
  delegated_stake :: u64
  activation_epoch :: epoch
  deactivation_epoch :: epoch
  warmup_cooldown_rate :: f64

definition delegation_default :: delegation where
  "delegation_default =
     \<lparr>voter_pubkey = 0, delegated_stake = 0, activation_epoch = 0, deactivation_epoch = u64_MAX,
      warmup_cooldown_rate = config_warmup_cooldown_rate stake_config_default\<rparr>"

definition delegation_new :: "pubkey \<Rightarrow> u64 \<Rightarrow> epoch \<Rightarrow> f64 \<Rightarrow> delegation" where
  "delegation_new voter s act rate =
     delegation_default\<lparr>voter_pubkey := voter, delegated_stake := s, activation_epoch := act,
       warmup_cooldown_rate := rate\<rparr>"

definition is_bootstrap :: "delegation \<Rightarrow> bool" where
  "is_bootstrap d = (activation_epoch d = u64_MAX)"

text \<open>The portion of the cluster's newly effective stake an account is entitled to, at least 1.\<close>

definition entitled :: "u64 \<Rightarrow> u64 \<Rightarrow> u64 \<Rightarrow> f64 \<Rightarrow> u64" where
  "entitled mine cluster cluster_effective rate =
     (let weight = f64_div (f64_of_u64 mine) (f64_of_u64 cluster);
          newly = f64_mul (f64_of_u64 cluster_effective) rate
      in max (u64_of_f64 (f64_mul weight newly)) 1)"

text \<open>
  The two loops. Each turn goes from \<open>prev_epoch\<close> to the epoch after it and continues only while
  that epoch is below the target, which bounds the number of turns.
\<close>

lemma epoch_loop_decreases:
  assumes "prev + 1 < (target :: epoch)"
  shows "unat target - unat (2 + prev) < unat target - unat (prev + 1)"
proof -
  have "2 + prev = prev + 1 + 1" by simp
  then have "unat (2 + prev) = unat (prev + 1) + 1" using unat_next [OF assms] by (simp only:)
  with assms show ?thesis unfolding word_less_nat_alt by linarith
qed

function warmup_loop ::
  "stake_history \<Rightarrow> delegation \<Rightarrow> epoch \<Rightarrow> epoch \<Rightarrow> stake_history_entry \<Rightarrow> u64 \<Rightarrow> u64" where
  "warmup_loop history d target prev_epoch prev_cluster_stake current_effective_stake =
     (let current_epoch = prev_epoch + 1 in
      if activating prev_cluster_stake = 0 then current_effective_stake
      else
        let remaining_activating_stake = delegated_stake d - current_effective_stake;
            newly_effective_stake = entitled remaining_activating_stake (activating prev_cluster_stake)
              (effective prev_cluster_stake) (warmup_cooldown_rate d);
            current = current_effective_stake + newly_effective_stake
        in
        if delegated_stake d \<le> current then delegated_stake d
        else if target \<le> current_epoch \<or> deactivation_epoch d \<le> current_epoch then current
        else case stake_history_get history current_epoch of
          Some current_cluster_stake \<Rightarrow>
            warmup_loop history d target current_epoch current_cluster_stake current
        | None \<Rightarrow> current)"
  by pat_completeness auto
termination
  by (relation "measure (\<lambda>(h, d, target, prev, c, e). unat target - unat (prev + 1))")
    (auto simp: not_le epoch_loop_decreases)

declare warmup_loop.simps [simp del]

function cooldown_loop ::
  "stake_history \<Rightarrow> delegation \<Rightarrow> epoch \<Rightarrow> epoch \<Rightarrow> stake_history_entry \<Rightarrow> u64 \<Rightarrow> u64" where
  "cooldown_loop history d target prev_epoch prev_cluster_stake current_effective_stake =
     (let current_epoch = prev_epoch + 1 in
      if deactivating prev_cluster_stake = 0 then current_effective_stake
      else
        let newly_not_effective_stake = entitled current_effective_stake (deactivating prev_cluster_stake)
              (effective prev_cluster_stake) (warmup_cooldown_rate d);
            current = saturating_sub_w current_effective_stake newly_not_effective_stake
        in
        if current = 0 then current
        else if target \<le> current_epoch then current
        else case stake_history_get history current_epoch of
          Some current_cluster_stake \<Rightarrow>
            cooldown_loop history d target current_epoch current_cluster_stake current
        | None \<Rightarrow> current)"
  by pat_completeness auto
termination
  by (relation "measure (\<lambda>(h, d, target, prev, c, e). unat target - unat (prev + 1))")
    (auto simp: not_le epoch_loop_decreases)

declare cooldown_loop.simps [simp del]

definition stake_and_activating :: "delegation \<Rightarrow> epoch \<Rightarrow> stake_history option \<Rightarrow> u64 \<times> u64" where
  "stake_and_activating d target history =
     (let delegated = delegated_stake d in
      if is_bootstrap d then (delegated, 0)
      else if activation_epoch d = deactivation_epoch d then (0, 0)
      else if target = activation_epoch d then (0, delegated)
      else if target < activation_epoch d then (0, 0)
      else case Option.bind history (\<lambda>h. map_option (Pair h) (stake_history_get h (activation_epoch d))) of
        Some (h, cluster_stake_at_activation_epoch) \<Rightarrow>
          let current_effective_stake =
                warmup_loop h d target (activation_epoch d) cluster_stake_at_activation_epoch 0
          in (current_effective_stake, delegated - current_effective_stake)
      | None \<Rightarrow> (delegated, 0))"

definition stake_activating_and_deactivating ::
  "delegation \<Rightarrow> epoch \<Rightarrow> stake_history option \<Rightarrow> stake_history_entry" where
  "stake_activating_and_deactivating d target history =
     (case stake_and_activating d target history of (effective_stake, activating_stake) \<Rightarrow>
        if target < deactivation_epoch d then
          (if activating_stake = 0 then with_effective effective_stake
           else with_effective_and_activating effective_stake activating_stake)
        else if target = deactivation_epoch d then with_deactivating effective_stake
        else case Option.bind history (\<lambda>h. map_option (Pair h) (stake_history_get h (deactivation_epoch d))) of
          Some (h, cluster_stake_at_deactivation_epoch) \<Rightarrow>
            with_deactivating
              (cooldown_loop h d target (deactivation_epoch d) cluster_stake_at_deactivation_epoch effective_stake)
        | None \<Rightarrow> stake_history_entry_default)"

definition delegation_stake :: "delegation \<Rightarrow> epoch \<Rightarrow> stake_history option \<Rightarrow> u64" where
  "delegation_stake d e history = effective (stake_activating_and_deactivating d e history)"

section \<open>Stakes\<close>

record stake =
  stake_delegation :: delegation
  credits_observed :: u64

definition stake_stake :: "stake \<Rightarrow> epoch \<Rightarrow> stake_history option \<Rightarrow> u64" where
  "stake_stake s e history = delegation_stake (stake_delegation s) e history"

text \<open>\<open>Stake::split\<close> returns the new stake and what is left of the old one.\<close>

definition stake_split_off :: "u64 \<Rightarrow> u64 \<Rightarrow> stake \<Rightarrow> (stake_error, stake \<times> stake) res" where
  "stake_split_off remaining_stake_delta split_stake_amount s =
     (if delegated_stake (stake_delegation s) < remaining_stake_delta then fail InsufficientStake
      else
        let d = (stake_delegation s)\<lparr>delegated_stake := delegated_stake (stake_delegation s) - remaining_stake_delta\<rparr>;
            s' = s\<lparr>stake_delegation := d\<rparr>
        in Inr (s'\<lparr>stake_delegation := d\<lparr>delegated_stake := split_stake_amount\<rparr>\<rparr>, s'))"

definition stake_deactivate_at :: "epoch \<Rightarrow> stake \<Rightarrow> (stake_error, stake) res" where
  "stake_deactivate_at e s =
     (if deactivation_epoch (stake_delegation s) \<noteq> u64_MAX then fail AlreadyDeactivated
      else Inr (s\<lparr>stake_delegation := (stake_delegation s)\<lparr>deactivation_epoch := e\<rparr>\<rparr>))"

datatype stake_state =
    Uninitialized
  | Initialized meta
  | Stake meta stake
  | RewardsPool

definition STAKE_STATE_SIZE :: nat where
  "STAKE_STATE_SIZE = 200"

definition stake_rent_exempt_reserve :: "rent \<Rightarrow> u64" where
  "stake_rent_exempt_reserve r = minimum_balance r STAKE_STATE_SIZE"

fun state_stake :: "stake_state \<Rightarrow> stake option" where
  "state_stake (Stake _ s) = Some s"
| "state_stake _ = None"

fun state_delegation :: "stake_state \<Rightarrow> delegation option" where
  "state_delegation (Stake _ s) = Some (stake_delegation s)"
| "state_delegation _ = None"

fun state_authorized :: "stake_state \<Rightarrow> authorized option" where
  "state_authorized (Stake m _) = Some (meta_authorized m)"
| "state_authorized (Initialized m) = Some (meta_authorized m)"
| "state_authorized _ = None"

fun state_meta :: "stake_state \<Rightarrow> meta option" where
  "state_meta (Stake m _) = Some m"
| "state_meta (Initialized m) = Some m"
| "state_meta _ = None"

definition state_lockup :: "stake_state \<Rightarrow> lockup option" where
  "state_lockup s = map_option meta_lockup (state_meta s)"

section \<open>Bounds on effective stake\<close>

lemma entitled_pos: "1 \<le> entitled mine cluster eff rate"
  by (simp add: entitled_def Let_def)

lemma warmup_loop_le:
  "current \<le> delegated_stake d \<Longrightarrow> warmup_loop h d target prev c current \<le> delegated_stake d"
proof (induction h d target prev c current rule: warmup_loop.induct)
  case (1 h d target prev c current)
  show ?case
    by (subst warmup_loop.simps) (auto simp: Let_def not_le "1.prems" split: option.splits intro!: "1.IH")
qed

lemma cooldown_loop_le: "cooldown_loop h d target prev c current \<le> current"
proof (induction h d target prev c current rule: cooldown_loop.induct)
  case (1 h d target prev c current)
  show ?case
    by (subst cooldown_loop.simps)
      (auto simp: Let_def saturating_sub_w_le split: option.splits intro!: order_trans [OF "1.IH" saturating_sub_w_le])
qed

lemma stake_and_activating_sum:
  "stake_and_activating d target h = (e, a) \<Longrightarrow> unat e + unat a \<le> unat (delegated_stake d)"
  using warmup_loop_le [of 0 d]
  by (auto simp: stake_and_activating_def Let_def word_nat word_le_nat_alt split: if_splits option.splits)

lemmas status_defs = with_effective_def with_effective_and_activating_def with_deactivating_def
  stake_history_entry_default_def

lemma status_cases:
  assumes "stake_and_activating d target h = (e, a)"
  shows "stake_activating_and_deactivating d target h =
      \<lparr>effective = e, activating = a, deactivating = 0\<rparr> \<and> target < deactivation_epoch d
    \<or> (\<exists>e' \<le> e. stake_activating_and_deactivating d target h =
      \<lparr>effective = e', activating = 0, deactivating = e'\<rparr>) \<and> deactivation_epoch d \<le> target"
  using assms cooldown_loop_le
  by (auto simp: stake_activating_and_deactivating_def status_defs not_less split: option.splits)

text \<open>C18: Whatever the epoch and the history, a delegation never counts for more than was delegated:
  its effective and its activating stake together are within the delegated stake; stake that is
  cooling down is all that is still effective, and nothing activates once deactivation began.
\<close>

theorem effective_stake_bounded:
  "unat (effective (stake_activating_and_deactivating d target h))
      + unat (activating (stake_activating_and_deactivating d target h)) \<le> unat (delegated_stake d)
    \<and> (if target < deactivation_epoch d
       then deactivating (stake_activating_and_deactivating d target h) = 0
       else activating (stake_activating_and_deactivating d target h) = 0
         \<and> deactivating (stake_activating_and_deactivating d target h)
             = effective (stake_activating_and_deactivating d target h))"
proof -
  obtain e a where ea: "stake_and_activating d target h = (e, a)" by force
  show ?thesis using status_cases [OF ea] stake_and_activating_sum [OF ea]
    by (auto simp: word_le_nat_alt word_less_nat_alt)
qed

lemma effective_le_delegated: "delegation_stake d target h \<le> delegated_stake d"
proof -
  obtain e a where ea: "stake_and_activating d target h = (e, a)" by force
  show ?thesis using status_cases [OF ea] stake_and_activating_sum [OF ea]
    by (auto simp: delegation_stake_def word_le_nat_alt)
qed

section \<open>Cooling down ends\<close>

lemma cooldown_loop_done:
  assumes "prev < target" "unat current \<le> unat target - unat prev" "deactivating c \<noteq> 0"
    and "\<And>k. prev < k \<Longrightarrow> k < target \<Longrightarrow> \<exists>c'. stake_history_get h k = Some c' \<and> deactivating c' \<noteq> 0"
  shows "cooldown_loop h d target prev c current = 0"
  using assms
proof (induction h d target prev c current rule: cooldown_loop.induct)
  case (1 h d target prev c current)
  let ?cur = "saturating_sub_w current (entitled current (deactivating c) (effective c) (warmup_cooldown_rate d))"
  note suc = unat_next [OF "1.prems"(1)]
  have "unat ?cur \<le> unat current - 1"
    using entitled_pos [of current "deactivating c" "effective c" "warmup_cooldown_rate d"]
    by (simp add: unat_saturating_sub_w word_le_nat_alt)
  with "1.prems"(2) suc have le: "unat ?cur \<le> unat target - unat (prev + 1)" by simp
  show ?case
  proof (cases "?cur = 0 \<or> target \<le> prev + 1")
    case True
    then have "?cur = 0" using le by (auto simp: word_le_nat_alt unat_eq_0)
    then show ?thesis using "1.prems"(3) by (subst cooldown_loop.simps) (simp add: Let_def)
  next
    case False
    then obtain c' where c': "stake_history_get h (prev + 1) = Some c'" "deactivating c' \<noteq> 0"
      using "1.prems"(4) [of "prev + 1"] suc by (auto simp: word_less_nat_alt not_le)
    have "cooldown_loop h d target (prev + 1) c' ?cur = 0"
      by (rule "1.IH") (use False c' le "1.prems"(3,4) suc in \<open>auto simp: not_le word_less_nat_alt\<close>)
    then show ?thesis using False c' "1.prems"(3) by (subst cooldown_loop.simps) (simp add: Let_def)
  qed
qed

text \<open>C19: A delegation that is being deactivated is gone after at most as many epochs as it had
  lamports, since every epoch the history records as cooling down takes at least one: if the
  history covers the epochs from the deactivation to the target, nothing is left.
\<close>

theorem cooldown_completes:
  assumes "deactivation_epoch d < target"
    and "unat (delegated_stake d) \<le> unat target - unat (deactivation_epoch d)"
    and "\<And>k. deactivation_epoch d \<le> k \<Longrightarrow> k < target \<Longrightarrow>
           \<exists>c. stake_history_get h k = Some c \<and> deactivating c \<noteq> 0"
  shows "stake_activating_and_deactivating d target (Some h) = stake_history_entry_default"
proof -
  obtain e a where ea: "stake_and_activating d target (Some h) = (e, a)" by force
  obtain c where c: "stake_history_get h (deactivation_epoch d) = Some c" "deactivating c \<noteq> 0"
    using assms(1) assms(3) [of "deactivation_epoch d"] by auto
  have "unat e \<le> unat target - unat (deactivation_epoch d)"
    using stake_and_activating_sum [OF ea] assms(2) by simp
  then have "cooldown_loop h d target (deactivation_epoch d) c e = 0"
    by (intro cooldown_loop_done) (use assms c in auto)
  then show ?thesis using assms(1) c(1)
    by (auto simp: stake_activating_and_deactivating_def ea status_defs)
qed

theorem cooldown_completes_witness:
  "stake_activating_and_deactivating
      (delegation_default\<lparr>delegated_stake := 2, activation_epoch := u64_MAX, deactivation_epoch := 5\<rparr>) 7
      (Some [(6, with_deactivating 1), (5, with_deactivating 2)]) = stake_history_entry_default"
proof (rule cooldown_completes)
  fix k :: epoch assume "deactivation_epoch (delegation_default\<lparr>delegated_stake := 2,
      activation_epoch := u64_MAX, deactivation_epoch := 5\<rparr>) \<le> k" "k < 7"
  then have "unat k = 5 \<or> unat k = 6" by (auto simp: word_le_nat_alt word_less_nat_alt)
  then have "k = 5 \<or> k = 6" by (simp add: word_unat_eq_iff)
  then show "\<exists>c. stake_history_get [(6, with_deactivating 1), (5, with_deactivating 2)] k = Some c \<and> deactivating c \<noteq> 0"
    by (auto simp: stake_history_get_map desc_def status_defs)
qed simp_all

end
