(* ===== verification/Stake_Rewards.thy ===== *)
theory Stake_Rewards
  imports Stake_State Vote_Program
begin

text \<open>
  Staking rewards (\<open>programs/stake/src/stake_state.rs\<close>, lines 93 to 365 and 1185 to 1310): the
  points a stake earns from the credits of its vote account, their conversion into lamports and
  the split with the voter, and the cluster's stake history. The optional tracer, a callback that
  only reports what is computed, is left out. \<open>unwrap\<close> of a failed checked operation is a panic.
\<close>

section \<open>Points\<close>

record point_value =
  rewards :: u64
  points :: u128

definition earned_credits :: "u64 \<Rightarrow> u64 \<Rightarrow> u64 \<Rightarrow> u64 \<Rightarrow> u64" where
  "earned_credits credits_in_stake new_credits_observed final initial =
     (if credits_in_stake < initial then final - initial
      else if credits_in_stake < final then final - new_credits_observed
      else 0)"

fun points_loop ::
  "delegation \<Rightarrow> stake_history option \<Rightarrow> u64 \<Rightarrow> epoch_credit list \<Rightarrow> u128 \<Rightarrow> u64 \<Rightarrow> u128 \<times> u64" where
  "points_loop d h credits_in_stake [] pts new_credits_observed = (pts, new_credits_observed)"
| "points_loop d h credits_in_stake ((e, final, initial) # ec) pts new_credits_observed =
     (let stake_amount = to_u128 (delegation_stake d e h);
          earned = to_u128 (earned_credits credits_in_stake new_credits_observed final initial)
      in points_loop d h credits_in_stake ec (pts + stake_amount * earned) (max new_credits_observed final))"

definition calculate_stake_points_and_credits ::
  "stake \<Rightarrow> vote_state \<Rightarrow> stake_history option \<Rightarrow> u128 \<times> u64" where
  "calculate_stake_points_and_credits s vs h =
     (let credits_in_stake = credits_observed s in
      if credits vs \<le> credits_in_stake then (0, credits_in_stake)
      else points_loop (stake_delegation s) h credits_in_stake (epoch_credits vs) 0 credits_in_stake)"

definition calculate_stake_points :: "stake \<Rightarrow> vote_state \<Rightarrow> stake_history option \<Rightarrow> u128" where
  "calculate_stake_points s vs h = fst (calculate_stake_points_and_credits s vs h)"

definition calculate_points :: "stake_state \<Rightarrow> vote_state \<Rightarrow> stake_history option \<Rightarrow> u128 ires" where
  "calculate_points st vs h =
     (case st of Stake _ s \<Rightarrow> Inr (calculate_stake_points s vs h) | _ \<Rightarrow> fail InvalidAccountData)"

section \<open>Rewards\<close>

definition calculate_stake_rewards ::
  "epoch \<Rightarrow> stake \<Rightarrow> point_value \<Rightarrow> vote_state \<Rightarrow> stake_history option \<Rightarrow> (u64 \<times> u64 \<times> u64) option ires" where
  "calculate_stake_rewards rewarded_epoch s pv vs h =
     (case calculate_stake_points_and_credits s vs h of (pts, new_credits_observed) \<Rightarrow>
        if rewards pv = 0 \<or> activation_epoch (stake_delegation s) = rewarded_epoch
        then Inr (Some (0, 0, new_credits_observed))
        else if pts = 0 then Inr None
        else if points pv = 0 then Inr None
        else
          and_then (unwrap (checked_mul_w pts (to_u128 (rewards pv)))) (\<lambda>prod.
          and_then (unwrap (checked_div_w prod (points pv))) (\<lambda>quot.
          and_then (unwrap (try_u64 quot)) (\<lambda>rew.
          if rew = 0 then Inr None
          else case commission_split vs rew of (voter_rewards, staker_rewards, is_split) \<Rightarrow>
            if (voter_rewards = 0 \<or> staker_rewards = 0) \<and> is_split then Inr None
            else Inr (Some (staker_rewards, voter_rewards, new_credits_observed))))))"

definition redeem_stake_rewards ::
  "epoch \<Rightarrow> point_value \<Rightarrow> vote_state \<Rightarrow> stake_history option \<Rightarrow> stake \<Rightarrow> ((u64 \<times> u64) \<times> stake) option ires" where
  "redeem_stake_rewards rewarded_epoch pv vs h s =
     and_then (calculate_stake_rewards rewarded_epoch s pv vs h) (\<lambda>r.
       Inr (map_option (\<lambda>(stakers_reward, voters_reward, co).
         ((stakers_reward, voters_reward),
          s\<lparr>credits_observed := co,
            stake_delegation := (stake_delegation s)
              \<lparr>delegated_stake := delegated_stake (stake_delegation s) + stakers_reward\<rparr>\<rparr>)) r))"

definition redeem_rewards ::
  "(stake_state, 'b) codec \<Rightarrow> epoch \<Rightarrow> stake_state \<Rightarrow> vote_state \<Rightarrow> point_value \<Rightarrow> stake_history option
    \<Rightarrow> 'b account \<Rightarrow> ((u64 \<times> u64) \<times> 'b account) ires" where
  "redeem_rewards c rewarded_epoch st vs pv h a =
     (case st of
        Stake m s \<Rightarrow>
          and_then (redeem_stake_rewards rewarded_epoch pv vs h s) (\<lambda>r. case r of
            Some ((stakers_reward, voters_reward), s') \<Rightarrow>
              and_then (checked_add_lamports stakers_reward a) (\<lambda>a1.
              and_then (set_state c (Stake m s') a1) (\<lambda>a2. Inr ((stakers_reward, voters_reward), a2)))
          | None \<Rightarrow> fail (from_stake_error NoCreditsToRedeem))
      | _ \<Rightarrow> fail InvalidAccountData)"

section \<open>The cluster's stake history\<close>

definition new_stake_history_entry ::
  "epoch \<Rightarrow> delegation list \<Rightarrow> stake_history option \<Rightarrow> stake_history_entry" where
  "new_stake_history_entry e ds h =
     foldl (\<lambda>sum d. entry_add sum (stake_activating_and_deactivating d e h)) stake_history_entry_default ds"

definition create_stake_history_from_delegations ::
  "u64 option \<Rightarrow> epoch list \<Rightarrow> delegation list \<Rightarrow> stake_history" where
  "create_stake_history_from_delegations bootstrap epochs ds =
     (let bootstrap_delegation =
            (case bootstrap of
               Some b \<Rightarrow> [delegation_default\<lparr>activation_epoch := u64_MAX, delegated_stake := b\<rparr>]
             | None \<Rightarrow> [])
      in fold (\<lambda>e h. stake_history_add e (new_stake_history_entry e (ds @ bootstrap_delegation) (Some h)) h)
           epochs [])"

section \<open>What the points count\<close>

text \<open>
  A credit history is chained when every epoch starts where the one before ended and credits
  never fall. A stake's dues for an epoch are the credits it has not observed yet.
\<close>

definition credits_chained :: "epoch_credit list \<Rightarrow> bool" where
  "credits_chained ec \<longleftrightarrow> (\<forall>(_, final, initial) \<in> set ec. initial \<le> final)
     \<and> successively (\<lambda>a b. snd (snd b) = fst (snd a)) ec"

fun unseen :: "u64 \<Rightarrow> epoch_credit \<Rightarrow> nat" where
  "unseen observed (_, final, initial) = unat final - max (unat observed) (unat initial)"

definition points_due :: "delegation \<Rightarrow> stake_history option \<Rightarrow> u64 \<Rightarrow> epoch_credit list \<Rightarrow> nat" where
  "points_due d h observed ec = (\<Sum>x\<leftarrow>ec. unat (delegation_stake d (fst x) h) * unseen observed x)"

lemma credits_chained_Cons:
  "credits_chained ((e, f, i) # ec) \<longleftrightarrow> i \<le> f \<and> credits_chained ec \<and> (ec = [] \<or> snd (snd (hd ec)) = f)"
  by (cases ec) (auto simp: credits_chained_def)

lemma unseen_total:
  "credits_chained ec \<Longrightarrow> ec \<noteq> [] \<Longrightarrow>
     (\<Sum>x\<leftarrow>ec. unseen c x) + max (unat c) (unat (snd (snd (hd ec)))) \<le> max (unat c) (unat (fst (snd (last ec))))"
proof (induction ec)
  case (Cons x ec)
  obtain e f i where x: "x = (e, f, i)" by (metis prod_cases3)
  with Cons.prems have le: "unat i \<le> unat f" by (simp add: credits_chained_Cons word_le_nat_alt)
  show ?case
  proof (cases "ec = []")
    case True
    then show ?thesis using le by (simp add: x)
  next
    case False
    then have "(\<Sum>x\<leftarrow>ec. unseen c x) + max (unat c) (unat f) \<le> max (unat c) (unat (fst (snd (last ec))))"
      using Cons by (simp add: x credits_chained_Cons)
    then show ?thesis using False le by (simp add: x)
  qed
qed simp

lemma points_due_le:
  "points_due d h c ec \<le> unat (delegated_stake d) * (\<Sum>x\<leftarrow>ec. unseen c x)"
proof (induction ec)
  case (Cons x ec)
  have "unat (delegation_stake d (fst x) h) * unseen c x \<le> unat (delegated_stake d) * unseen c x"
    using effective_le_delegated [of d "fst x" h] by (simp add: word_le_nat_alt)
  from add_mono [OF this Cons] show ?case by (simp add: points_due_def distrib_left)
qed (simp add: points_due_def)

lemma earned_credits_unseen:
  assumes "i \<le> f" "n = c \<or> n = max c i"
  shows "unat (earned_credits c n f i) = unseen c (e, f, i)"
proof -
  consider "c < i" | "i \<le> c" "c < f" | "f \<le> c" by fastforce
  then show ?thesis
  proof cases
    case 1
    then show ?thesis using assms by (simp add: earned_credits_def word_nat word_less_nat_alt)
  next
    case 2
    then have "n = c" using assms by (auto simp: max_def)
    with 2 show ?thesis by (simp add: earned_credits_def word_nat word_less_nat_alt word_le_nat_alt)
  next
    case 3
    with assms(1) have "\<not> c < i" "\<not> c < f" by auto
    with 3 show ?thesis by (simp add: earned_credits_def word_le_nat_alt)
  qed
qed

lemma credits_chained_last:
  "credits_chained ec \<Longrightarrow> ec \<noteq> [] \<Longrightarrow> snd (snd (hd ec)) \<le> fst (snd (last ec))"
  by (induction ec) (auto simp: credits_chained_Cons intro: order_trans)

lemma points_loop_spec:
  assumes "credits_chained ec" "ec \<noteq> [] \<Longrightarrow> n = c \<or> n = max c (snd (snd (hd ec)))"
    and "unat p + points_due d h c ec < 2 ^ 128"
  shows "unat (fst (points_loop d h c ec p n)) = unat p + points_due d h c ec
    \<and> snd (points_loop d h c ec p n) = (if ec = [] then n else max n (fst (snd (last ec))))"
  using assms
proof (induction ec arbitrary: p n)
  case (Cons x ec)
  obtain e f i where x: "x = (e, f, i)" by (metis prod_cases3)
  from Cons.prems x have ch: "i \<le> f" "credits_chained ec" "ec \<noteq> [] \<Longrightarrow> snd (snd (hd ec)) = f"
    by (auto simp: credits_chained_Cons)
  have n: "n = c \<or> n = max c i" using Cons.prems(2) by (simp add: x)
  let ?S = "delegation_stake d e h" and ?E = "earned_credits c n f i"
  have E: "unat ?E = unseen c (e, f, i)" by (rule earned_credits_unseen [OF ch(1) n])
  have due: "points_due d h c (x # ec) = unat ?S * unat ?E + points_due d h c ec"
    by (simp add: points_due_def x E)
  have "unat ?S * unat ?E < 2 ^ 128" using Cons.prems(3) due by linarith
  then have mul: "unat (to_u128 ?S * to_u128 ?E) = unat ?S * unat ?E"
    by (subst unat_mult_no_wrap) simp_all
  then have p: "unat (p + to_u128 ?S * to_u128 ?E) = unat p + unat ?S * unat ?E"
    using Cons.prems(3) due by (subst unat_add_no_wrap) simp_all
  have step: "points_loop d h c (x # ec) p n
      = points_loop d h c ec (p + to_u128 ?S * to_u128 ?E) (max n f)"
    by (simp add: x Let_def)
  have "max n f = c \<or> max n f = max c f" using n ch(1) by (auto simp: max.assoc max_absorb2)
  note IH = Cons.IH [OF ch(2) _ , of "max n f" "p + to_u128 ?S * to_u128 ?E"]
  have "unat (fst (points_loop d h c ec (p + to_u128 ?S * to_u128 ?E) (max n f)))
      = unat p + unat ?S * unat ?E + points_due d h c ec
    \<and> snd (points_loop d h c ec (p + to_u128 ?S * to_u128 ?E) (max n f))
      = (if ec = [] then max n f else max (max n f) (fst (snd (last ec))))"
    using IH \<open>max n f = c \<or> max n f = max c f\<close> ch(3) Cons.prems(3) due by (simp add: p)
  moreover have "max (max n f) (fst (snd (last ec))) = max n (fst (snd (last ec)))" if "ec \<noteq> []"
    using credits_chained_last [OF ch(2) that] ch(3) [OF that] by (simp add: max.assoc max_absorb2)
  ultimately show ?case unfolding step due by (simp add: x)
qed (simp add: points_due_def)

lemma credits_final_le:
  "credits_chained ec \<Longrightarrow> x \<in> set ec \<Longrightarrow> fst (snd x) \<le> fst (snd (last ec))"
proof (induction ec)
  case (Cons y ec)
  show ?case
  proof (cases "x \<in> set ec")
    case True
    then show ?thesis using Cons by (cases y) (auto simp: credits_chained_Cons)
  next
    case False
    with Cons.prems have "x = y" by simp
    then show ?thesis using Cons.prems(1) credits_chained_last [of ec]
      by (cases y) (auto simp: credits_chained_Cons)
  qed
qed simp

lemma points_due_no_wrap:
  assumes "credits_chained ec"
  shows "points_due d h c ec < 2 ^ 128"
proof (cases "ec = []")
  case False
  have "(\<Sum>x\<leftarrow>ec. unseen c x) \<le> max (unat c) (unat (fst (snd (last ec))))"
    using unseen_total [OF assms False, of c] by linarith
  also have "\<dots> < 2 ^ 64" by simp
  finally have "unat (delegated_stake d) * (\<Sum>x\<leftarrow>ec. unseen c x) < 2 ^ 64 * 2 ^ 64"
    by (intro mult_strict_mono) simp_all
  with points_due_le [of d h c ec] show ?thesis by simp
qed (simp add: points_due_def)

lemma points_due_zero:
  assumes "credits_chained ec" "ec \<noteq> []" "fst (snd (last ec)) \<le> c"
  shows "points_due d h c ec = 0"
proof -
  have "unseen c x = 0" if "x \<in> set ec" for x
    using credits_final_le [OF assms(1) that] assms(3) by (cases x) (auto simp: word_le_nat_alt)
  then show ?thesis by (simp add: points_due_def sum_list_eq_0_iff)
qed

lemma points_and_credits_spec:
  assumes "credits_chained (epoch_credits vs)"
  shows "unat (fst (calculate_stake_points_and_credits s vs h))
      = points_due (stake_delegation s) h (credits_observed s) (epoch_credits vs)
    \<and> snd (calculate_stake_points_and_credits s vs h) = max (credits_observed s) (credits vs)"
proof (cases "credits vs \<le> credits_observed s")
  case True
  have "points_due (stake_delegation s) h (credits_observed s) (epoch_credits vs) = 0"
    using points_due_zero [OF assms] True
    by (cases "epoch_credits vs = []") (simp_all add: credits_def points_due_def)
  with True show ?thesis by (simp add: calculate_stake_points_and_credits_def max_absorb1)
next
  case False
  then have "epoch_credits vs \<noteq> []" by (auto simp: credits_def)
  with False points_loop_spec [OF assms, of "credits_observed s" "credits_observed s" 0 "stake_delegation s" h]
    points_due_no_wrap [OF assms, of "stake_delegation s" h "credits_observed s"]
  show ?thesis by (simp add: calculate_stake_points_and_credits_def Let_def credits_def)
qed

text \<open>C20: The points a stake earns are exactly, epoch by epoch, its effective stake times the credits
  of the vote account it has not observed, computed without overflow; the new value of
  \<open>credits_observed\<close> is the larger of the old one and the credits of the vote account; and the
  points are at most the delegated stake times the credits gained since.
\<close>

theorem stake_points_exact:
  assumes "credits_chained (epoch_credits vs)"
  shows "unat (fst (calculate_stake_points_and_credits s vs h))
      = points_due (stake_delegation s) h (credits_observed s) (epoch_credits vs)
    \<and> snd (calculate_stake_points_and_credits s vs h) = max (credits_observed s) (credits vs)
    \<and> unat (calculate_stake_points s vs h)
      \<le> unat (delegated_stake (stake_delegation s)) * (unat (credits vs) - unat (credits_observed s))"
proof -
  let ?ec = "epoch_credits vs" and ?c = "credits_observed s"
  have "(\<Sum>x\<leftarrow>?ec. unseen ?c x) \<le> unat (credits vs) - unat ?c"
  proof (cases "?ec = []")
    case False
    then show ?thesis using unseen_total [OF assms False, of ?c] by (simp add: credits_def)
  qed simp
  then have "unat (delegated_stake (stake_delegation s)) * (\<Sum>x\<leftarrow>?ec. unseen ?c x)
      \<le> unat (delegated_stake (stake_delegation s)) * (unat (credits vs) - unat ?c)"
    by (rule mult_le_mono2)
  from order_trans [OF points_due_le this] points_and_credits_spec [OF assms, of s h]
  show ?thesis by (metis calculate_stake_points_def)
qed

definition example_voter :: vote_state where
  "example_voter = vote_state_default\<lparr>epoch_credits := [(0, 4, 0), (1, 10, 4)], commission := 10\<rparr>"

definition example_stake :: stake where
  "example_stake = \<lparr>stake_delegation = delegation_default\<lparr>delegated_stake := 100, activation_epoch := u64_MAX\<rparr>,
     credits_observed = 3\<rparr>"

lemma example_voter_chained: "credits_chained (epoch_credits example_voter)"
  by (simp add: example_voter_def credits_chained_Cons credits_chained_def)

lemma example_effective: "delegation_stake (stake_delegation example_stake) e None = 100" if "e < u64_MAX"
  using that by (simp add: example_stake_def delegation_stake_def delegation_default_def status_defs
      stake_activating_and_deactivating_def stake_and_activating_def is_bootstrap_def)

lemma example_fields:
  "epoch_credits example_voter = [(0, 4, 0), (1, 10, 4)]" "credits example_voter = 10"
  "credits_observed example_stake = 3" "delegated_stake (stake_delegation example_stake) = 100"
  "activation_epoch (stake_delegation example_stake) = u64_MAX"
  by (simp_all add: example_voter_def example_stake_def credits_def)

theorem stake_points_exact_witness:
  "unat (calculate_stake_points example_stake example_voter None) = 700
    \<and> snd (calculate_stake_points_and_credits example_stake example_voter None) = 10"
  using stake_points_exact [OF example_voter_chained, of example_stake None]
  by (simp add: calculate_stake_points_def points_due_def example_effective example_fields)

section \<open>What the rewards pay\<close>

lemma calculate_stake_rewards_le:
  assumes "calculate_stake_rewards e s pv vs h = Inr (Some (sr, vr, co))"
  shows "(unat sr + unat vr) * unat (points pv) \<le> unat (calculate_stake_points s vs h) * unat (rewards pv)"
proof -
  obtain pts n where pn: "calculate_stake_points_and_credits s vs h = (pts, n)" by force
  show ?thesis
  proof (cases "rewards pv = 0 \<or> activation_epoch (stake_delegation s) = e")
    case True
    then show ?thesis using assms by (auto simp: calculate_stake_rewards_def pn)
  next
    case False
    then obtain prod rew b where
      r: "checked_mul_w pts (to_u128 (rewards pv)) = Some prod" "try_u64 (prod div points pv) = Some rew"
        "commission_split vs rew = (vr, sr, b)"
      using assms by (auto simp: calculate_stake_rewards_def pn res_elim checked_div_w_def split: if_splits prod.splits)
    have "unat prod = unat pts * unat (rewards pv)" using checked_mul_w_unat [OF r(1)] by simp
    moreover have "unat rew = unat prod div unat (points pv)" using try_u64_unat [OF r(2)] by (simp add: unat_div)
    ultimately have "unat rew * unat (points pv) \<le> unat pts * unat (rewards pv)" by simp
    moreover have "(unat sr + unat vr) * unat (points pv) \<le> unat rew * unat (points pv)"
      using commission_split_le [OF r(3)] by (intro mult_le_mono1) simp
    ultimately show ?thesis unfolding calculate_stake_points_def pn fst_conv by (rule order_trans [rotated])
  qed
qed

text \<open>C21: A rewards round never pays out more than it has: for any stakes whose points add up to no
  more than the points the round was divided over, the rewards of stakers and voters together
  are at most the lamports of the round.
\<close>

theorem rewards_round_bounded:
  assumes "(\<Sum>(s, vs)\<leftarrow>stakes. unat (calculate_stake_points s vs h)) \<le> unat (points pv)" "points pv \<noteq> 0"
    and "list_all2 (\<lambda>(s, vs) (sr, vr, co).
           calculate_stake_rewards e s pv vs h = Inr (Some (sr, vr, co))) stakes payouts"
  shows "(\<Sum>(sr, vr, co)\<leftarrow>payouts. unat sr + unat vr) \<le> unat (rewards pv)"
proof -
  have "(\<Sum>(sr, vr, co)\<leftarrow>payouts. unat sr + unat vr) * unat (points pv)
      \<le> (\<Sum>(s, vs)\<leftarrow>stakes. unat (calculate_stake_points s vs h)) * unat (rewards pv)"
    using assms(3)
  proof (induction rule: list_all2_induct)
    case (Cons x stakes y payouts)
    then show ?case
      by (auto simp: distrib_right split: prod.splits dest!: calculate_stake_rewards_le intro: add_mono)
  qed simp
  also have "\<dots> \<le> unat (points pv) * unat (rewards pv)" by (rule mult_le_mono1 [OF assms(1)])
  finally show ?thesis using assms(2) unat_eq_0 [of "points pv"] by (simp add: mult.commute)
qed

lemma example_points: "calculate_stake_points_and_credits example_stake example_voter None = (700, 10)"
proof -
  have "unat (fst (calculate_stake_points_and_credits example_stake example_voter None)) = unat (700 :: u128)
    \<and> snd (calculate_stake_points_and_credits example_stake example_voter None) = 10"
    using points_and_credits_spec [OF example_voter_chained, of example_stake None]
    by (simp add: points_due_def example_effective example_fields)
  then show ?thesis by (metis prod.collapse word_unat_eq_iff)
qed

lemma example_rewards:
  "calculate_stake_rewards 7 example_stake \<lparr>rewards = 30, points = 700\<rparr> example_voter None = Inr (Some (27, 3, 10))"
proof -
  have "commission_split example_voter 30 = (3, 27, True)"
    by (simp add: commission_split_def example_voter_def Let_def to_u128_def min_def)
  then show ?thesis
    by (simp add: calculate_stake_rewards_def example_points checked_mul_w_def checked_div_w_def try_u64_def
        to_u128_def example_fields)
qed

theorem rewards_round_bounded_witness:
  "(\<Sum>(sr, vr, co)\<leftarrow>[(27 :: u64, 3 :: u64, 10 :: u64)]. unat sr + unat vr) \<le> 30"
  using rewards_round_bounded [where stakes = "[(example_stake, example_voter)]" and h = None
      and pv = "\<lparr>rewards = 30, points = 700\<rparr>" and e = 7 and payouts = "[(27, 3, 10)]"]
  by (simp add: example_rewards calculate_stake_points_def example_points)

text \<open>C22: Credits are paid once: after a redemption the same vote account gives the stake no points,
  so a second redemption in a round that pays rewards yields nothing, and the delegation grew by
  exactly the staker's part.
\<close>

theorem redeem_once:
  assumes "redeem_stake_rewards e pv vs h s = Inr (Some ((sr, vr), s'))" "credits_chained (epoch_credits vs)"
    and "rewards pv \<noteq> 0" "activation_epoch (stake_delegation s) \<noteq> e"
  shows "redeem_stake_rewards e pv vs h s' = Inr None
    \<and> credits_observed s' = max (credits_observed s) (credits vs)
    \<and> delegated_stake (stake_delegation s') = delegated_stake (stake_delegation s) + sr"
proof -
  obtain co where co: "calculate_stake_rewards e s pv vs h = Inr (Some (sr, vr, co))"
    and s': "s' = s\<lparr>credits_observed := co, stake_delegation := (stake_delegation s)
              \<lparr>delegated_stake := delegated_stake (stake_delegation s) + sr\<rparr>\<rparr>"
    using assms(1) by (auto simp: redeem_stake_rewards_def res_elim)
  have max: "co = max (credits_observed s) (credits vs)"
    using co points_and_credits_spec [OF assms(2), of s h]
    by (auto simp: calculate_stake_rewards_def res_elim split: if_splits prod.splits)
  then have "calculate_stake_points_and_credits s' vs h = (0, co)"
    by (simp add: calculate_stake_points_and_credits_def s')
  then have "calculate_stake_rewards e s' pv vs h = Inr None"
    using assms(3,4) by (simp add: calculate_stake_rewards_def s')
  then show ?thesis using max by (simp add: redeem_stake_rewards_def s')
qed

theorem redeem_once_witness:
  "\<exists>s'. redeem_stake_rewards 7 \<lparr>rewards = 30, points = 700\<rparr> example_voter None example_stake = Inr (Some ((27, 3), s'))
    \<and> redeem_stake_rewards 7 \<lparr>rewards = 30, points = 700\<rparr> example_voter None s' = Inr None"
proof -
  obtain s' where s': "redeem_stake_rewards 7 \<lparr>rewards = 30, points = 700\<rparr> example_voter None example_stake
      = Inr (Some ((27, 3), s'))"
    by (simp add: redeem_stake_rewards_def example_rewards)
  have "activation_epoch (stake_delegation example_stake) \<noteq> 7" by (simp add: example_stake_def)
  with redeem_once [OF s' example_voter_chained] s' show ?thesis by simp
qed

text \<open>A redemption never panics when the stake's points are among the points of the round and
  their product with the lamports of the round fits 128 bits.
\<close>

theorem rewards_no_panic:
  assumes "unat (calculate_stake_points s vs h) \<le> unat (points pv)"
    and "unat (calculate_stake_points s vs h) * unat (rewards pv) < 2 ^ 128"
  shows "calculate_stake_rewards e s pv vs h \<noteq> Inl Panic \<and> redeem_stake_rewards e pv vs h s \<noteq> Inl Panic"
proof -
  obtain pts n where pn: "calculate_stake_points_and_credits s vs h = (pts, n)" by force
  with assms have le: "unat pts \<le> unat (points pv)" "unat pts * unat (rewards pv) < 2 ^ 128"
    by (simp_all add: calculate_stake_points_def)
  have "unat pts * unat (rewards pv) div unat (points pv) < 2 ^ 64" if "points pv \<noteq> 0"
  proof -
    have "unat pts * unat (rewards pv) \<le> unat (points pv) * unat (rewards pv)" by (rule mult_le_mono1 [OF le(1)])
    then have "unat pts * unat (rewards pv) div unat (points pv)
        \<le> unat (points pv) * unat (rewards pv) div unat (points pv)" by (rule div_le_mono)
    also have "\<dots> \<le> unat (rewards pv)" by simp
    also have "\<dots> < 2 ^ 64" by simp
    finally show ?thesis .
  qed
  moreover have "unat (pts * to_u128 (rewards pv)) = unat pts * unat (rewards pv)"
    using le(2) by (simp add: unat_mult_no_wrap)
  ultimately have "calculate_stake_rewards e s pv vs h \<noteq> Inl Panic"
    using le(2) by (auto simp: calculate_stake_rewards_def pn and_then_panic checked_mul_w_def checked_div_w_def
        try_u64_def unat_div split: if_splits prod.splits)
  then show ?thesis by (simp add: redeem_stake_rewards_def and_then_panic)
qed

theorem rewards_no_panic_witness:
  "redeem_stake_rewards 7 \<lparr>rewards = 30, points = 700\<rparr> example_voter None example_stake \<noteq> Inl Panic"
  using rewards_no_panic [of example_stake example_voter None "\<lparr>rewards = 30, points = 700\<rparr>" 7]
  by (simp add: calculate_stake_points_def example_points)

section \<open>Facts for the stake program\<close>

lemma redeem_rewards_effect:
  assumes "redeem_rewards c e (Stake m s) vs pv h a = Inr ((sr, vr), a')"
  obtains co where "unat (lamports a') = unat (lamports a) + unat sr" "owner a' = owner a"
    "length (data a') = length (data a)"
    "codec_ok c \<Longrightarrow> get_state c a' = Inr (Stake m (s\<lparr>credits_observed := co,
       stake_delegation := (stake_delegation s)\<lparr>delegated_stake := delegated_stake (stake_delegation s) + sr\<rparr>\<rparr>))"
  using assms
  by (auto simp: redeem_rewards_def redeem_stake_rewards_def res_elim acct word_nat codec_ok_def
      split: option.splits)

end

