(* ===== verification/Stake_Program.thy ===== *)
theory Stake_Program
  imports Stake_Rewards
begin

text \<open>
  The stake program: the handlers of \<open>programs/stake/src/stake_state.rs\<close> over the account store.
  A handler reads and writes the accounts it is given in the order of the sources; accounts passed
  twice are one cell of the store, so aliasing is part of the model. The log messages
  (\<open>ic_msg!\<close>) are left out.
\<close>

section \<open>Reading a stake account\<close>

type_synonym 'b stake_codec = "(stake_state, 'b) codec"

definition stake_state_from :: "'b stake_codec \<Rightarrow> 'b account \<Rightarrow> stake_state option" where
  "stake_state_from c a = (case get_state c a of Inr s \<Rightarrow> Some s | Inl _ \<Rightarrow> None)"

definition stake_from :: "'b stake_codec \<Rightarrow> 'b account \<Rightarrow> stake option" where
  "stake_from c a = Option.bind (stake_state_from c a) state_stake"

definition delegation_from :: "'b stake_codec \<Rightarrow> 'b account \<Rightarrow> delegation option" where
  "delegation_from c a = Option.bind (stake_state_from c a) state_delegation"

definition authorized_from :: "'b stake_codec \<Rightarrow> 'b account \<Rightarrow> authorized option" where
  "authorized_from c a = Option.bind (stake_state_from c a) state_authorized"

definition lockup_from :: "'b stake_codec \<Rightarrow> 'b account \<Rightarrow> lockup option" where
  "lockup_from c a = Option.bind (stake_state_from c a) state_lockup"

definition meta_from :: "'b stake_codec \<Rightarrow> 'b account \<Rightarrow> meta option" where
  "meta_from c a = Option.bind (stake_state_from c a) state_meta"

section \<open>Initialization and authorities\<close>

definition MINIMUM_STAKE_DELEGATION :: u64 where
  "MINIMUM_STAKE_DELEGATION = 1"

definition stake_initialize ::
  "'b stake_codec \<Rightarrow> keyed_account \<Rightarrow> authorized \<Rightarrow> lockup \<Rightarrow> rent \<Rightarrow> 'b store \<Rightarrow> 'b store ires" where
  "stake_initialize c me auth l r st =
     and_then (ensure (length (data (acct st me)) = STAKE_STATE_SIZE) InvalidAccountData) (\<lambda>_.
     and_then (get_state c (acct st me)) (\<lambda>state. case state of
       Uninitialized \<Rightarrow>
         let reserve = minimum_balance r (length (data (acct st me)));
             min_balance = reserve + MINIMUM_STAKE_DELEGATION
         in if min_balance \<le> lamports (acct st me) then
              upd_account me (set_state c (Initialized
                \<lparr>rent_exempt_reserve = reserve, meta_authorized = auth, meta_lockup = l\<rparr>)) st
            else fail InsufficientFunds
     | _ \<Rightarrow> fail InvalidAccountData))"

definition stake_authorize_account ::
  "'b stake_codec \<Rightarrow> keyed_account \<Rightarrow> pubkey set \<Rightarrow> pubkey \<Rightarrow> stake_authorize \<Rightarrow> bool \<Rightarrow> clock \<Rightarrow> pubkey option
    \<Rightarrow> 'b store \<Rightarrow> 'b store ires" where
  "stake_authorize_account c me signers new_authority sa require_custodian clk custodian st =
     and_then (get_state c (acct st me)) (\<lambda>state.
     let auth = (\<lambda>m. and_then (authorized_authorize signers new_authority sa
                   (if require_custodian then Some (meta_lockup m, clk, custodian) else None) (meta_authorized m))
                 (\<lambda>a. Inr (m\<lparr>meta_authorized := a\<rparr>)))
     in case state of
       Stake m s \<Rightarrow> and_then (auth m) (\<lambda>m'. upd_account me (set_state c (Stake m' s)) st)
     | Initialized m \<Rightarrow> and_then (auth m) (\<lambda>m'. upd_account me (set_state c (Initialized m')) st)
     | _ \<Rightarrow> fail InvalidAccountData)"

definition stake_authorize_with_seed ::
  "'b stake_codec \<Rightarrow> (pubkey \<Rightarrow> string \<Rightarrow> pubkey \<Rightarrow> hash) \<Rightarrow> keyed_account \<Rightarrow> keyed_account \<Rightarrow> string \<Rightarrow> pubkey
    \<Rightarrow> pubkey \<Rightarrow> stake_authorize \<Rightarrow> bool \<Rightarrow> clock \<Rightarrow> pubkey option \<Rightarrow> 'b store \<Rightarrow> 'b store ires" where
  "stake_authorize_with_seed c hashv me authority_base authority_seed authority_owner new_authority sa
       require_custodian clk custodian st =
     and_then (case signer_key authority_base of
         Some base \<Rightarrow> and_then (create_with_seed hashv base authority_seed authority_owner) (\<lambda>k. Inr {k})
       | None \<Rightarrow> Inr {}) (\<lambda>signers.
     stake_authorize_account c me signers new_authority sa require_custodian clk custodian st)"

definition stake_set_lockup ::
  "'b stake_codec \<Rightarrow> keyed_account \<Rightarrow> lockup_args \<Rightarrow> pubkey set \<Rightarrow> clock \<Rightarrow> 'b store \<Rightarrow> 'b store ires" where
  "stake_set_lockup c me args signers clk st =
     and_then (get_state c (acct st me)) (\<lambda>state. case state of
       Initialized m \<Rightarrow> and_then (meta_set_lockup args signers clk m)
         (\<lambda>m'. upd_account me (set_state c (Initialized m')) st)
     | Stake m s \<Rightarrow> and_then (meta_set_lockup args signers clk m)
         (\<lambda>m'. upd_account me (set_state c (Stake m' s)) st)
     | _ \<Rightarrow> fail InvalidAccountData)"

section \<open>Delegation\<close>

definition redelegate ::
  "u64 \<Rightarrow> pubkey \<Rightarrow> vote_state \<Rightarrow> clock \<Rightarrow> stake_history \<Rightarrow> stake_config \<Rightarrow> stake \<Rightarrow> (stake_error, stake) res" where
  "redelegate stake_lamports voter vs clk history config s =
     (let d = stake_delegation s in
      if stake_stake s (clock_epoch clk) (Some history) \<noteq> 0 then
        (if voter_pubkey d = voter \<and> clock_epoch clk = deactivation_epoch d
         then Inr (s\<lparr>stake_delegation := d\<lparr>deactivation_epoch := u64_MAX\<rparr>\<rparr>)
         else fail TooSoonToRedelegate)
      else Inr (s\<lparr>stake_delegation := d\<lparr>delegated_stake := stake_lamports,
             activation_epoch := clock_epoch clk, deactivation_epoch := u64_MAX, voter_pubkey := voter,
             warmup_cooldown_rate := config_warmup_cooldown_rate config\<rparr>,
           credits_observed := credits vs\<rparr>))"

definition new_stake :: "u64 \<Rightarrow> pubkey \<Rightarrow> vote_state \<Rightarrow> epoch \<Rightarrow> stake_config \<Rightarrow> stake" where
  "new_stake amount voter vs act config =
     \<lparr>stake_delegation = delegation_new voter amount act (config_warmup_cooldown_rate config),
      credits_observed = credits vs\<rparr>"

text \<open>\<open>ValidatedDelegatedInfo\<close> has one field, the amount.\<close>

definition validate_delegated_amount :: "keyed_account \<Rightarrow> meta \<Rightarrow> 'b store \<Rightarrow> u64" where
  "validate_delegated_amount ka m st = saturating_sub_w (lamports (acct st ka)) (rent_exempt_reserve m)"

definition stake_delegate ::
  "'b stake_codec \<Rightarrow> 'b vote_codec \<Rightarrow> keyed_account \<Rightarrow> keyed_account \<Rightarrow> clock \<Rightarrow> stake_history \<Rightarrow> stake_config
    \<Rightarrow> pubkey set \<Rightarrow> 'b store \<Rightarrow> 'b store ires" where
  "stake_delegate c vc me vote_account clk history config signers st =
     and_then (ensure (owner (acct st vote_account) = vote_program_id) IncorrectProgramId) (\<lambda>_.
     and_then (get_state c (acct st me)) (\<lambda>state. case state of
       Initialized m \<Rightarrow>
         and_then (authorized_check (meta_authorized m) signers Staker) (\<lambda>_.
         and_then (load_vote_state vc vote_account st) (\<lambda>vs.
         upd_account me (set_state c (Stake m (new_stake (validate_delegated_amount me m st)
           (unsigned_key vote_account) vs (clock_epoch clk) config))) st))
     | Stake m s \<Rightarrow>
         and_then (authorized_check (meta_authorized m) signers Staker) (\<lambda>_.
         and_then (load_vote_state vc vote_account st) (\<lambda>vs.
         and_then (map_err from_stake_error (redelegate (validate_delegated_amount me m st)
           (unsigned_key vote_account) vs clk history config s)) (\<lambda>s'.
         upd_account me (set_state c (Stake m s')) st)))
     | _ \<Rightarrow> fail InvalidAccountData))"

definition stake_deactivate ::
  "'b stake_codec \<Rightarrow> keyed_account \<Rightarrow> clock \<Rightarrow> pubkey set \<Rightarrow> 'b store \<Rightarrow> 'b store ires" where
  "stake_deactivate c me clk signers st =
     and_then (get_state c (acct st me)) (\<lambda>state. case state of
       Stake m s \<Rightarrow>
         and_then (authorized_check (meta_authorized m) signers Staker) (\<lambda>_.
         and_then (map_err from_stake_error (stake_deactivate_at (clock_epoch clk) s)) (\<lambda>s'.
         upd_account me (set_state c (Stake m s')) st))
     | _ \<Rightarrow> fail InvalidAccountData)"

section \<open>Split\<close>

text \<open>The division panics when its divisor is zero.\<close>

definition calculate_split_rent_exempt_reserve :: "u64 \<Rightarrow> u64 \<Rightarrow> u64 \<Rightarrow> u64 ires" where
  "calculate_split_rent_exempt_reserve source_reserve source_data_len split_data_len =
     and_then (unwrap (checked_div_w source_reserve (source_data_len + ACCOUNT_STORAGE_OVERHEAD)))
       (\<lambda>lamports_per_byte_year. Inr (lamports_per_byte_year * (split_data_len + ACCOUNT_STORAGE_OVERHEAD)))"

record validated_split_info =
  source_remaining_balance :: u64
  destination_rent_exempt_reserve :: u64

definition validate_split_amount ::
  "keyed_account \<Rightarrow> keyed_account \<Rightarrow> u64 \<Rightarrow> meta \<Rightarrow> stake option \<Rightarrow> 'b store \<Rightarrow> validated_split_info ires" where
  "validate_split_amount source_account destination_account l source_meta source_stake st =
     (let source_lamports = lamports (acct st source_account);
          destination_lamports = lamports (acct st destination_account) in
      and_then (ensure (l \<noteq> 0) InsufficientFunds) (\<lambda>_.
      and_then (ensure (l \<le> source_lamports) InsufficientFunds) (\<lambda>_.
      let source_minimum_balance = saturating_add_w (rent_exempt_reserve source_meta) MINIMUM_STAKE_DELEGATION;
          remaining = saturating_sub_w source_lamports l in
      and_then (ensure (remaining = 0 \<or> source_minimum_balance \<le> remaining) InsufficientFunds) (\<lambda>_.
      and_then (calculate_split_rent_exempt_reserve (rent_exempt_reserve source_meta)
          (of_nat (length (data (acct st source_account))))
          (of_nat (length (data (acct st destination_account))))) (\<lambda>destination_reserve.
      let destination_minimum_balance = saturating_add_w destination_reserve MINIMUM_STAKE_DELEGATION;
          destination_balance_deficit = saturating_sub_w destination_minimum_balance destination_lamports in
      and_then (ensure (destination_balance_deficit \<le> l) InsufficientFunds) (\<lambda>_.
      and_then (ensure (\<not> (source_stake \<noteq> None \<and> l < MINIMUM_STAKE_DELEGATION)) InsufficientFunds) (\<lambda>_.
      Inr \<lparr>source_remaining_balance = remaining,
           destination_rent_exempt_reserve = destination_reserve\<rparr>)))))))"

definition split_amounts :: "u64 \<Rightarrow> meta \<Rightarrow> validated_split_info \<Rightarrow> u64 \<Rightarrow> u64 \<times> u64" where
  "split_amounts l m info split_lamports =
     (if source_remaining_balance info = 0 then
        let remaining_stake_delta = saturating_sub_w l (rent_exempt_reserve m)
        in (remaining_stake_delta, remaining_stake_delta)
      else
        (l, saturating_sub_w l (saturating_sub_w (destination_rent_exempt_reserve info) split_lamports)))"

definition stake_split ::
  "'b stake_codec \<Rightarrow> keyed_account \<Rightarrow> u64 \<Rightarrow> keyed_account \<Rightarrow> pubkey set \<Rightarrow> 'b store \<Rightarrow> 'b store ires" where
  "stake_split c me l split signers st =
     and_then (ensure (owner (acct st split) = stake_program_id) IncorrectProgramId) (\<lambda>_.
     and_then (ensure (length (data (acct st split)) = STAKE_STATE_SIZE) InvalidAccountData) (\<lambda>_.
     and_then (get_state c (acct st split)) (\<lambda>split_state.
     and_then (ensure (split_state = Uninitialized) InvalidAccountData) (\<lambda>_.
     and_then (ensure (l \<le> lamports (acct st me)) InsufficientFunds) (\<lambda>_.
     and_then (get_state c (acct st me)) (\<lambda>state.
     and_then (case state of
         Stake m s \<Rightarrow>
           and_then (authorized_check (meta_authorized m) signers Staker) (\<lambda>_.
           and_then (validate_split_amount me split l m (Some s) st) (\<lambda>info.
           let amounts = split_amounts l m info (lamports (acct st split));
               remaining_stake_delta = fst amounts; split_stake_amount = snd amounts in
           and_then (map_err from_stake_error (stake_split_off remaining_stake_delta split_stake_amount s))
             (\<lambda>(new, s').
           and_then (upd_account me (set_state c (Stake m s')) st) (\<lambda>st1.
           upd_account split (set_state c (Stake
             (m\<lparr>rent_exempt_reserve := destination_rent_exempt_reserve info\<rparr>) new)) st1))))
       | Initialized m \<Rightarrow>
           and_then (authorized_check (meta_authorized m) signers Staker) (\<lambda>_.
           and_then (validate_split_amount me split l m None st) (\<lambda>info.
           upd_account split (set_state c (Initialized
             (m\<lparr>rent_exempt_reserve := destination_rent_exempt_reserve info\<rparr>))) st))
       | Uninitialized \<Rightarrow>
           and_then (ensure (unsigned_key me \<in> signers) MissingRequiredSignature) (\<lambda>_. Inr st)
       | RewardsPool \<Rightarrow> fail InvalidAccountData) (\<lambda>st1.
     and_then (if l = lamports (acct st1 me) then upd_account me (set_state c Uninitialized) st1 else Inr st1) (\<lambda>st2.
     and_then (upd_account split (checked_add_lamports l) st2) (\<lambda>st3.
     upd_account me (checked_sub_lamports l) st3)))))))))"

section \<open>Merge\<close>

datatype merge_kind =
    Inactive meta u64
  | ActivationEpoch meta stake
  | FullyActive meta stake

fun mk_meta :: "merge_kind \<Rightarrow> meta" where
  "mk_meta (Inactive m _) = m"
| "mk_meta (ActivationEpoch m _) = m"
| "mk_meta (FullyActive m _) = m"

fun active_stake :: "merge_kind \<Rightarrow> stake option" where
  "active_stake (Inactive _ _) = None"
| "active_stake (ActivationEpoch _ s) = Some s"
| "active_stake (FullyActive _ s) = Some s"

definition get_if_mergeable ::
  "'b stake_codec \<Rightarrow> keyed_account \<Rightarrow> clock \<Rightarrow> stake_history \<Rightarrow> 'b store \<Rightarrow> merge_kind ires" where
  "get_if_mergeable c ka clk history st =
     and_then (get_state c (acct st ka)) (\<lambda>state. case state of
       Stake m s \<Rightarrow>
         let status = stake_activating_and_deactivating (stake_delegation s) (clock_epoch clk) (Some history) in
         if effective status = 0 \<and> activating status = 0 \<and> deactivating status = 0
         then Inr (Inactive m (lamports (acct st ka)))
         else if effective status = 0 then Inr (ActivationEpoch m s)
         else if activating status = 0 \<and> deactivating status = 0 then Inr (FullyActive m s)
         else fail (from_stake_error MergeTransientStake)
     | Initialized m \<Rightarrow> Inr (Inactive m (lamports (acct st ka)))
     | _ \<Rightarrow> fail InvalidAccountData)"

definition metas_can_merge :: "meta \<Rightarrow> meta \<Rightarrow> clock \<Rightarrow> unit ires" where
  "metas_can_merge m source clk =
     (let can_merge_lockups = (meta_lockup m = meta_lockup source
        \<or> (\<not> is_in_force (meta_lockup m) clk None \<and> \<not> is_in_force (meta_lockup source) clk None))
      in ensure (meta_authorized m = meta_authorized source \<and> can_merge_lockups) (from_stake_error MergeMismatch))"

definition active_delegations_can_merge :: "delegation \<Rightarrow> delegation \<Rightarrow> unit ires" where
  "active_delegations_can_merge d source =
     (if voter_pubkey d \<noteq> voter_pubkey source then fail (from_stake_error MergeMismatch)
      else if f64_abs_lt_epsilon (f64_sub (warmup_cooldown_rate d) (warmup_cooldown_rate source))
        \<and> deactivation_epoch d = u64_MAX \<and> deactivation_epoch source = u64_MAX
      then Inr ()
      else fail (from_stake_error MergeMismatch))"

definition active_stakes_can_merge :: "stake \<Rightarrow> stake \<Rightarrow> unit ires" where
  "active_stakes_can_merge s source =
     and_then (active_delegations_can_merge (stake_delegation s) (stake_delegation source)) (\<lambda>_.
     ensure (credits_observed s = credits_observed source) (from_stake_error MergeMismatch))"

definition stake_weighted_credits_observed :: "stake \<Rightarrow> u64 \<Rightarrow> u64 \<Rightarrow> u64 option" where
  "stake_weighted_credits_observed s absorbed_lamports absorbed_credits_observed =
     (if credits_observed s = absorbed_credits_observed then Some (credits_observed s)
      else
        Option.bind (checked_add_w (delegated_stake (stake_delegation s)) absorbed_lamports) (\<lambda>total.
        let total_stake = to_u128 total in
        Option.bind (checked_mul_w (to_u128 (credits_observed s)) (to_u128 (delegated_stake (stake_delegation s))))
          (\<lambda>stake_weighted_credits.
        Option.bind (checked_mul_w (to_u128 absorbed_credits_observed) (to_u128 absorbed_lamports))
          (\<lambda>absorbed_weighted_credits.
        Option.bind (checked_add_w stake_weighted_credits absorbed_weighted_credits) (\<lambda>sum.
        Option.bind (checked_add_w sum total_stake) (\<lambda>sum'.
        Option.bind (checked_sub_w sum' 1) (\<lambda>total_weighted_credits.
        Option.bind (checked_div_w total_weighted_credits total_stake) try_u64)))))))"

definition merge_delegation_stake_and_credits_observed ::
  "feature set \<Rightarrow> u64 \<Rightarrow> u64 \<Rightarrow> stake \<Rightarrow> stake ires" where
  "merge_delegation_stake_and_credits_observed fs absorbed_lamports absorbed_credits_observed s =
     and_then (if is_active fs Stake_merge_with_unmatched_credits_observed then
          and_then (ok_or (stake_weighted_credits_observed s absorbed_lamports absorbed_credits_observed) ArithmeticOverflow)
            (\<lambda>co. Inr (s\<lparr>credits_observed := co\<rparr>))
        else Inr s) (\<lambda>s1.
     and_then (checked_add (delegated_stake (stake_delegation s1)) absorbed_lamports) (\<lambda>total.
     Inr (s1\<lparr>stake_delegation := (stake_delegation s1)\<lparr>delegated_stake := total\<rparr>\<rparr>)))"

definition merge_kind_merge ::
  "feature set \<Rightarrow> merge_kind \<Rightarrow> merge_kind \<Rightarrow> clock \<Rightarrow> stake_state option ires" where
  "merge_kind_merge fs mk source clk =
     and_then (metas_can_merge (mk_meta mk) (mk_meta source) clk) (\<lambda>_.
     and_then (case (active_stake mk, active_stake source) of
         (Some s, Some src) \<Rightarrow>
           if is_active fs Stake_merge_with_unmatched_credits_observed
           then active_delegations_can_merge (stake_delegation s) (stake_delegation src)
           else active_stakes_can_merge s src
       | _ \<Rightarrow> Inr ()) (\<lambda>_.
     case (mk, source) of
       (Inactive _ _, Inactive _ _) \<Rightarrow> Inr None
     | (Inactive _ _, ActivationEpoch _ _) \<Rightarrow> Inr None
     | (ActivationEpoch m s, Inactive _ source_lamports) \<Rightarrow>
         and_then (checked_add (delegated_stake (stake_delegation s)) source_lamports) (\<lambda>total.
         Inr (Some (Stake m (s\<lparr>stake_delegation := (stake_delegation s)\<lparr>delegated_stake := total\<rparr>\<rparr>))))
     | (ActivationEpoch m s, ActivationEpoch source_meta source_stake) \<Rightarrow>
         and_then (checked_add (rent_exempt_reserve source_meta) (delegated_stake (stake_delegation source_stake)))
           (\<lambda>source_lamports.
         and_then (merge_delegation_stake_and_credits_observed fs source_lamports (credits_observed source_stake) s) (\<lambda>s'.
         Inr (Some (Stake m s'))))
     | (FullyActive m s, FullyActive _ source_stake) \<Rightarrow>
         and_then (merge_delegation_stake_and_credits_observed fs (delegated_stake (stake_delegation source_stake))
           (credits_observed source_stake) s) (\<lambda>s'.
         Inr (Some (Stake m s')))
     | _ \<Rightarrow> fail (from_stake_error MergeMismatch)))"

definition stake_merge ::
  "'b stake_codec \<Rightarrow> feature set \<Rightarrow> keyed_account \<Rightarrow> keyed_account \<Rightarrow> clock \<Rightarrow> stake_history \<Rightarrow> pubkey set
    \<Rightarrow> 'b store \<Rightarrow> 'b store ires" where
  "stake_merge c fs me source_account clk history signers st =
     and_then (ensure (owner (acct st source_account) = stake_program_id) IncorrectProgramId) (\<lambda>_.
     and_then (ensure (unsigned_key source_account \<noteq> unsigned_key me) InvalidArgument) (\<lambda>_.
     and_then (get_if_mergeable c me clk history st) (\<lambda>stake_merge_kind.
     and_then (authorized_check (meta_authorized (mk_meta stake_merge_kind)) signers Staker) (\<lambda>_.
     and_then (get_if_mergeable c source_account clk history st) (\<lambda>source_merge_kind.
     and_then (merge_kind_merge fs stake_merge_kind source_merge_kind clk) (\<lambda>merged.
     and_then (case merged of
         Some merged_state \<Rightarrow> upd_account me (set_state c merged_state) st
       | None \<Rightarrow> Inr st) (\<lambda>st1.
     and_then (upd_account source_account (set_state c Uninitialized) st1) (\<lambda>st2.
     let l = lamports (acct st2 source_account) in
     and_then (upd_account source_account (checked_sub_lamports l) st2) (\<lambda>st3.
     upd_account me (checked_add_lamports l) st3)))))))))"

section \<open>Withdrawal\<close>

text \<open>The reserve a withdrawal must leave in the account, and whether the account is staked.\<close>

definition withdraw_terms ::
  "keyed_account \<Rightarrow> clock \<Rightarrow> stake_history \<Rightarrow> pubkey \<Rightarrow> stake_state \<Rightarrow> (lockup \<times> u64 \<times> bool) ires" where
  "withdraw_terms me clk h who state =
     (case state of
         Stake m s \<Rightarrow>
           and_then (authorized_check (meta_authorized m) {who} StakeWithdrawer) (\<lambda>_.
           let staked = (if deactivation_epoch (stake_delegation s) \<le> clock_epoch clk
                         then delegation_stake (stake_delegation s) (clock_epoch clk) (Some h)
                         else delegated_stake (stake_delegation s)) in
           and_then (checked_add staked (rent_exempt_reserve m)) (\<lambda>staked_and_reserve.
           Inr (meta_lockup m, staked_and_reserve, staked \<noteq> 0)))
       | Initialized m \<Rightarrow>
           and_then (authorized_check (meta_authorized m) {who} StakeWithdrawer) (\<lambda>_.
           and_then (checked_add (rent_exempt_reserve m) MINIMUM_STAKE_DELEGATION) (\<lambda>reserve.
           Inr (meta_lockup m, reserve, False)))
       | Uninitialized \<Rightarrow>
           and_then (ensure (unsigned_key me \<in> {who}) MissingRequiredSignature) (\<lambda>_.
           Inr (lockup_default, 0, False))
       | RewardsPool \<Rightarrow> fail InvalidAccountData)"

definition stake_withdraw ::
  "'b stake_codec \<Rightarrow> keyed_account \<Rightarrow> u64 \<Rightarrow> keyed_account \<Rightarrow> clock \<Rightarrow> stake_history \<Rightarrow> keyed_account
    \<Rightarrow> keyed_account option \<Rightarrow> 'b store \<Rightarrow> 'b store ires" where
  "stake_withdraw c me l to clk history withdraw_authority custodian st =
     and_then (ok_or (signer_key withdraw_authority) MissingRequiredSignature) (\<lambda>withdraw_authority_pubkey.
     and_then (get_state c (acct st me)) (\<lambda>state.
     and_then (withdraw_terms me clk history withdraw_authority_pubkey state) (\<lambda>(lk, reserve, is_staked).
     let custodian_pubkey = Option.bind custodian signer_key in
     and_then (ensure (\<not> is_in_force lk clk custodian_pubkey) (from_stake_error LockupInForce)) (\<lambda>_.
     and_then (checked_add l reserve) (\<lambda>lamports_and_reserve.
     and_then (ensure (\<not> (is_staked \<and> lamports (acct st me) < lamports_and_reserve)) InsufficientFunds) (\<lambda>_.
     and_then (if l \<noteq> lamports (acct st me) \<and> lamports (acct st me) < lamports_and_reserve
               then and_then (assert_that (\<not> is_staked)) (\<lambda>_. fail InsufficientFunds) else Inr ()) (\<lambda>_.
     and_then (if l = lamports (acct st me) then upd_account me (set_state c Uninitialized) st else Inr st) (\<lambda>st1.
     and_then (upd_account me (checked_sub_lamports l) st1) (\<lambda>st2.
     upd_account to (checked_add_lamports l) st2)))))))))"

section \<open>Accounts made at genesis\<close>

definition create_lockup_stake_account ::
  "('b::zero) stake_codec \<Rightarrow> authorized \<Rightarrow> lockup \<Rightarrow> rent \<Rightarrow> u64 \<Rightarrow> 'b account ires" where
  "create_lockup_stake_account c auth l r lam =
     (let a = account_new lam STAKE_STATE_SIZE stake_program_id;
          reserve = minimum_balance r (length (data a)) in
      and_then (assert_that (reserve \<le> lam)) (\<lambda>_.
      case set_state c (Initialized \<lparr>rent_exempt_reserve = reserve, meta_authorized = auth, meta_lockup = l\<rparr>) a of
        Inr a' \<Rightarrow> Inr a' | Inl _ \<Rightarrow> Inl Panic))"

definition do_create_account ::
  "('b::zero) stake_codec \<Rightarrow> 'b vote_codec \<Rightarrow> pubkey \<Rightarrow> pubkey \<Rightarrow> 'b account \<Rightarrow> rent \<Rightarrow> u64 \<Rightarrow> epoch \<Rightarrow> 'b account ires" where
  "do_create_account c vc auth voter vote_account r lam act =
     (let a = account_new lam STAKE_STATE_SIZE stake_program_id in
      and_then (unwrap (vote_from vc vote_account)) (\<lambda>vs.
      let reserve = minimum_balance r (length (data a)) in
      case set_state c (Stake (meta_default\<lparr>meta_authorized := authorized_auto auth, rent_exempt_reserve := reserve\<rparr>)
             (new_stake (lam - reserve) voter vs act stake_config_default)) a of
        Inr a' \<Rightarrow> Inr a' | Inl _ \<Rightarrow> Inl Panic))"

definition stake_create_account ::
  "('b::zero) stake_codec \<Rightarrow> 'b vote_codec \<Rightarrow> pubkey \<Rightarrow> pubkey \<Rightarrow> 'b account \<Rightarrow> rent \<Rightarrow> u64 \<Rightarrow> 'b account ires" where
  "stake_create_account c vc auth voter vote_account r lam =
     do_create_account c vc auth voter vote_account r lam u64_MAX"

definition create_account_with_activation_epoch ::
  "('b::zero) stake_codec \<Rightarrow> 'b vote_codec \<Rightarrow> pubkey \<Rightarrow> pubkey \<Rightarrow> 'b account \<Rightarrow> rent \<Rightarrow> u64 \<Rightarrow> epoch \<Rightarrow> 'b account ires" where
  "create_account_with_activation_epoch c vc auth voter vote_account r lam act =
     do_create_account c vc auth voter vote_account r lam act"

section \<open>A stake account seen from outside\<close>

text \<open>
  What the properties speak of: owner, lamports, data length and decoded state of an account.
  Every primitive a handler uses is a simple update of this view.
\<close>

record stake_view =
  sv_owner :: pubkey
  sv_lam :: nat
  sv_len :: nat
  sv_state :: "stake_state option"

definition view :: "'b stake_codec \<Rightarrow> 'b store \<Rightarrow> pubkey \<Rightarrow> stake_view" where
  "view c st k = \<lparr>sv_owner = owner (st k), sv_lam = unat (lamports (st k)), sv_len = length (data (st k)),
     sv_state = decode c (data (st k))\<rparr>"

lemma view_acct [simp]:
  "sv_owner (view c st (key ka)) = owner (acct st ka)" "sv_lam (view c st (key ka)) = unat (lamports (acct st ka))"
  "sv_len (view c st (key ka)) = length (data (acct st ka))"
  by (simp_all add: view_def acct_def)

lemma get_state_view:
  "get_state c (acct st ka) = Inr s \<longleftrightarrow> sv_state (view c st (key ka)) = Some s"
  by (simp add: acct view_def acct_def)

lemma view_set_state:
  assumes "codec_ok c" "upd_account ka (set_state c s) st = Inr st'"
  shows "view c st' = (view c st)(key ka := (view c st (key ka))\<lparr>sv_state := Some s\<rparr>)"
  using assms by (auto simp: acct acct_def view_def fun_eq_iff codec_ok_def)

lemma view_add_lamports:
  assumes "upd_account ka (checked_add_lamports l) st = Inr st'"
  shows "view c st' = (view c st)(key ka := (view c st (key ka))\<lparr>sv_lam := sv_lam (view c st (key ka)) + unat l\<rparr>)"
  using assms by (auto simp: acct acct_def view_def fun_eq_iff word_nat)

lemma view_sub_lamports:
  assumes "upd_account ka (checked_sub_lamports l) st = Inr st'"
  shows "view c st' = (view c st)(key ka := (view c st (key ka))\<lparr>sv_lam := sv_lam (view c st (key ka)) - unat l\<rparr>)
    \<and> unat l \<le> sv_lam (view c st (key ka))"
  using assms by (auto simp: acct acct_def view_def fun_eq_iff word_nat word_le_nat_alt)

lemmas set_lamports_simps = view_set_state view_add_lamports view_sub_lamports

section \<open>What a successful handler did\<close>

lemma stake_initialize_Inr:
  assumes "stake_initialize c me auth l r st = Inr st'"
  shows "get_state c (acct st me) = Inr Uninitialized \<and> length (data (acct st me)) = STAKE_STATE_SIZE
    \<and> minimum_balance r STAKE_STATE_SIZE + MINIMUM_STAKE_DELEGATION \<le> lamports (acct st me)
    \<and> upd_account me (set_state c (Initialized \<lparr>rent_exempt_reserve = minimum_balance r STAKE_STATE_SIZE,
         meta_authorized = auth, meta_lockup = l\<rparr>)) st = Inr st'"
proof -
  obtain state where g: "get_state c (acct st me) = Inr state"
    using assms by (auto simp: stake_initialize_def res_elim)
  show ?thesis using assms by (cases state) (auto simp: stake_initialize_def g res_elim Let_def split: if_splits)
qed

definition meta_change :: "stake_state \<Rightarrow> meta \<Rightarrow> stake_state" where
  "meta_change state m' = (case state of Stake m s \<Rightarrow> Stake m' s | Initialized m \<Rightarrow> Initialized m' | x \<Rightarrow> x)"

lemma stake_authorize_account_Inr:
  assumes "stake_authorize_account c me sg n sa rq clk cu st = Inr st'"
  obtains state m a where "get_state c (acct st me) = Inr state" "state_meta state = Some m"
    "authorized_authorize sg n sa (if rq then Some (meta_lockup m, clk, cu) else None) (meta_authorized m) = Inr a"
    "upd_account me (set_state c (meta_change state (m\<lparr>meta_authorized := a\<rparr>))) st = Inr st'"
proof -
  obtain state where g: "get_state c (acct st me) = Inr state"
    using assms by (auto simp: stake_authorize_account_def res_elim)
  show thesis using assms g that [OF g]
    by (cases state) (auto simp: stake_authorize_account_def res_elim Let_def meta_change_def)
qed

lemma stake_set_lockup_Inr:
  assumes "stake_set_lockup c me args sg clk st = Inr st'"
  obtains state m m' where "get_state c (acct st me) = Inr state" "state_meta state = Some m"
    "meta_set_lockup args sg clk m = Inr m'" "upd_account me (set_state c (meta_change state m')) st = Inr st'"
proof -
  obtain state where g: "get_state c (acct st me) = Inr state"
    using assms by (auto simp: stake_set_lockup_def res_elim)
  show thesis using assms g that [OF g]
    by (cases state) (auto simp: stake_set_lockup_def res_elim meta_change_def)
qed

lemma stake_delegate_Inr:
  assumes "stake_delegate c vc me va clk h cfg sg st = Inr st'"
  obtains state m s' vs where "get_state c (acct st me) = Inr state" "state_meta state = Some m"
    "staker (meta_authorized m) \<in> sg" "owner (acct st va) = vote_program_id" "load_vote_state vc va st = Inr vs"
    "state = Initialized m \<and> s' = new_stake (validate_delegated_amount me m st) (key va) vs (clock_epoch clk) cfg
     \<or> (\<exists>s. state = Stake m s \<and> redelegate (validate_delegated_amount me m st) (key va) vs clk h cfg s = Inr s')"
    "upd_account me (set_state c (Stake m s')) st = Inr st'"
proof -
  obtain state where g: "get_state c (acct st me) = Inr state"
    using assms by (auto simp: stake_delegate_def res_elim)
  show thesis using assms g that [OF g]
    by (cases state) (auto simp: stake_delegate_def res_elim authorized_check_def unsigned_key_def)
qed

lemma stake_deactivate_Inr:
  assumes "stake_deactivate c me clk sg st = Inr st'"
  obtains m s where "get_state c (acct st me) = Inr (Stake m s)" "staker (meta_authorized m) \<in> sg"
    "deactivation_epoch (stake_delegation s) = u64_MAX"
    "upd_account me (set_state c (Stake m (s\<lparr>stake_delegation :=
       (stake_delegation s)\<lparr>deactivation_epoch := clock_epoch clk\<rparr>\<rparr>))) st = Inr st'"
proof -
  obtain state where g: "get_state c (acct st me) = Inr state"
    using assms by (auto simp: stake_deactivate_def res_elim)
  show thesis using assms g that
    by (cases state) (auto simp: stake_deactivate_def res_elim authorized_check_def stake_deactivate_at_def split: if_splits)
qed

text \<open>A split writes the state of both accounts, closes an emptied source, and moves the lamports.\<close>

definition split_writes ::
  "'b stake_codec \<Rightarrow> keyed_account \<Rightarrow> u64 \<Rightarrow> keyed_account \<Rightarrow> pubkey set \<Rightarrow> 'b store \<Rightarrow> stake_state \<Rightarrow> 'b store \<Rightarrow> bool" where
  "split_writes c me l split sg st state st1 =
     (case state of
        Stake m s \<Rightarrow> staker (meta_authorized m) \<in> sg \<and>
          (\<exists>info new s' st0. validate_split_amount me split l m (Some s) st = Inr info
            \<and> stake_split_off (fst (split_amounts l m info (lamports (acct st split))))
                 (snd (split_amounts l m info (lamports (acct st split)))) s = Inr (new, s')
            \<and> upd_account me (set_state c (Stake m s')) st = Inr st0
            \<and> upd_account split (set_state c (Stake
                 (m\<lparr>rent_exempt_reserve := destination_rent_exempt_reserve info\<rparr>) new)) st0 = Inr st1)
      | Initialized m \<Rightarrow> staker (meta_authorized m) \<in> sg \<and>
          (\<exists>info. validate_split_amount me split l m None st = Inr info
            \<and> upd_account split (set_state c (Initialized
                 (m\<lparr>rent_exempt_reserve := destination_rent_exempt_reserve info\<rparr>))) st = Inr st1)
      | Uninitialized \<Rightarrow> key me \<in> sg \<and> st1 = st
      | RewardsPool \<Rightarrow> False)"

lemma stake_split_Inr:
  assumes "stake_split c me l split sg st = Inr st'"
  obtains state st1 st2 st3 where "get_state c (acct st me) = Inr state"
    "get_state c (acct st split) = Inr Uninitialized" "owner (acct st split) = stake_program_id"
    "length (data (acct st split)) = STAKE_STATE_SIZE" "l \<le> lamports (acct st me)"
    "split_writes c me l split sg st state st1"
    "(if l = lamports (acct st1 me) then upd_account me (set_state c Uninitialized) st1 else Inr st1) = Inr st2"
    "upd_account split (checked_add_lamports l) st2 = Inr st3" "upd_account me (checked_sub_lamports l) st3 = Inr st'"
proof -
  obtain state where g: "get_state c (acct st me) = Inr state"
    using assms by (auto simp: stake_split_def res_elim)
  show thesis using assms g that [OF g]
    by (cases state)
      (auto simp: stake_split_def res_elim split_writes_def authorized_check_def unsigned_key_def Let_def)
qed

lemma stake_merge_Inr:
  assumes "stake_merge c fs me src clk h sg st = Inr st'"
  obtains mk smk merged st1 st2 st3 where "owner (acct st src) = stake_program_id" "key src \<noteq> key me"
    "get_if_mergeable c me clk h st = Inr mk" "staker (meta_authorized (mk_meta mk)) \<in> sg"
    "get_if_mergeable c src clk h st = Inr smk" "merge_kind_merge fs mk smk clk = Inr merged"
    "(case merged of Some x \<Rightarrow> upd_account me (set_state c x) st | None \<Rightarrow> Inr st) = Inr st1"
    "upd_account src (set_state c Uninitialized) st1 = Inr st2"
    "upd_account src (checked_sub_lamports (lamports (acct st2 src))) st2 = Inr st3"
    "upd_account me (checked_add_lamports (lamports (acct st2 src))) st3 = Inr st'"
  using assms that
  by (auto simp: stake_merge_def res_elim Let_def authorized_check_def unsigned_key_def)

lemma stake_withdraw_Inr:
  assumes "stake_withdraw c me l to clk h wa cu st = Inr st'"
  obtains who state lk reserve is_staked total st1 st2 where "signer_key wa = Some who"
    "get_state c (acct st me) = Inr state" "withdraw_terms me clk h who state = Inr (lk, reserve, is_staked)"
    "\<not> is_in_force lk clk (Option.bind cu signer_key)" "checked_add l reserve = Inr total"
    "is_staked \<longrightarrow> total \<le> lamports (acct st me)" "l \<noteq> lamports (acct st me) \<longrightarrow> total \<le> lamports (acct st me)"
    "(if l = lamports (acct st me) then upd_account me (set_state c Uninitialized) st else Inr st) = Inr st1"
    "upd_account me (checked_sub_lamports l) st1 = Inr st2" "upd_account to (checked_add_lamports l) st2 = Inr st'"
proof -
  have "(if b then and_then m (\<lambda>_. fail e) else Inr ()) = Inr u \<longleftrightarrow> \<not> b" for b u and m :: "unit ires" and e
    by (auto simp: res_elim)
  with assms that show thesis unfolding stake_withdraw_def Let_def by (auto simp: res_elim not_less)
qed

section \<open>Conservation of lamports\<close>

lemma opt_set_state_total:
  "(if b then upd_account ka (set_state c s) st else Inr st) = Inr st' \<Longrightarrow> total_lamports st' = total_lamports st"
  by (auto split: if_splits dest: set_state_total)

lemma stake_setters_total:
  "stake_initialize c me a l r st = Inr st' \<Longrightarrow> total_lamports st' = total_lamports st"
  "stake_authorize_account c me sg n sa rq clk cu st = Inr st' \<Longrightarrow> total_lamports st' = total_lamports st"
  "stake_set_lockup c me args sg clk st = Inr st' \<Longrightarrow> total_lamports st' = total_lamports st"
  "stake_delegate c vc me va clk h cfg sg st = Inr st' \<Longrightarrow> total_lamports st' = total_lamports st"
  "stake_deactivate c me clk sg st = Inr st' \<Longrightarrow> total_lamports st' = total_lamports st"
  by (blast dest: stake_initialize_Inr set_state_total elim: stake_authorize_account_Inr stake_set_lockup_Inr
      stake_delegate_Inr stake_deactivate_Inr)+

lemma stake_authorize_with_seed_Inr:
  assumes "stake_authorize_with_seed c hv me b sd ow n sa rq clk cu st = Inr st'"
  obtains sg where "stake_authorize_account c me sg n sa rq clk cu st = Inr st'"
    "case signer_key b of None \<Rightarrow> sg = {} | Some base \<Rightarrow> \<exists>k. create_with_seed hv base sd ow = Inr k \<and> sg = {k}"
  using assms that by (auto simp: stake_authorize_with_seed_def res_elim split: option.splits)

lemma split_writes_total:
  "split_writes c me l split sg st state st1 \<Longrightarrow> total_lamports st1 = total_lamports st"
  by (cases state) (auto simp: split_writes_def dest!: set_state_total)

lemma stake_split_total:
  assumes "stake_split c me l split sg st = Inr st'"
  shows "total_lamports st' = total_lamports st"
  using assms by (rule stake_split_Inr) (metis add_sub_total opt_set_state_total split_writes_total)

lemma stake_merge_total:
  assumes "stake_merge c fs me src clk h sg st = Inr st'"
  shows "total_lamports st' = total_lamports st"
proof (rule stake_merge_Inr [OF assms])
  fix mk smk merged st1 st2 st3
  assume 1: "(case merged of Some x \<Rightarrow> upd_account me (set_state c x) st | None \<Rightarrow> Inr st) = Inr st1"
    and 2: "upd_account src (set_state c Uninitialized) st1 = Inr st2"
    and tr: "upd_account src (checked_sub_lamports (lamports (acct st2 src))) st2 = Inr st3"
      "upd_account me (checked_add_lamports (lamports (acct st2 src))) st3 = Inr st'"
  from 1 have "total_lamports st1 = total_lamports st" by (auto split: option.splits dest: set_state_total)
  with sub_add_total [OF tr] set_state_total [OF 2] show ?thesis by simp
qed

lemma stake_withdraw_total:
  assumes "stake_withdraw c me l to clk h wa cu st = Inr st'"
  shows "total_lamports st' = total_lamports st"
  using assms by (rule stake_withdraw_Inr) (metis sub_add_total opt_set_state_total)

section \<open>Delegated stake is backed by lamports\<close>

text \<open>
  An initialized account keeps its rent reserve and the minimum delegation; a delegation that has
  not been deactivated is covered by the lamports above the reserve.
\<close>

fun backed :: "stake_state \<Rightarrow> nat \<Rightarrow> nat \<Rightarrow> bool" where
  "backed (Stake m s) lam len \<longleftrightarrow> len = STAKE_STATE_SIZE \<and> unat (rent_exempt_reserve m) \<le> lam
     \<and> (deactivation_epoch (stake_delegation s) = u64_MAX \<longrightarrow>
          unat (delegated_stake (stake_delegation s)) + unat (rent_exempt_reserve m) \<le> lam)"
| "backed (Initialized m) lam len \<longleftrightarrow> len = STAKE_STATE_SIZE \<and> unat (rent_exempt_reserve m) + 1 \<le> lam"
| "backed Uninitialized lam len \<longleftrightarrow> True"
| "backed RewardsPool lam len \<longleftrightarrow> True"

definition view_ok :: "stake_view \<Rightarrow> bool" where
  "view_ok v \<longleftrightarrow> (sv_owner v = stake_program_id \<longrightarrow>
     (\<forall>s. sv_state v = Some s \<longrightarrow> backed s (sv_lam v) (sv_len v)))"

definition stakes_backed :: "'b stake_codec \<Rightarrow> 'b store \<Rightarrow> bool" where
  "stakes_backed c st \<longleftrightarrow> (\<forall>k. view_ok (view c st k))"

lemma backed_mono: "backed s lam len \<Longrightarrow> lam \<le> lam' \<Longrightarrow> backed s lam' len"
  by (cases s) auto

lemma view_ok_more: "view_ok v \<Longrightarrow> view_ok (v\<lparr>sv_lam := sv_lam v + n\<rparr>)"
  by (auto simp: view_ok_def intro: backed_mono)

lemma stakes_backedD:
  "stakes_backed c st \<Longrightarrow> owner (acct st ka) = stake_program_id \<Longrightarrow> get_state c (acct st ka) = Inr s \<Longrightarrow>
     backed s (unat (lamports (acct st ka))) (length (data (acct st ka)))"
  unfolding stakes_backed_def view_ok_def get_state_view using view_acct by metis

lemma set_state_backed:
  assumes "codec_ok c" "stakes_backed c st" "upd_account me (set_state c s) st = Inr st'"
    and "backed s (unat (lamports (acct st me))) (length (data (acct st me)))"
  shows "stakes_backed c st'"
  using assms(2,4) unfolding stakes_backed_def view_set_state [OF assms(1,3)] by (auto simp: view_ok_def)

lemma backed_meta_change:
  "backed state lam len \<Longrightarrow> state_meta state = Some m \<Longrightarrow> rent_exempt_reserve m' = rent_exempt_reserve m \<Longrightarrow>
     backed (meta_change state m') lam len"
  by (cases state) (auto simp: meta_change_def)

lemma meta_set_lockup_frame:
  "meta_set_lockup args sg clk m = Inr m' \<Longrightarrow>
     rent_exempt_reserve m' = rent_exempt_reserve m \<and> meta_authorized m' = meta_authorized m"
  by (auto simp: meta_set_lockup_def Let_def res_elim split: if_splits)

lemma stake_authorize_backed:
  assumes "codec_ok c" "stakes_backed c st" "owner (acct st me) = stake_program_id"
    and "stake_authorize_account c me sg n sa rq clk cu st = Inr st'"
  shows "stakes_backed c st'"
  using assms(4)
  by (rule stake_authorize_account_Inr)
    (metis (no_types, lifting) assms(1-3) backed_meta_change meta.select_convs(1) meta.surjective
      meta.update_convs(2) set_state_backed stakes_backedD)

lemma stake_set_lockup_backed:
  assumes "codec_ok c" "stakes_backed c st" "owner (acct st me) = stake_program_id"
    and "stake_set_lockup c me args sg clk st = Inr st'"
  shows "stakes_backed c st'"
  using assms(4)
  by (rule stake_set_lockup_Inr)
    (metis assms(1-3) backed_meta_change meta_set_lockup_frame set_state_backed stakes_backedD)

lemma stake_initialize_backed:
  assumes "codec_ok c" "stakes_backed c st" "minimum_balance r STAKE_STATE_SIZE \<noteq> u64_MAX"
    and "stake_initialize c me auth l r st = Inr st'"
  shows "stakes_backed c st'"
proof -
  let ?r = "minimum_balance r STAKE_STATE_SIZE"
  note run = stake_initialize_Inr [OF assms(4)]
  have "?r < u64_MAX" using assms(3) u64_le_MAX [of ?r] by (metis order_le_less)
  then have "unat (?r + 1) = unat ?r + 1" by (rule unat_next)
  with run show ?thesis
    by (intro set_state_backed [OF assms(1,2)]) (auto simp: MINIMUM_STAKE_DELEGATION_def word_le_nat_alt)
qed

text \<open>A delegation rescinds a deactivation when it names the epoch the account deactivates in.\<close>

definition rescinds :: "'b stake_codec \<Rightarrow> keyed_account \<Rightarrow> clock \<Rightarrow> 'b store \<Rightarrow> bool" where
  "rescinds c me clk st =
     (case get_state c (acct st me) of
        Inr (Stake m s) \<Rightarrow> deactivation_epoch (stake_delegation s) = clock_epoch clk
      | _ \<Rightarrow> False)"

lemma stake_delegate_backed:
  assumes "codec_ok c" "stakes_backed c st" "owner (acct st me) = stake_program_id" "\<not> rescinds c me clk st"
    and "stake_delegate c vc me va clk h cfg sg st = Inr st'"
  shows "stakes_backed c st'"
proof (rule stake_delegate_Inr [OF assms(5)])
  fix state m s' vs
  assume g: "get_state c (acct st me) = Inr state" "state_meta state = Some m"
    and del: "state = Initialized m \<and> s' = new_stake (validate_delegated_amount me m st) (key va) vs (clock_epoch clk) cfg
     \<or> (\<exists>s. state = Stake m s \<and> redelegate (validate_delegated_amount me m st) (key va) vs clk h cfg s = Inr s')"
    and w: "upd_account me (set_state c (Stake m s')) st = Inr st'"
  note b = stakes_backedD [OF assms(2,3) g(1)]
  from del have s': "delegated_stake (stake_delegation s') = validate_delegated_amount me m st"
    using assms(4) g(1)
    by (auto simp: new_stake_def delegation_new_def redelegate_def rescinds_def Let_def res_elim split: if_splits)
  have "unat (rent_exempt_reserve m) \<le> unat (lamports (acct st me))" "length (data (acct st me)) = STAKE_STATE_SIZE"
    using b del by auto
  with s' show ?thesis
    by (intro set_state_backed [OF assms(1,2) w]) (simp add: validate_delegated_amount_def unat_saturating_sub_w)
qed

lemma stake_deactivate_backed:
  assumes "codec_ok c" "stakes_backed c st" "owner (acct st me) = stake_program_id" "clock_epoch clk \<noteq> u64_MAX"
    and "stake_deactivate c me clk sg st = Inr st'"
  shows "stakes_backed c st'"
proof (rule stake_deactivate_Inr [OF assms(5)])
  fix m s
  assume g: "get_state c (acct st me) = Inr (Stake m s)"
    and w: "upd_account me (set_state c (Stake m (s\<lparr>stake_delegation :=
       (stake_delegation s)\<lparr>deactivation_epoch := clock_epoch clk\<rparr>\<rparr>))) st = Inr st'"
  show ?thesis using stakes_backedD [OF assms(2,3) g] assms(4)
    by (intro set_state_backed [OF assms(1,2) w]) simp
qed

lemma split_reserve_le:
  assumes "calculate_split_rent_exempt_reserve r (of_nat STAKE_STATE_SIZE) (of_nat STAKE_STATE_SIZE) = Inr d"
  shows "unat d \<le> unat r"
proof -
  have d: "d = r div 328 * 328"
    using assms by (simp add: calculate_split_rent_exempt_reserve_def checked_div_w_def STAKE_STATE_SIZE_def
        ACCOUNT_STORAGE_OVERHEAD_def)
  have le: "unat r div 328 * 328 \<le> unat r" by simp
  then have "unat r div 328 * 328 < 2 ^ 64" by (rule le_less_trans) simp
  then have "unat d = unat r div 328 * 328"
    unfolding d using unat_mult_no_wrap [of "r div 328" 328] by (simp add: unat_div)
  with le show ?thesis by simp
qed

lemma validate_split_amount_Inr:
  assumes "validate_split_amount me split l m so st = Inr info"
    and "length (data (acct st me)) = STAKE_STATE_SIZE" "length (data (acct st split)) = STAKE_STATE_SIZE"
  shows "0 < unat l" "unat l \<le> unat (lamports (acct st me))"
    "unat (source_remaining_balance info) = unat (lamports (acct st me)) - unat l"
    "unat l = unat (lamports (acct st me))
      \<or> unat (rent_exempt_reserve m) + 1 \<le> unat (lamports (acct st me)) - unat l"
    "unat (destination_rent_exempt_reserve info) \<le> unat (rent_exempt_reserve m)"
    "min (unat (destination_rent_exempt_reserve info) + 1) (2 ^ 64 - 1) \<le> unat l + unat (lamports (acct st split))"
proof -
  let ?L = "lamports (acct st me)"
  from assms have v: "l \<noteq> 0" "l \<le> ?L"
      "saturating_sub_w ?L l = 0 \<or> saturating_add_w (rent_exempt_reserve m) 1 \<le> saturating_sub_w ?L l"
      "calculate_split_rent_exempt_reserve (rent_exempt_reserve m) (of_nat STAKE_STATE_SIZE) (of_nat STAKE_STATE_SIZE)
         = Inr (destination_rent_exempt_reserve info)"
      "saturating_sub_w (saturating_add_w (destination_rent_exempt_reserve info) 1) (lamports (acct st split)) \<le> l"
      "source_remaining_balance info = saturating_sub_w ?L l"
    by (auto simp: validate_split_amount_def Let_def res_elim MINIMUM_STAKE_DELEGATION_def)
  show l: "0 < unat l" using v(1) by (simp add: unat_gt_0)
  show "unat l \<le> unat ?L" using v(2) by (simp add: word_le_nat_alt)
  show "unat (source_remaining_balance info) = unat ?L - unat l" by (simp add: v(6) unat_saturating_sub_w)
  show "unat (destination_rent_exempt_reserve info) \<le> unat (rent_exempt_reserve m)" by (rule split_reserve_le [OF v(4)])
  have "saturating_sub_w ?L l = 0 \<longleftrightarrow> unat ?L - unat l = 0"
    using unat_saturating_sub_w [of ?L l] unat_eq_0 [of "saturating_sub_w ?L l"] by simp
  with v(3) have "unat ?L - unat l = 0 \<or> min (unat (rent_exempt_reserve m) + 1) 18446744073709551615 \<le> unat ?L - unat l"
    by (auto simp: word_le_nat_alt unat_saturating_sub_w unat_saturating_add_w)
  then show "unat l = unat ?L \<or> unat (rent_exempt_reserve m) + 1 \<le> unat ?L - unat l"
    using l \<open>unat l \<le> unat ?L\<close> unat_u64_le [of ?L] unfolding min_def by (split if_splits) linarith+
  show "min (unat (destination_rent_exempt_reserve info) + 1) (2 ^ 64 - 1) \<le> unat l + unat (lamports (acct st split))"
    using v(5) by (simp add: word_le_nat_alt unat_saturating_sub_w unat_saturating_add_w)
qed

lemma split_off_Inr:
  assumes "stake_split_off delta amount s = Inr (new, s')"
  shows "unat (delegated_stake (stake_delegation s')) + unat delta = unat (delegated_stake (stake_delegation s))"
    "delegated_stake (stake_delegation new) = amount"
    "deactivation_epoch (stake_delegation new) = deactivation_epoch (stake_delegation s)"
    "deactivation_epoch (stake_delegation s') = deactivation_epoch (stake_delegation s)"
  using assms by (auto simp: stake_split_off_def Let_def not_less res_elim word_nat word_le_nat_alt split: if_splits)

lemma split_amounts_unat:
  "unat (fst (split_amounts l m info D)) =
     (if source_remaining_balance info = 0 then unat l - unat (rent_exempt_reserve m) else unat l)"
  "unat (snd (split_amounts l m info D)) =
     (if source_remaining_balance info = 0 then unat l - unat (rent_exempt_reserve m)
      else unat l - (unat (destination_rent_exempt_reserve info) - unat D))"
  by (simp_all add: split_amounts_def Let_def unat_saturating_sub_w)

text \<open>The states a split leaves, and that both are backed once the lamports have moved.\<close>

lemma split_stake_backed:
  assumes "validate_split_amount me split l m (Some s) st = Inr info"
    and "length (data (acct st me)) = STAKE_STATE_SIZE" "length (data (acct st split)) = STAKE_STATE_SIZE"
    and "stake_split_off (fst (split_amounts l m info (lamports (acct st split))))
           (snd (split_amounts l m info (lamports (acct st split)))) s = Inr (new, s')"
    and "backed (Stake m s) (unat (lamports (acct st me))) STAKE_STATE_SIZE"
  shows "l \<noteq> lamports (acct st me) \<Longrightarrow> backed (Stake m s') (unat (lamports (acct st me)) - unat l) STAKE_STATE_SIZE"
    "backed (Stake (m\<lparr>rent_exempt_reserve := destination_rent_exempt_reserve info\<rparr>) new)
       (unat (lamports (acct st split)) + unat l) STAKE_STATE_SIZE"
proof -
  note v = validate_split_amount_Inr [OF assms(1-3)] and so = split_off_Inr [OF assms(4)]
  have z: "source_remaining_balance info = 0 \<longleftrightarrow> unat l = unat (lamports (acct st me))"
    using v(2,3) unat_eq_0 [of "source_remaining_balance info"] by linarith
  show "backed (Stake m s') (unat (lamports (acct st me)) - unat l) STAKE_STATE_SIZE" if "l \<noteq> lamports (acct st me)"
  proof -
    from that have "unat l \<noteq> unat (lamports (acct st me))" by (simp add: word_unat_eq_iff)
    then show ?thesis using v(2,4) so(1,4) assms(5) z split_amounts_unat(1) [of l m info] by auto
  qed
  have d: "unat (destination_rent_exempt_reserve info) \<le> unat l + unat (lamports (acct st split))"
    using v(6) unat_u64_le [of "destination_rent_exempt_reserve info"] by (simp add: min_def split: if_splits)
  show "backed (Stake (m\<lparr>rent_exempt_reserve := destination_rent_exempt_reserve info\<rparr>) new)
       (unat (lamports (acct st split)) + unat l) STAKE_STATE_SIZE"
    using v(5) d so(2,3) assms(5) z split_amounts_unat(2) [of l m info "lamports (acct st split)"]
    by (auto split: if_splits)
qed

lemma split_init_backed:
  assumes "validate_split_amount me split l m None st = Inr info"
    and "length (data (acct st me)) = STAKE_STATE_SIZE" "length (data (acct st split)) = STAKE_STATE_SIZE"
    and "backed (Initialized m) (unat (lamports (acct st me))) STAKE_STATE_SIZE"
  shows "l \<noteq> lamports (acct st me) \<Longrightarrow> backed (Initialized m) (unat (lamports (acct st me)) - unat l) STAKE_STATE_SIZE"
    "backed (Initialized (m\<lparr>rent_exempt_reserve := destination_rent_exempt_reserve info\<rparr>))
       (unat (lamports (acct st split)) + unat l) STAKE_STATE_SIZE"
proof -
  note v = validate_split_amount_Inr [OF assms(1-3)]
  show "backed (Initialized m) (unat (lamports (acct st me)) - unat l) STAKE_STATE_SIZE" if "l \<noteq> lamports (acct st me)"
    using that v(4) by (auto simp: word_unat_eq_iff)
  have "unat (destination_rent_exempt_reserve info) + 1 \<le> 18446744073709551615"
    using v(5) assms(4) unat_u64_le [of "lamports (acct st me)"] by simp
  then show "backed (Initialized (m\<lparr>rent_exempt_reserve := destination_rent_exempt_reserve info\<rparr>))
       (unat (lamports (acct st split)) + unat l) STAKE_STATE_SIZE"
    using v(6) by (simp add: min_def split: if_splits)
qed

lemma split_tail_view:
  assumes "codec_ok c"
    "(if l = lamports (acct st1 me) then upd_account me (set_state c Uninitialized) st1 else Inr st1) = Inr st2"
    "upd_account split (checked_add_lamports l) st2 = Inr st3" "upd_account me (checked_sub_lamports l) st3 = Inr st'"
    "key me \<noteq> key split"
  shows "view c st' = (view c st1)
    (key split := (view c st1 (key split))\<lparr>sv_lam := sv_lam (view c st1 (key split)) + unat l\<rparr>,
     key me := (view c st1 (key me))\<lparr>sv_lam := sv_lam (view c st1 (key me)) - unat l,
       sv_state := (if l = lamports (acct st1 me) then Some Uninitialized else sv_state (view c st1 (key me)))\<rparr>)"
proof -
  have "view c st2 = (view c st1)(key me := (view c st1 (key me))\<lparr>sv_state :=
      (if l = lamports (acct st1 me) then Some Uninitialized else sv_state (view c st1 (key me)))\<rparr>)"
    using assms(2) view_set_state [OF assms(1)] by (auto split: if_splits)
  then show ?thesis
    using view_add_lamports [OF assms(3), of c] view_sub_lamports [OF assms(4), of c] assms(5)
    by (auto simp: fun_eq_iff)
qed

lemma split_states:
  assumes "codec_ok c" "split_writes c me l split sg st state st1" "key me \<noteq> key split"
    and "get_state c (acct st me) = Inr state" "get_state c (acct st split) = Inr Uninitialized"
    and "backed state (unat (lamports (acct st me))) (length (data (acct st me)))"
    and "length (data (acct st split)) = STAKE_STATE_SIZE"
  obtains sm ss where "view c st1 = (view c st)(key me := (view c st (key me))\<lparr>sv_state := Some sm\<rparr>,
       key split := (view c st (key split))\<lparr>sv_state := Some ss\<rparr>)"
    "l \<noteq> lamports (acct st me) \<Longrightarrow> backed sm (unat (lamports (acct st me)) - unat l) (length (data (acct st me)))"
    "backed ss (unat (lamports (acct st split)) + unat l) STAKE_STATE_SIZE"
    "lamports (acct st1 me) = lamports (acct st me)"
proof (cases state)
  case (Stake m s)
  with assms(2) obtain info new s' st0 where
    v: "validate_split_amount me split l m (Some s) st = Inr info"
    and so: "stake_split_off (fst (split_amounts l m info (lamports (acct st split))))
       (snd (split_amounts l m info (lamports (acct st split)))) s = Inr (new, s')"
    and sets: "upd_account me (set_state c (Stake m s')) st = Inr st0"
      "upd_account split (set_state c (Stake
         (m\<lparr>rent_exempt_reserve := destination_rent_exempt_reserve info\<rparr>) new)) st0 = Inr st1"
    by (auto simp: split_writes_def)
  have ln: "length (data (acct st me)) = STAKE_STATE_SIZE" using assms(6) Stake by simp
  note sb = split_stake_backed [OF v ln assms(7) so assms(6) [unfolded Stake ln]]
  have "lamports (acct st1 me) = lamports (acct st me)"
    using set_state_frame_store(1) [OF sets(1)] set_state_frame_store(1) [OF sets(2)] by (simp add: acct_def)
  with sb ln assms(3) show thesis
    by (intro that) (auto simp: view_set_state [OF assms(1) sets(1)] view_set_state [OF assms(1) sets(2)])
next
  case (Initialized m)
  with assms(2) obtain info where v: "validate_split_amount me split l m None st = Inr info"
    and sets: "upd_account split (set_state c (Initialized
         (m\<lparr>rent_exempt_reserve := destination_rent_exempt_reserve info\<rparr>))) st = Inr st1"
    by (auto simp: split_writes_def)
  have ln: "length (data (acct st me)) = STAKE_STATE_SIZE" using assms(6) Initialized by simp
  note sb = split_init_backed [OF v ln assms(7) assms(6) [unfolded Initialized ln]]
  have "sv_state (view c st (key me)) = Some (Initialized m)" using assms(4) Initialized get_state_view by metis
  with sb ln show thesis using set_state_frame_store(1) [OF sets]
    by (intro that [of "Initialized m"]) (auto simp: view_set_state [OF assms(1) sets] acct_def)
next
  case Uninitialized
  have "sv_state (view c st (key me)) = Some Uninitialized" "sv_state (view c st (key split)) = Some Uninitialized"
    using assms(4,5) Uninitialized get_state_view by metis+
  with assms(2) Uninitialized show thesis
    by (intro that [of Uninitialized Uninitialized]) (auto simp: split_writes_def)
qed (use assms(2) in \<open>simp add: split_writes_def\<close>)

lemma stake_split_backed:
  assumes "codec_ok c" "stakes_backed c st" "owner (acct st me) = stake_program_id"
    and "stake_split c me l split sg st = Inr st'"
  shows "stakes_backed c st'"
proof (rule stake_split_Inr [OF assms(4)])
  fix state st1 st2 st3
  assume g: "get_state c (acct st me) = Inr state" "get_state c (acct st split) = Inr Uninitialized"
    and own: "owner (acct st split) = stake_program_id" and len: "length (data (acct st split)) = STAKE_STATE_SIZE"
    and w: "split_writes c me l split sg st state st1"
    and tail: "(if l = lamports (acct st1 me) then upd_account me (set_state c Uninitialized) st1 else Inr st1) = Inr st2"
      "upd_account split (checked_add_lamports l) st2 = Inr st3" "upd_account me (checked_sub_lamports l) st3 = Inr st'"
  note b = stakes_backedD [OF assms(2,3) g(1)]
  have ok: "view_ok (view c st k)" for k using assms(2) by (simp add: stakes_backed_def)
  show ?thesis
  proof (cases "key me = key split")
    case True
    then have u: "state = Uninitialized" using g by (simp add: acct_def)
    with w have "st1 = st" by (simp add: split_writes_def)
    moreover have "sv_state (view c st (key me)) = Some Uninitialized" using g(1) u get_state_view by metis
    ultimately have "\<forall>k. k \<noteq> key me \<longrightarrow> view c st' k = view c st k" "sv_state (view c st' (key me)) = Some Uninitialized"
      using tail(1) view_set_state [OF assms(1), of me Uninitialized st st2] True
        view_add_lamports [OF tail(2), of c] view_sub_lamports [OF tail(3), of c]
      by (auto split: if_splits)
    then show ?thesis unfolding stakes_backed_def using ok by (metis backed.simps(3) option.inject view_ok_def)
  next
    case False
    show ?thesis
    proof (rule split_states [OF assms(1) w False g b len])
      fix sm ss
      assume "view c st1 = (view c st)(key me := (view c st (key me))\<lparr>sv_state := Some sm\<rparr>,
          key split := (view c st (key split))\<lparr>sv_state := Some ss\<rparr>)"
        "l \<noteq> lamports (acct st me) \<Longrightarrow> backed sm (unat (lamports (acct st me)) - unat l) (length (data (acct st me)))"
        "backed ss (unat (lamports (acct st split)) + unat l) STAKE_STATE_SIZE"
        "lamports (acct st1 me) = lamports (acct st me)"
      then show ?thesis unfolding stakes_backed_def split_tail_view [OF assms(1) tail False]
        using ok len False by (auto simp: view_ok_def)
    qed
  qed
qed

lemma get_if_mergeable_Inr:
  assumes "get_if_mergeable c ka clk h st = Inr mk"
  obtains (Inactive) state m where "mk = Inactive m (lamports (acct st ka))" "get_state c (acct st ka) = Inr state"
      "state_meta state = Some m"
  | (ActivationEpoch) m s where "mk = ActivationEpoch m s" "get_state c (acct st ka) = Inr (Stake m s)"
  | (FullyActive) m s where "mk = FullyActive m s" "get_state c (acct st ka) = Inr (Stake m s)"
proof -
  obtain state where g: "get_state c (acct st ka) = Inr state"
    using assms by (auto simp: get_if_mergeable_def res_elim)
  show thesis using assms that g
    by (cases state) (auto simp: get_if_mergeable_def Let_def res_elim split: if_splits)
qed

lemma merge_stakes_Inr:
  "merge_delegation_stake_and_credits_observed fs l co s = Inr s' \<Longrightarrow>
     unat (delegated_stake (stake_delegation s')) = unat (delegated_stake (stake_delegation s)) + unat l
     \<and> deactivation_epoch (stake_delegation s') = deactivation_epoch (stake_delegation s)"
  by (auto simp: merge_delegation_stake_and_credits_observed_def res_elim split: if_splits dest!: checked_add_unat)

lemma active_merge_not_deactivated:
  "active_delegations_can_merge d src = Inr u \<Longrightarrow> deactivation_epoch src = u64_MAX"
  "active_stakes_can_merge s s2 = Inr u \<Longrightarrow> deactivation_epoch (stake_delegation s2) = u64_MAX"
  by (auto simp: active_stakes_can_merge_def active_delegations_can_merge_def res_elim split: if_splits)

text \<open>What a merge adds to the delegation is covered by what the source account holds.\<close>

lemma merge_absorbs:
  assumes "merge_kind_merge fs mk smk clk = Inr (Some x)"
    and "get_if_mergeable c me clk h st = Inr mk" "get_if_mergeable c src clk h st = Inr smk"
    and "\<And>state. get_state c (acct st src) = Inr state \<Longrightarrow> backed state (unat (lamports (acct st src))) n"
  obtains m s s' where "get_state c (acct st me) = Inr (Stake m s)" "x = Stake m s'"
    "deactivation_epoch (stake_delegation s') = deactivation_epoch (stake_delegation s)"
    "unat (delegated_stake (stake_delegation s'))
       \<le> unat (delegated_stake (stake_delegation s)) + unat (lamports (acct st src))"
proof -
  have act: "deactivation_epoch (stake_delegation src) = u64_MAX"
    if "(if is_active fs Stake_merge_with_unmatched_credits_observed
         then active_delegations_can_merge (stake_delegation s) (stake_delegation src)
         else active_stakes_can_merge s src) = Inr ()" for s src
    using that active_merge_not_deactivated by (auto split: if_splits)
  show thesis
  proof (cases mk; cases smk)
    fix m s m2 l2 assume k: "mk = ActivationEpoch m s" "smk = Inactive m2 l2"
    then have "get_state c (acct st me) = Inr (Stake m s)" "l2 = lamports (acct st src)"
      using get_if_mergeable_Inr [OF assms(2)] get_if_mergeable_Inr [OF assms(3)] by blast+
    then show thesis using assms(1) k that by (auto simp: merge_kind_merge_def res_elim dest!: checked_add_unat)
  next
    fix m s m2 s2 assume k: "mk = ActivationEpoch m s" "smk = ActivationEpoch m2 s2"
    then have g: "get_state c (acct st me) = Inr (Stake m s)" "get_state c (acct st src) = Inr (Stake m2 s2)"
      using get_if_mergeable_Inr [OF assms(2)] get_if_mergeable_Inr [OF assms(3)] by blast+
    from assms(1) k obtain total s' where
      "checked_add (rent_exempt_reserve m2) (delegated_stake (stake_delegation s2)) = Inr total"
      "merge_delegation_stake_and_credits_observed fs total (credits_observed s2) s = Inr s'" "x = Stake m s'"
      "deactivation_epoch (stake_delegation s2) = u64_MAX"
      by (auto simp: merge_kind_merge_def res_elim dest: act)
    then show thesis using assms(4) [OF g(2)]
      by (intro that [OF g(1), of s']) (auto dest!: merge_stakes_Inr checked_add_unat)
  next
    fix m s m2 s2 assume k: "mk = FullyActive m s" "smk = FullyActive m2 s2"
    then have g: "get_state c (acct st me) = Inr (Stake m s)" "get_state c (acct st src) = Inr (Stake m2 s2)"
      using get_if_mergeable_Inr [OF assms(2)] get_if_mergeable_Inr [OF assms(3)] by blast+
    from assms(1) k obtain s' where
      "merge_delegation_stake_and_credits_observed fs (delegated_stake (stake_delegation s2)) (credits_observed s2) s = Inr s'"
      "x = Stake m s'" "deactivation_epoch (stake_delegation s2) = u64_MAX"
      by (auto simp: merge_kind_merge_def res_elim dest: act)
    then show thesis using assms(4) [OF g(2)]
      by (intro that [OF g(1), of s']) (auto dest!: merge_stakes_Inr)
  qed (use assms(1) in \<open>auto simp: merge_kind_merge_def res_elim\<close>)
qed

lemma stake_merge_backed:
  assumes "codec_ok c" "stakes_backed c st" "owner (acct st me) = stake_program_id"
    and "stake_merge c fs me src clk h sg st = Inr st'"
  shows "stakes_backed c st'"
proof (rule stake_merge_Inr [OF assms(4)])
  fix mk smk merged st1 st2 st3
  assume own: "owner (acct st src) = stake_program_id" and ne: "key src \<noteq> key me"
    and mk: "get_if_mergeable c me clk h st = Inr mk" "get_if_mergeable c src clk h st = Inr smk"
    and mrg: "merge_kind_merge fs mk smk clk = Inr merged"
    and w: "(case merged of Some x \<Rightarrow> upd_account me (set_state c x) st | None \<Rightarrow> Inr st) = Inr st1"
      "upd_account src (set_state c Uninitialized) st1 = Inr st2"
      "upd_account src (checked_sub_lamports (lamports (acct st2 src))) st2 = Inr st3"
      "upd_account me (checked_add_lamports (lamports (acct st2 src))) st3 = Inr st'"
  have ok: "view_ok (view c st k)" for k using assms(2) by (simp add: stakes_backed_def)
  obtain sm where v1: "view c st1 = (view c st)(key me := (view c st (key me))\<lparr>sv_state := sm\<rparr>)"
    and sm: "\<And>s. sm = Some s \<Longrightarrow>
      backed s (unat (lamports (acct st me)) + unat (lamports (acct st src))) (length (data (acct st me)))"
  proof (cases merged)
    case None
    then show thesis
      by (intro that [of "sv_state (view c st (key me))"])
        (use w(1) ok [of "key me"] assms(3) in \<open>auto simp: view_ok_def intro: backed_mono\<close>)
  next
    case (Some x)
    obtain m s s' where x: "get_state c (acct st me) = Inr (Stake m s)" "x = Stake m s'"
      "deactivation_epoch (stake_delegation s') = deactivation_epoch (stake_delegation s)"
      "unat (delegated_stake (stake_delegation s'))
         \<le> unat (delegated_stake (stake_delegation s)) + unat (lamports (acct st src))"
      using merge_absorbs [OF mrg [unfolded Some] mk stakes_backedD [OF assms(2) own]] by blast
    have "view c st1 = (view c st)(key me := (view c st (key me))\<lparr>sv_state := Some x\<rparr>)"
      using w(1) Some view_set_state [OF assms(1)] by auto
    then show thesis by (rule that) (use stakes_backedD [OF assms(2,3) x(1)] x in auto)
  qed
  have "lamports (acct st2 src) = lamports (acct st src)"
    using set_state_frame_store(1) [OF w(2)] w(1) ne set_state_frame_store(1) [of me c _ st st1]
    by (auto simp: acct_def split: option.splits)
  then have "view c st' = (view c st)(key me := (view c st (key me))\<lparr>sv_state := sm,
       sv_lam := unat (lamports (acct st me)) + unat (lamports (acct st src))\<rparr>,
     key src := (view c st (key src))\<lparr>sv_state := Some Uninitialized, sv_lam := 0\<rparr>)"
    using ne view_set_state [OF assms(1) w(2)] view_sub_lamports [OF w(3), of c] view_add_lamports [OF w(4), of c] v1
    by (auto simp: fun_eq_iff)
  then show ?thesis unfolding stakes_backed_def using ok sm by (auto simp: view_ok_def)
qed

lemma withdraw_terms_backed:
  assumes "withdraw_terms me clk h who state = Inr (lk, reserve, is_staked)" "clock_epoch clk \<noteq> u64_MAX"
    and "backed state lam len" "unat reserve \<le> lam'"
  shows "backed state lam' len"
proof (cases state)
  case (Stake m s)
  have "\<not> u64_MAX \<le> clock_epoch clk" using assms(2) u64_le_MAX [of "clock_epoch clk"] by (metis order_antisym)
  with Stake assms(1,3,4) show ?thesis
    by (auto simp: withdraw_terms_def Let_def res_elim dest!: checked_add_unat split: if_splits)
next
  case (Initialized m)
  with assms(1,3,4) show ?thesis
    by (auto simp: withdraw_terms_def res_elim MINIMUM_STAKE_DELEGATION_def dest!: checked_add_unat)
qed simp_all

lemma withdraw_view:
  assumes "codec_ok c"
    and "(if l = lamports (acct st me) then upd_account me (set_state c Uninitialized) st else Inr st) = Inr st1"
    and "upd_account me (checked_sub_lamports l) st1 = Inr st2" "upd_account to (checked_add_lamports l) st2 = Inr st'"
  shows "unat l \<le> unat (lamports (acct st me))"
    "view c st' = (let V = (view c st)(key me := (view c st (key me))\<lparr>sv_lam := unat (lamports (acct st me)) - unat l,
         sv_state := (if l = lamports (acct st me) then Some Uninitialized else sv_state (view c st (key me)))\<rparr>)
       in V(key to := (V (key to))\<lparr>sv_lam := sv_lam (V (key to)) + unat l\<rparr>))"
proof -
  have v1: "view c st1 = (view c st)(key me := (view c st (key me))\<lparr>sv_state :=
      (if l = lamports (acct st me) then Some Uninitialized else sv_state (view c st (key me)))\<rparr>)"
    using assms(2) view_set_state [OF assms(1)] by (auto split: if_splits)
  note v2 = view_sub_lamports [OF assms(3), of c]
  show "unat l \<le> unat (lamports (acct st me))" using v2 v1 by simp
  show "view c st' = (let V = (view c st)(key me := (view c st (key me))\<lparr>sv_lam := unat (lamports (acct st me)) - unat l,
         sv_state := (if l = lamports (acct st me) then Some Uninitialized else sv_state (view c st (key me)))\<rparr>)
       in V(key to := (V (key to))\<lparr>sv_lam := sv_lam (V (key to)) + unat l\<rparr>))"
    using view_add_lamports [OF assms(4), of c] v2 v1 by (auto simp: Let_def fun_eq_iff)
qed

lemma stake_withdraw_backed:
  assumes "codec_ok c" "stakes_backed c st" "owner (acct st me) = stake_program_id" "clock_epoch clk \<noteq> u64_MAX"
    and "stake_withdraw c me l to clk h wa cu st = Inr st'"
  shows "stakes_backed c st'"
proof (rule stake_withdraw_Inr [OF assms(5)])
  fix who state lk reserve is_staked total st1 st2
  assume g: "get_state c (acct st me) = Inr state"
    and terms: "withdraw_terms me clk h who state = Inr (lk, reserve, is_staked)" "checked_add l reserve = Inr total"
    and le: "l \<noteq> lamports (acct st me) \<longrightarrow> total \<le> lamports (acct st me)"
    and w: "(if l = lamports (acct st me) then upd_account me (set_state c Uninitialized) st else Inr st) = Inr st1"
      "upd_account me (checked_sub_lamports l) st1 = Inr st2" "upd_account to (checked_add_lamports l) st2 = Inr st'"
  have ok: "view_ok (view c st k)" for k using assms(2) by (simp add: stakes_backed_def)
  note b = stakes_backedD [OF assms(2,3) g]
  have "backed state (unat (lamports (acct st me)) - unat l) (length (data (acct st me)))" if "l \<noteq> lamports (acct st me)"
    by (rule withdraw_terms_backed [OF terms(1) assms(4) b])
      (use that le checked_add_unat [OF terms(2)] in \<open>auto simp: word_le_nat_alt\<close>)
  moreover have "sv_state (view c st (key me)) = Some state" using g get_state_view by metis
  ultimately have "view_ok ((view c st (key me))\<lparr>sv_lam := unat (lamports (acct st me)) - unat l,
         sv_state := (if l = lamports (acct st me) then Some Uninitialized else sv_state (view c st (key me)))\<rparr>)"
    by (auto simp: view_ok_def)
  with ok have "\<forall>k. view_ok (((view c st)(key me := (view c st (key me))\<lparr>sv_lam := unat (lamports (acct st me)) - unat l,
         sv_state := (if l = lamports (acct st me) then Some Uninitialized else sv_state (view c st (key me)))\<rparr>)) k)"
    by (metis fun_upd_apply)
  then show ?thesis unfolding stakes_backed_def withdraw_view(2) [OF assms(1) w] Let_def
    by (metis fun_upd_apply view_ok_more)
qed
end
