(* ===== verification/Config_Program.thy ===== *)
theory Config_Program
  imports Stake_State
begin

text \<open>
  The config program (\<open>programs/config/src/lib.rs\<close>, \<open>config_processor.rs\<close>): an account holds a
  list of keys, some of which must sign updates, followed by configuration data. The stake program
  reads its configuration from such an account (\<open>programs/stake/src/config.rs\<close>). The serialized
  form of the keys and of the configuration is a codec.
\<close>

section \<open>Config accounts\<close>

type_synonym config_keys = "(pubkey \<times> bool) list"

definition get_config_data :: "(config_keys, 'b) codec \<Rightarrow> 'b list \<Rightarrow> 'b list option" where
  "get_config_data kc bytes = map_option (\<lambda>keys. drop (length (encode kc keys)) bytes) (decode kc bytes)"

definition create_config_account ::
  "(config_keys, 'b) codec \<Rightarrow> ('t, 'b) codec \<Rightarrow> config_keys \<Rightarrow> 't \<Rightarrow> u64 \<Rightarrow> 'b account" where
  "create_config_account kc tc keys config_data lam =
     \<lparr>lamports = lam, data = encode kc keys @ encode tc config_data, owner = config_program_id,
      executable = False, rent_epoch = 0\<rparr>"

definition stake_config_from ::
  "(config_keys, 'b) codec \<Rightarrow> (stake_config, 'b) codec \<Rightarrow> 'b account \<Rightarrow> stake_config option" where
  "stake_config_from kc tc a = Option.bind (get_config_data kc (data a)) (decode tc)"

definition stake_config_create_account ::
  "(config_keys, 'b) codec \<Rightarrow> (stake_config, 'b) codec \<Rightarrow> u64 \<Rightarrow> stake_config \<Rightarrow> 'b account" where
  "stake_config_create_account kc tc lam config = create_config_account kc tc [] config lam"

text \<open>\<open>add_genesis_account\<close> of the stake configuration: the account and the lamports it reports.\<close>

definition stake_config_genesis_account ::
  "(config_keys, 'b) codec \<Rightarrow> (stake_config, 'b) codec \<Rightarrow> rent \<Rightarrow> u64 \<times> pubkey \<times> 'b account" where
  "stake_config_genesis_account kc tc r =
     (let account = create_config_account kc tc [] stake_config_default 0;
          l = minimum_balance r (length (data account))
      in (l, stake_config_id, account\<lparr>lamports := max l 1\<rparr>))"

section \<open>Updating a config account\<close>

definition signer_keys :: "config_keys \<Rightarrow> pubkey list" where
  "signer_keys keys = map fst (filter snd keys)"

text \<open>
  The loop over the new signers. The counter is that of the sources: the n-th new signer is
  looked up at index \<open>n + 1\<close> of the accounts unless it is the config account itself.
\<close>

fun config_signers_loop ::
  "keyed_account list \<Rightarrow> keyed_account \<Rightarrow> config_keys \<Rightarrow> pubkey list \<Rightarrow> nat \<Rightarrow> nat ires" where
  "config_signers_loop kas me current [] counter = Inr counter"
| "config_signers_loop kas me current (signer # signers) counter =
     (let counter = counter + 1 in
      and_then
        (if signer \<noteq> unsigned_key me then
           and_then (map_err (\<lambda>_. MissingRequiredSignature) (keyed_account_at_index kas (counter + 1))) (\<lambda>signer_account.
           case signer_key signer_account of
             None \<Rightarrow> fail MissingRequiredSignature
           | Some k \<Rightarrow>
               if k \<noteq> signer then fail MissingRequiredSignature
               else if current \<noteq> [] \<and> signer \<notin> set (signer_keys current) then fail MissingRequiredSignature
               else Inr ())
         else ensure (signer_key me \<noteq> None) MissingRequiredSignature)
        (\<lambda>_. config_signers_loop kas me current signers counter))"

text \<open>\<open>key_list\<close> is what \<open>limited_deserialize\<close> makes of the instruction data.\<close>

definition config_process_instruction ::
  "(config_keys, 'b) codec \<Rightarrow> feature set \<Rightarrow> keyed_account list \<Rightarrow> nat \<Rightarrow> config_keys option \<Rightarrow> 'b list
    \<Rightarrow> 'b store \<Rightarrow> 'b store ires" where
  "config_process_instruction kc fs kas first key_list bytes st =
     and_then (ok_or key_list InvalidInstructionData) (\<lambda>keys.
     and_then (keyed_account_at_index kas first) (\<lambda>me.
     and_then (ensure (owner (acct st me) = config_program_id) InvalidAccountOwner) (\<lambda>_.
     and_then (ok_or (decode kc (data (acct st me))) InvalidAccountData) (\<lambda>current.
     and_then (ensure (\<not> (signer_keys current = [] \<and> signer_key me = None)) MissingRequiredSignature) (\<lambda>_.
     and_then (config_signers_loop kas me current (signer_keys keys) 0) (\<lambda>counter.
     and_then (ensure (\<not> (is_active fs Dedupe_config_program_signers \<and> \<not> distinct keys)) InvalidArgument) (\<lambda>_.
     and_then (ensure (length (signer_keys current) \<le> counter) MissingRequiredSignature) (\<lambda>_.
     and_then (ensure (length bytes \<le> length (data (acct st me))) InvalidInstructionData) (\<lambda>_.
     upd_account me (\<lambda>a. Inr (a\<lparr>data := bytes @ drop (length bytes) (data a)\<rparr>)) st)))))))))"

section \<open>Properties\<close>

text \<open>The stake configuration written to a config account is the one the stake program reads
  back from it.
\<close>

theorem stake_config_roundtrip:
  assumes "codec_ok kc" "codec_ok tc"
  shows "stake_config_from kc tc (stake_config_create_account kc tc lam config) = Some config
    \<and> stake_config_from kc tc (snd (snd (stake_config_genesis_account kc tc r))) = Some stake_config_default"
proof -
  have "decode kc (encode kc ks @ rest) = Some ks" "decode tc (encode tc x) = Some x" for ks x rest
    using assms unfolding codec_ok_def by (auto, metis append_Nil2)
  then show ?thesis
    by (simp add: stake_config_from_def stake_config_create_account_def stake_config_genesis_account_def
        create_config_account_def get_config_data_def Let_def)
qed

text \<open>Cells that hold either kind of value make a codec for both.\<close>

definition sum_codec :: "('a + 'c \<Rightarrow> 's option) \<Rightarrow> ('s \<Rightarrow> 'a + 'c) \<Rightarrow> ('s, 'a + 'c) codec" where
  "sum_codec out into = \<lparr>encode = \<lambda>s. [into s], decode = \<lambda>d. case d of [] \<Rightarrow> None | x # _ \<Rightarrow> out x\<rparr>"

lemma sum_codec_ok: "(\<And>s. out (into s) = Some s) \<Longrightarrow> codec_ok (sum_codec out into)"
  by (simp add: sum_codec_def codec_ok_def)

definition demo_keys_codec :: "(config_keys, config_keys + stake_config) codec" where
  "demo_keys_codec = sum_codec (\<lambda>x. case x of Inl k \<Rightarrow> Some k | Inr _ \<Rightarrow> None) Inl"

definition demo_config_codec :: "(stake_config, config_keys + stake_config) codec" where
  "demo_config_codec = sum_codec (\<lambda>x. case x of Inr k \<Rightarrow> Some k | Inl _ \<Rightarrow> None) Inr"

lemma demo_config_codecs: "codec_ok demo_keys_codec" "codec_ok demo_config_codec"
  by (simp_all add: demo_keys_codec_def demo_config_codec_def sum_codec_ok)

theorem stake_config_roundtrip_witness:
  "stake_config_from demo_keys_codec demo_config_codec
     (stake_config_create_account demo_keys_codec demo_config_codec 7 stake_config_default) = Some stake_config_default"
  using stake_config_roundtrip [OF demo_config_codecs, of 7 stake_config_default rent_default] by blast

lemma config_signers_loop_Inr:
  assumes "config_signers_loop kas me current signers n = Inr counter"
  shows "counter = n + length signers"
    and "\<And>k. k \<in> set signers \<Longrightarrow> k = key me \<and> is_signer me \<or>
      (\<exists>ka \<in> set kas. signer_key ka = Some k) \<and> (current \<noteq> [] \<longrightarrow> k \<in> set (signer_keys current))"
  using assms
proof (induction kas me current signers n rule: config_signers_loop.induct)
  case (2 kas me current signer signers n)
  case 1
  then show ?case using "2.IH"(1) by (auto simp: res_elim Let_def split: if_splits option.splits)
next
  case (2 kas me current signer signers n)
  case 2
  have head: "signer = key me \<and> is_signer me \<or>
      (\<exists>ka \<in> set kas. signer_key ka = Some signer) \<and> (current \<noteq> [] \<longrightarrow> signer \<in> set (signer_keys current))"
    using 2(2) by (auto simp: res_elim acct Let_def unsigned_key_def signer_key_def split: if_splits option.splits)
  from 2 head show ?case using "2.IH"(2) by (auto simp: res_elim Let_def)
qed simp_all

lemma get_signers_iff: "k \<in> get_signers kas \<longleftrightarrow> (\<exists>ka \<in> set kas. signer_key ka = Some k)"
  by (force simp: get_signers_def List.map_filter_def)

lemma config_process_Inr:
  assumes "config_process_instruction kc fs kas first (Some keys) bytes st = Inr st'"
  obtains current where "first < length kas" "decode kc (data (acct st (kas ! first))) = Some current"
    "owner (acct st (kas ! first)) = config_program_id"
    "signer_keys current = [] \<longrightarrow> is_signer (kas ! first)"
    "config_signers_loop kas (kas ! first) current (signer_keys keys) 0 = Inr (length (signer_keys keys))"
    "is_active fs Dedupe_config_program_signers \<longrightarrow> distinct keys"
    "length (signer_keys current) \<le> length (signer_keys keys)"
    "st' = st(key (kas ! first) := (acct st (kas ! first))\<lparr>data := bytes @ drop (length bytes) (data (acct st (kas ! first)))\<rparr>)"
proof -
  from assms obtain current counter where 1: "first < length kas"
      "decode kc (data (acct st (kas ! first))) = Some current" "owner (acct st (kas ! first)) = config_program_id"
      "signer_keys current = [] \<longrightarrow> is_signer (kas ! first)"
    and loop: "config_signers_loop kas (kas ! first) current (signer_keys keys) 0 = Inr counter"
    and 2: "is_active fs Dedupe_config_program_signers \<longrightarrow> distinct keys" "length (signer_keys current) \<le> counter"
      "st' = st(key (kas ! first) := (acct st (kas ! first))\<lparr>data := bytes @ drop (length bytes) (data (acct st (kas ! first)))\<rparr>)"
    by (auto simp: config_process_instruction_def res_elim acct signer_key_def split: if_splits)
  have n: "counter = length (signer_keys keys)" using config_signers_loop_Inr(1) [OF loop] by simp
  show thesis by (rule that [OF 1 loop [unfolded n] 2 [unfolded n]])
qed

lemma distinct_signer_keys: "distinct keys \<Longrightarrow> distinct (signer_keys keys)"
  by (induction keys) (auto simp: signer_keys_def)

text \<open>C24: An update of a config account needs the signature of every signer it names, and of the
  account itself when no signers are stored. With deduplication on, unless the update names the
  config account among its signers, every stored signer has signed. The account then holds the
  new bytes; no lamports, owners or other accounts change.
\<close>

theorem config_update_authority:
  assumes "config_process_instruction kc fs kas first (Some keys) bytes st = Inr st'"
  shows "set (signer_keys keys) \<subseteq> get_signers kas
    \<and> (\<exists>current. decode kc (data (acct st (kas ! first))) = Some current
        \<and> (signer_keys current = [] \<longrightarrow> is_signer (kas ! first))
        \<and> (is_active fs Dedupe_config_program_signers \<and> key (kas ! first) \<notin> set (signer_keys keys)
            \<longrightarrow> set (signer_keys current) \<subseteq> get_signers kas))
    \<and> take (length bytes) (data (st' (key (kas ! first)))) = bytes
    \<and> (\<forall>k. lamports (st' k) = lamports (st k) \<and> owner (st' k) = owner (st k)
        \<and> (k \<noteq> key (kas ! first) \<longrightarrow> st' k = st k))"
proof (rule config_process_Inr [OF assms])
  fix current
  let ?me = "kas ! first"
  assume first: "first < length kas" and cur: "decode kc (data (acct st ?me)) = Some current"
    and init: "signer_keys current = [] \<longrightarrow> is_signer ?me"
    and loop: "config_signers_loop kas ?me current (signer_keys keys) 0 = Inr (length (signer_keys keys))"
    and ded: "is_active fs Dedupe_config_program_signers \<longrightarrow> distinct keys"
    and len: "length (signer_keys current) \<le> length (signer_keys keys)"
    and st': "st' = st(key ?me := (acct st ?me)\<lparr>data := bytes @ drop (length bytes) (data (acct st ?me))\<rparr>)"
  have me: "key ?me \<in> get_signers kas" if "is_signer ?me"
    unfolding get_signers_iff by (rule bexI [of _ ?me]) (use that first in \<open>simp_all add: signer_key_def\<close>)
  have signed: "set (signer_keys keys) \<subseteq> get_signers kas"
  proof
    fix k assume "k \<in> set (signer_keys keys)"
    from config_signers_loop_Inr(2) [OF loop this] me show "k \<in> get_signers kas" by (auto simp: get_signers_iff)
  qed
  moreover have "set (signer_keys current) \<subseteq> get_signers kas"
    if "is_active fs Dedupe_config_program_signers" "key ?me \<notin> set (signer_keys keys)"
  proof (cases "current = []")
    case False
    then have sub: "set (signer_keys keys) \<subseteq> set (signer_keys current)"
      using config_signers_loop_Inr(2) [OF loop] that(2) by (metis subsetI)
    have "card (set (signer_keys current)) \<le> card (set (signer_keys keys))"
      using distinct_card [OF distinct_signer_keys] ded that(1) len card_length [of "signer_keys current"] by fastforce
    with sub have "set (signer_keys keys) = set (signer_keys current)" by (intro card_seteq) auto
    with signed show ?thesis by simp
  qed (simp add: signer_keys_def)
  ultimately show ?thesis using cur init st' by (auto simp: acct_def)
qed

text \<open>
  A config account with two stored signers, and an update signed by one of them and by the
  account itself, which the update names as a signer.
\<close>

definition demo_config_account :: "(config_keys + stake_config) account" where
  "demo_config_account = create_config_account demo_keys_codec demo_config_codec [(5, True), (6, True)] stake_config_default 1"

definition demo_config_store :: "(config_keys + stake_config) store" where
  "demo_config_store = (\<lambda>k. if k = 4 then demo_config_account else demo_config_account\<lparr>owner := 0\<rparr>)"

definition demo_signer :: "pubkey \<Rightarrow> keyed_account" where
  "demo_signer k = \<lparr>is_signer = True, is_writable = True, key = k\<rparr>"

lemmas demo_config_simps = demo_config_store_def demo_config_account_def create_config_account_def demo_signer_def
  config_process_instruction_def demo_keys_codec_def demo_config_codec_def sum_codec_def signer_keys_def
  keyed_account_at_index_def acct_def upd_account_def signer_key_def unsigned_key_def is_active_def

theorem config_update_authority_witness:
  "\<exists>st'. config_process_instruction demo_keys_codec {Dedupe_config_program_signers}
      [demo_signer 0, demo_signer 4, demo_signer 5, demo_signer 6] 1 (Some [(5, True), (6, True)])
      [Inl [(5, True), (6, True)]] demo_config_store = Inr st'
    \<and> take 1 (data (st' 4)) = [Inl [(5, True), (6, True)]]"
proof -
  let ?kas = "[demo_signer 0, demo_signer 4, demo_signer 5, demo_signer 6]"
  obtain st' where run: "config_process_instruction demo_keys_codec {Dedupe_config_program_signers} ?kas 1
      (Some [(5, True), (6, True)]) [Inl [(5, True), (6, True)]] demo_config_store = Inr st'"
    by (simp add: demo_config_simps Let_def)
  have "key (?kas ! 1) = 4" by (simp add: demo_signer_def)
  with config_update_authority [OF run, THEN conjunct2, THEN conjunct2, THEN conjunct1]
  have "take 1 (data (st' 4)) = [Inl [(5, True), (6, True)]]" by simp
  with run show ?thesis by blast
qed

text \<open>
  The count of new signers is compared with the count of stored ones, so the config account stands
  in for a stored signer that did not sign.
\<close>

theorem config_update_without_stored_signer:
  "6 \<in> set (signer_keys [(5, True), (6, True)])
    \<and> 6 \<notin> get_signers [demo_signer 0, demo_signer 4, demo_signer 5]
    \<and> (\<exists>st'. config_process_instruction demo_keys_codec {Dedupe_config_program_signers}
        [demo_signer 0, demo_signer 4, demo_signer 5] 1 (Some [(5, True), (4, True)])
        [Inl [(5, True), (4, True)]] demo_config_store = Inr st')"
  by (simp add: demo_config_simps get_signers_def List.map_filter_def Let_def)

end
