(* ===== verification/Stake_Dispatch.thy ===== *)
theory Stake_Dispatch
  imports Stake_Program Config_Program
begin

text \<open>
  The instructions of the stake program and their dispatch
  (\<open>programs/stake/src/stake_instruction.rs\<close>), and the properties of the program as a whole:
  conservation of lamports, backing of delegations, withdrawals, lockups, splits and merges.
\<close>

section \<open>Instructions\<close>

record authorize_with_seed_args =
  new_authorized_pubkey :: pubkey
  seed_stake_authorize :: stake_authorize
  authority_seed :: string
  authority_owner :: pubkey

record authorize_checked_with_seed_args =
  checked_stake_authorize :: stake_authorize
  checked_authority_seed :: string
  checked_authority_owner :: pubkey

record lockup_checked_args =
  checked_unix_timestamp :: "int option"
  checked_epoch :: "epoch option"

datatype stake_instruction =
    Initialize authorized lockup
  | AuthorizeStake pubkey stake_authorize
  | DelegateStake
  | Split u64
  | WithdrawStake u64
  | Deactivate
  | SetLockup lockup_args
  | Merge
  | AuthorizeStakeWithSeed authorize_with_seed_args
  | InitializeChecked
  | AuthorizeStakeChecked stake_authorize
  | AuthorizeStakeCheckedWithSeed authorize_checked_with_seed_args
  | SetLockupChecked lockup_checked_args

text \<open>What the program is given: the codecs, the hash of derived addresses, the invoke context.\<close>

record 'b stake_env =
  s_codec :: "'b stake_codec"
  s_vote_codec :: "'b vote_codec"
  s_keys_codec :: "(config_keys, 'b) codec"
  s_config_codec :: "(stake_config, 'b) codec"
  s_hashv :: "pubkey \<Rightarrow> string \<Rightarrow> pubkey \<Rightarrow> hash"
  s_ctx :: invoke_context

definition optional_account :: "keyed_account list \<Rightarrow> nat \<Rightarrow> keyed_account option" where
  "optional_account kas i = (case keyed_account_at_index kas i of Inr ka \<Rightarrow> Some ka | Inl _ \<Rightarrow> None)"

text \<open>\<open>ins\<close> is what \<open>limited_deserialize\<close> makes of the instruction data.\<close>

definition stake_process_instruction ::
  "'b stake_env \<Rightarrow> keyed_account list \<Rightarrow> nat \<Rightarrow> stake_instruction option \<Rightarrow> 'b store \<Rightarrow> 'b store ires" where
  "stake_process_instruction env kas first ins st =
     (let c = s_codec env; ctx = s_ctx env; fs = features ctx in
      and_then (keyed_account_at_index kas first) (\<lambda>me.
      and_then (ensure (owner (acct st me) = stake_program_id) InvalidAccountOwner) (\<lambda>_.
      let signers = get_signers (drop first kas);
          at = (\<lambda>i. keyed_account_at_index kas (first + i));
          clock_at = (\<lambda>i. and_then (at i) (\<lambda>ka. sysvar_clock_checked ka ctx));
          history_at = (\<lambda>i. and_then (at i) (\<lambda>ka. sysvar_stake_history_checked ka ctx));
          rent_at = (\<lambda>i. and_then (at i) (\<lambda>ka. sysvar_rent_checked ka ctx));
          custodian_at = (\<lambda>i. map_option unsigned_key (optional_account kas (first + i)));
          require_custodian = is_active fs Require_custodian_for_locked_stake_authorize;
          checked = ensure (is_active fs Vote_stake_checked_instructions) InvalidInstructionData
      in
      and_then (ok_or ins InvalidInstructionData) (\<lambda>i. case i of
        Initialize auth l \<Rightarrow>
          and_then (rent_at 1) (\<lambda>r. stake_initialize c me auth l r st)
      | AuthorizeStake new_authority sa \<Rightarrow>
          if require_custodian then
            and_then (clock_at 1) (\<lambda>clk.
            and_then (at 2) (\<lambda>_.
            stake_authorize_account c me signers new_authority sa True clk (custodian_at 3) st))
          else stake_authorize_account c me signers new_authority sa False clock_default None st
      | AuthorizeStakeWithSeed args \<Rightarrow>
          and_then (at 1) (\<lambda>authority_base.
          if require_custodian then
            and_then (clock_at 2) (\<lambda>clk.
            stake_authorize_with_seed c (s_hashv env) me authority_base (authority_seed args) (authority_owner args)
              (new_authorized_pubkey args) (seed_stake_authorize args) True clk (custodian_at 3) st)
          else stake_authorize_with_seed c (s_hashv env) me authority_base (authority_seed args) (authority_owner args)
              (new_authorized_pubkey args) (seed_stake_authorize args) False clock_default None st)
      | DelegateStake \<Rightarrow>
          and_then (at 1) (\<lambda>vote.
          and_then (clock_at 2) (\<lambda>clk.
          and_then (history_at 3) (\<lambda>history.
          and_then (at 4) (\<lambda>config_account.
          and_then (ensure (unsigned_key config_account = stake_config_id) InvalidArgument) (\<lambda>_.
          and_then (ok_or (stake_config_from (s_keys_codec env) (s_config_codec env) (acct st config_account)) InvalidArgument)
            (\<lambda>config.
          stake_delegate c (s_vote_codec env) me vote clk history config signers st))))))
      | Split l \<Rightarrow> and_then (at 1) (\<lambda>split. stake_split c me l split signers st)
      | Merge \<Rightarrow>
          and_then (at 1) (\<lambda>source.
          and_then (clock_at 2) (\<lambda>clk.
          and_then (history_at 3) (\<lambda>history.
          stake_merge c fs me source clk history signers st)))
      | WithdrawStake l \<Rightarrow>
          and_then (at 1) (\<lambda>to.
          and_then (clock_at 2) (\<lambda>clk.
          and_then (history_at 3) (\<lambda>history.
          and_then (at 4) (\<lambda>withdraw_authority.
          stake_withdraw c me l to clk history withdraw_authority (optional_account kas (first + 5)) st))))
      | Deactivate \<Rightarrow> and_then (clock_at 1) (\<lambda>clk. stake_deactivate c me clk signers st)
      | SetLockup args \<Rightarrow>
          and_then (get_clock (sysvars ctx)) (\<lambda>clk. stake_set_lockup c me args signers clk st)
      | InitializeChecked \<Rightarrow>
          and_then checked (\<lambda>_.
          and_then (at 2) (\<lambda>staker_account.
          and_then (at 3) (\<lambda>withdrawer_account.
          and_then (ok_or (signer_key withdrawer_account) MissingRequiredSignature) (\<lambda>w.
          and_then (rent_at 1) (\<lambda>r.
          stake_initialize c me \<lparr>staker = unsigned_key staker_account, withdrawer = w\<rparr> lockup_default r st)))))
      | AuthorizeStakeChecked sa \<Rightarrow>
          and_then checked (\<lambda>_.
          and_then (clock_at 1) (\<lambda>clk.
          and_then (at 2) (\<lambda>_.
          and_then (at 3) (\<lambda>ka.
          and_then (ok_or (signer_key ka) MissingRequiredSignature) (\<lambda>new_authority.
          stake_authorize_account c me signers new_authority sa True clk (custodian_at 4) st)))))
      | AuthorizeStakeCheckedWithSeed args \<Rightarrow>
          and_then checked (\<lambda>_.
          and_then (at 1) (\<lambda>authority_base.
          and_then (clock_at 2) (\<lambda>clk.
          and_then (at 3) (\<lambda>ka.
          and_then (ok_or (signer_key ka) MissingRequiredSignature) (\<lambda>new_authority.
          stake_authorize_with_seed c (s_hashv env) me authority_base (checked_authority_seed args)
            (checked_authority_owner args) new_authority (checked_stake_authorize args) True clk (custodian_at 4) st)))))
      | SetLockupChecked args \<Rightarrow>
          and_then checked (\<lambda>_.
          and_then (case optional_account kas (first + 2) of
              Some ka \<Rightarrow> and_then (ok_or (signer_key ka) MissingRequiredSignature) (\<lambda>k. Inr (Some k))
            | None \<Rightarrow> Inr None) (\<lambda>custodian.
          and_then (get_clock (sysvars ctx)) (\<lambda>clk.
          stake_set_lockup c me \<lparr>args_unix_timestamp = checked_unix_timestamp args, args_epoch = checked_epoch args,
            args_custodian = custodian\<rparr> signers clk st)))))))"

section \<open>What a successful instruction did\<close>

lemma stake_dispatch:
  assumes "stake_process_instruction env kas first ins st = Inr st'"
  obtains (initialize) auth l r where "owner (acct st (kas ! first)) = stake_program_id"
      "sysvar_rent (sysvars (s_ctx env)) = Some r"
      "stake_initialize (s_codec env) (kas ! first) auth l r st = Inr st'"
  | (authorize) sg n sa rq clk cu where "owner (acct st (kas ! first)) = stake_program_id"
      "stake_authorize_account (s_codec env) (kas ! first) sg n sa rq clk cu st = Inr st'"
  | (lockup) args clk where "owner (acct st (kas ! first)) = stake_program_id"
      "sysvar_clock (sysvars (s_ctx env)) = Some clk"
      "stake_set_lockup (s_codec env) (kas ! first) args (get_signers (drop first kas)) clk st = Inr st'"
  | (delegate) va clk h cfg where "ins = Some DelegateStake" "owner (acct st (kas ! first)) = stake_program_id"
      "sysvar_clock (sysvars (s_ctx env)) = Some clk"
      "stake_delegate (s_codec env) (s_vote_codec env) (kas ! first) va clk h cfg (get_signers (drop first kas)) st = Inr st'"
  | (deactivate) clk where "owner (acct st (kas ! first)) = stake_program_id"
      "sysvar_clock (sysvars (s_ctx env)) = Some clk"
      "stake_deactivate (s_codec env) (kas ! first) clk (get_signers (drop first kas)) st = Inr st'"
  | (split) l sp where "owner (acct st (kas ! first)) = stake_program_id"
      "stake_split (s_codec env) (kas ! first) l sp (get_signers (drop first kas)) st = Inr st'"
  | (merge) src clk h where "owner (acct st (kas ! first)) = stake_program_id"
      "sysvar_clock (sysvars (s_ctx env)) = Some clk"
      "stake_merge (s_codec env) (features (s_ctx env)) (kas ! first) src clk h (get_signers (drop first kas)) st = Inr st'"
  | (withdraw) l to clk h wa cu where "owner (acct st (kas ! first)) = stake_program_id"
      "sysvar_clock (sysvars (s_ctx env)) = Some clk"
      "stake_withdraw (s_codec env) (kas ! first) l to clk h wa cu st = Inr st'"
proof -
  obtain i where i: "ins = Some i" and first: "first < length kas"
    and own: "owner (acct st (kas ! first)) = stake_program_id"
    using assms by (auto simp: stake_process_instruction_def Let_def res_elim acct)
  note run = assms [unfolded stake_process_instruction_def Let_def i, simplified res_elim acct]
  note chk = sysvar_clock_checked_def get_clock_def sysvar_rent_checked_def get_rent_def
  have seed: thesis if "stake_authorize_with_seed (s_codec env) hv (kas ! first) b sd ow n sa rq clk cu st = Inr st'"
    for hv b sd ow n sa rq clk cu
    using that by (rule stake_authorize_with_seed_Inr) (rule authorize [OF own])
  show thesis
  proof (cases i)
    case (Initialize auth l)
    then show thesis using run own by (auto simp: res_elim chk intro: initialize)
  next
    case (AuthorizeStake n sa)
    then show thesis using run own by (auto simp: res_elim intro: authorize split: if_splits)
  next
    case DelegateStake
    then show thesis using run own i by (auto simp: res_elim chk intro: delegate)
  next
    case (Split l)
    then show thesis using run own by (auto simp: res_elim intro: split)
  next
    case (WithdrawStake l)
    then show thesis using run own by (auto simp: res_elim chk intro: withdraw)
  next
    case Deactivate
    then show thesis using run own by (auto simp: res_elim chk intro: deactivate)
  next
    case (SetLockup args)
    then show thesis using run own by (auto simp: res_elim chk intro: lockup)
  next
    case Merge
    then show thesis using run own by (auto simp: res_elim chk intro: merge)
  next
    case (AuthorizeStakeWithSeed args)
    then show thesis using run by (auto simp: res_elim split: if_splits dest: seed)
  next
    case InitializeChecked
    then show thesis using run own by (auto simp: res_elim chk intro: initialize)
  next
    case (AuthorizeStakeChecked sa)
    then show thesis using run own by (auto simp: res_elim intro: authorize)
  next
    case (AuthorizeStakeCheckedWithSeed args)
    then show thesis using run by (auto simp: res_elim dest: seed)
  next
    case (SetLockupChecked args)
    then show thesis using run own by (auto simp: res_elim chk intro: lockup)
  qed
qed

section \<open>Conservation\<close>

fun stake_step ::
  "'b stake_env \<times> keyed_account list \<times> nat \<times> stake_instruction option \<Rightarrow> 'b store \<Rightarrow> 'b store ires" where
  "stake_step (env, kas, first, ins) st = stake_process_instruction env kas first ins st"

lemma stake_process_instruction_total:
  assumes "stake_process_instruction env kas first ins st = Inr st'"
  shows "total_lamports st' = total_lamports st"
  using assms
  by (rule stake_dispatch)
    (auto dest: stake_setters_total stake_split_total stake_merge_total stake_withdraw_total)

interpretation stake_lamports: conserving_machine stake_step "\<lambda>_. True" total_lamports
  by unfold_locales (auto dest: stake_process_instruction_total)

text \<open>C25: Whatever instructions the stake program is sent, as long as they succeed no lamport is
  created or destroyed.\<close>

theorem stake_instructions_conserve:
  assumes "run_steps stake_step is st = Inr st'"
  shows "total_lamports st' = total_lamports st"
  by (rule stake_lamports.run_total [OF _ assms]) simp

section \<open>Backing of delegations\<close>

text \<open>A context whose epoch has not reached the end of time and whose rent is a number.\<close>

definition stake_ctx_ok :: "invoke_context \<Rightarrow> bool" where
  "stake_ctx_ok ctx \<longleftrightarrow>
     (case sysvar_clock (sysvars ctx) of Some clk \<Rightarrow> clock_epoch clk \<noteq> u64_MAX | None \<Rightarrow> True)
   \<and> (case sysvar_rent (sysvars ctx) of Some r \<Rightarrow> minimum_balance r STAKE_STATE_SIZE \<noteq> u64_MAX | None \<Rightarrow> True)"

definition rescinding :: "'b stake_env \<Rightarrow> keyed_account list \<Rightarrow> nat \<Rightarrow> stake_instruction option \<Rightarrow> 'b store \<Rightarrow> bool" where
  "rescinding env kas first ins st \<longleftrightarrow> ins = Some DelegateStake
     \<and> (\<exists>clk. sysvar_clock (sysvars (s_ctx env)) = Some clk \<and> rescinds (s_codec env) (kas ! first) clk st)"

lemma stake_instruction_backed:
  assumes "codec_ok (s_codec env)" "stake_ctx_ok (s_ctx env)" "stakes_backed (s_codec env) st"
    and "\<not> rescinding env kas first ins st" "stake_process_instruction env kas first ins st = Inr st'"
  shows "stakes_backed (s_codec env) st'"
  using assms(5)
proof (rule stake_dispatch)
  fix va clk h cfg
  assume "ins = Some DelegateStake" "sysvar_clock (sysvars (s_ctx env)) = Some clk"
    and d: "owner (acct st (kas ! first)) = stake_program_id"
      "stake_delegate (s_codec env) (s_vote_codec env) (kas ! first) va clk h cfg (get_signers (drop first kas)) st = Inr st'"
  with assms(4) have "\<not> rescinds (s_codec env) (kas ! first) clk st" by (auto simp: rescinding_def)
  with d show ?thesis by (intro stake_delegate_backed [OF assms(1,3)])
qed (use assms(1-3) in \<open>auto simp: stake_ctx_ok_def dest: stake_initialize_backed stake_authorize_backed
  stake_set_lockup_backed stake_deactivate_backed stake_split_backed stake_merge_backed stake_withdraw_backed\<close>)

text \<open>Instructions of one environment other than delegations keep all delegations backed for ever.\<close>

fun no_delegation ::
  "'b stake_codec \<Rightarrow> 'b stake_env \<times> keyed_account list \<times> nat \<times> stake_instruction option \<Rightarrow> bool" where
  "no_delegation c (env, kas, first, ins) \<longleftrightarrow>
     s_codec env = c \<and> codec_ok c \<and> stake_ctx_ok (s_ctx env) \<and> ins \<noteq> Some DelegateStake"

interpretation backing: machine stake_step "no_delegation c" "stakes_backed c" for c
proof (unfold_locales, goal_cases)
  case (1 st i st')
  obtain env kas first ins where i: "i = (env, kas, first, ins)" by (metis prod_cases4)
  with 1 have "\<not> rescinding env kas first ins st" by (simp add: rescinding_def)
  with 1 i show ?case using stake_instruction_backed [of env st kas first ins st'] by simp
qed


section \<open>Withdrawals and lockups\<close>

lemma is_in_force_custodian:
  "is_in_force lk clk cu \<longleftrightarrow> is_in_force lk clk None \<and> cu \<noteq> Some (lockup_custodian lk)"
  by (auto simp: is_in_force_def)

definition staked_lamports :: "stake \<Rightarrow> clock \<Rightarrow> stake_history \<Rightarrow> u64" where
  "staked_lamports s clk h =
     (if deactivation_epoch (stake_delegation s) \<le> clock_epoch clk
      then delegation_stake (stake_delegation s) (clock_epoch clk) (Some h)
      else delegated_stake (stake_delegation s))"

text \<open>What must hold of an account for a withdrawal of \<open>l\<close> that leaves \<open>rest\<close> lamports.\<close>

fun may_withdraw :: "stake_state \<Rightarrow> pubkey \<Rightarrow> clock \<Rightarrow> stake_history \<Rightarrow> pubkey option \<Rightarrow> pubkey option \<Rightarrow> nat \<Rightarrow> bool" where
  "may_withdraw (Stake m s) me clk h who cu rest \<longleftrightarrow>
     who = Some (withdrawer (meta_authorized m)) \<and> \<not> is_in_force (meta_lockup m) clk cu
     \<and> (unat (staked_lamports s clk h) + unat (rent_exempt_reserve m) \<le> rest \<or> rest = 0 \<and> staked_lamports s clk h = 0)"
| "may_withdraw (Initialized m) me clk h who cu rest \<longleftrightarrow>
     who = Some (withdrawer (meta_authorized m)) \<and> \<not> is_in_force (meta_lockup m) clk cu
     \<and> (unat (rent_exempt_reserve m) + 1 \<le> rest \<or> rest = 0)"
| "may_withdraw Uninitialized me clk h who cu rest \<longleftrightarrow> who = Some me \<and> \<not> is_in_force lockup_default clk cu"
| "may_withdraw RewardsPool me clk h who cu rest \<longleftrightarrow> False"

lemma withdraw_terms_may:
  assumes "withdraw_terms me clk h who state = Inr (lk, reserve, is_staked)" "\<not> is_in_force lk clk cu"
    and "checked_add l reserve = Inr tot" "is_staked \<longrightarrow> tot \<le> L" "l \<noteq> L \<longrightarrow> tot \<le> L" "l \<le> L"
  shows "may_withdraw state (key me) clk h (Some who) cu (unat L - unat l)"
  using assms(1,2,4-6) checked_add_unat [OF assms(3)] unfolding withdraw_terms_def
  by (cases state)
    (auto simp: res_elim Let_def authorized_check_def staked_lamports_def unsigned_key_def word_le_nat_alt
      MINIMUM_STAKE_DELEGATION_def word_unat_eq_iff dest!: checked_add_unat split: if_splits)

text \<open>C27: A withdrawal from a stake account needs the signature of the withdrawer (of the account
  itself when it is uninitialized) and a lockup that has passed or whose custodian signed; it moves
  exactly the amount asked for; what stays covers the stake still effective or delegated and the
  rent reserve, or the account is emptied, unstaked and deinitialized. No third account changes.
\<close>

theorem stake_withdraw_effect:
  assumes "stake_withdraw c me l to clk h wa cu st = Inr st'" "codec_ok c"
    and "get_state c (acct st me) = Inr state" "key to \<noteq> key me"
  shows "may_withdraw state (key me) clk h (signer_key wa) (Option.bind cu signer_key)
      (unat (lamports (acct st' me)))
    \<and> unat (lamports (acct st' me)) + unat l = unat (lamports (acct st me))
    \<and> unat (lamports (acct st' to)) = unat (lamports (acct st to)) + unat l
    \<and> get_state c (acct st' me) = Inr (if lamports (acct st' me) = 0 then Uninitialized else state)
    \<and> (\<forall>k. k \<noteq> key me \<and> k \<noteq> key to \<longrightarrow> st' k = st k)"
proof (rule stake_withdraw_Inr [OF assms(1)])
  fix who state' lk reserve is_staked tot st1 st2
  assume who: "signer_key wa = Some who" and g: "get_state c (acct st me) = Inr state'"
    and terms: "withdraw_terms me clk h who state' = Inr (lk, reserve, is_staked)"
      "\<not> is_in_force lk clk (Option.bind cu signer_key)" "checked_add l reserve = Inr tot"
      "is_staked \<longrightarrow> tot \<le> lamports (acct st me)" "l \<noteq> lamports (acct st me) \<longrightarrow> tot \<le> lamports (acct st me)"
    and w: "(if l = lamports (acct st me) then upd_account me (set_state c Uninitialized) st else Inr st) = Inr st1"
      "upd_account me (checked_sub_lamports l) st1 = Inr st2" "upd_account to (checked_add_lamports l) st2 = Inr st'"
  have state: "state' = state" "sv_state (view c st (key me)) = Some state" using g assms(3) get_state_view by (simp, metis)
  note v = withdraw_view [OF assms(2) w]
  have me: "view c st' (key me) = (view c st (key me))\<lparr>sv_lam := unat (lamports (acct st me)) - unat l,
      sv_state := (if l = lamports (acct st me) then Some Uninitialized else Some state)\<rparr>"
    using v(2) assms(4) state(2) by (simp add: Let_def)
  have to: "view c st' (key to) = (view c st (key to))\<lparr>sv_lam := unat (lamports (acct st to)) + unat l\<rparr>"
    using v(2) assms(4) by (simp add: Let_def)
  have lam: "unat (lamports (acct st' me)) = unat (lamports (acct st me)) - unat l"
    "unat (lamports (acct st' to)) = unat (lamports (acct st to)) + unat l"
    using arg_cong [OF me, of sv_lam] arg_cong [OF to, of sv_lam] by simp_all
  have "l = lamports (acct st me) \<longleftrightarrow> lamports (acct st' me) = 0"
    using lam(1) v(1) by (auto simp: word_unat_eq_iff)
  then have "get_state c (acct st' me) = Inr (if lamports (acct st' me) = 0 then Uninitialized else state)"
    using arg_cong [OF me, of sv_state] by (simp add: get_state_view)
  moreover have "st' k = st k" if "k \<noteq> key me" "k \<noteq> key to" for k
    using w that by (auto simp: acct split: if_splits)
  moreover have "may_withdraw state (key me) clk h (signer_key wa) (Option.bind cu signer_key) (unat (lamports (acct st' me)))"
    unfolding lam(1) who using terms state(1) v(1) by (intro withdraw_terms_may) (auto simp: word_le_nat_alt)
  ultimately show ?thesis using lam v(1) by simp
qed


section \<open>Splits and merges\<close>

lemma split_off_frame:
  assumes "stake_split_off delta amount s = Inr (new, s')"
  shows "stake_delegation new = (stake_delegation s)\<lparr>delegated_stake := delegated_stake (stake_delegation new)\<rparr>"
    "credits_observed new = credits_observed s"
  using assms by (auto simp: stake_split_off_def Let_def res_elim split: if_splits)

text \<open>C29: Splitting a stake makes no stake out of nothing: with the staker's signature the lamports
  move, the new account keeps the authorities, lockup and every term of the delegation but its
  amount, and the delegated stake of both accounts together is at most what it was; a source that
  gave everything away is deinitialized.
\<close>

theorem stake_split_effect:
  assumes "stake_split c me l sp sg st = Inr st'" "codec_ok c" "stakes_backed c st"
    and "owner (acct st me) = stake_program_id" "get_state c (acct st me) = Inr (Stake m s)"
  shows "staker (meta_authorized m) \<in> sg
    \<and> unat (lamports (acct st' me)) + unat l = unat (lamports (acct st me))
    \<and> unat (lamports (acct st' sp)) = unat (lamports (acct st sp)) + unat l
    \<and> (\<exists>m' new rest. get_state c (acct st' sp) = Inr (Stake m' new)
        \<and> meta_authorized m' = meta_authorized m \<and> meta_lockup m' = meta_lockup m
        \<and> stake_delegation new = (stake_delegation s)\<lparr>delegated_stake := delegated_stake (stake_delegation new)\<rparr>
        \<and> credits_observed new = credits_observed s
        \<and> unat (delegated_stake (stake_delegation new)) + rest \<le> unat (delegated_stake (stake_delegation s))
        \<and> (if lamports (acct st' me) = 0 then get_state c (acct st' me) = Inr Uninitialized \<and> rest = 0
           else \<exists>s'. get_state c (acct st' me) = Inr (Stake m s') \<and> rest = unat (delegated_stake (stake_delegation s'))))"
proof (rule stake_split_Inr [OF assms(1)])
  fix state st1 st2 st3
  assume g: "get_state c (acct st me) = Inr state" "get_state c (acct st sp) = Inr Uninitialized"
    and len: "length (data (acct st sp)) = STAKE_STATE_SIZE" and le: "l \<le> lamports (acct st me)"
    and w: "split_writes c me l sp sg st state st1"
    and tail: "(if l = lamports (acct st1 me) then upd_account me (set_state c Uninitialized) st1 else Inr st1) = Inr st2"
      "upd_account sp (checked_add_lamports l) st2 = Inr st3" "upd_account me (checked_sub_lamports l) st3 = Inr st'"
  from g assms(5) have st: "state = Stake m s" and ne: "key me \<noteq> key sp" by (auto simp: acct_def)
  from w st obtain info new s' st0 where sg: "staker (meta_authorized m) \<in> sg"
    and v: "validate_split_amount me sp l m (Some s) st = Inr info"
    and so: "stake_split_off (fst (split_amounts l m info (lamports (acct st sp))))
       (snd (split_amounts l m info (lamports (acct st sp)))) s = Inr (new, s')"
    and sets: "upd_account me (set_state c (Stake m s')) st = Inr st0"
      "upd_account sp (set_state c (Stake
         (m\<lparr>rent_exempt_reserve := destination_rent_exempt_reserve info\<rparr>) new)) st0 = Inr st1"
    by (auto simp: split_writes_def)
  let ?m' = "m\<lparr>rent_exempt_reserve := destination_rent_exempt_reserve info\<rparr>" and ?L = "lamports (acct st me)"
  have "lamports (acct st1 me) = ?L"
    using set_state_frame_store(1) [OF sets(1)] set_state_frame_store(1) [OF sets(2)] by (simp add: acct_def)
  note tv = split_tail_view [OF assms(2) tail ne, unfolded this]
  have vm: "view c st' (key me) = (view c st (key me))\<lparr>sv_lam := unat ?L - unat l,
      sv_state := Some (if l = ?L then Uninitialized else Stake m s')\<rparr>"
    and vs: "view c st' (key sp) = (view c st (key sp))\<lparr>sv_lam := unat (lamports (acct st sp)) + unat l, sv_state := Some (Stake ?m' new)\<rparr>"
    unfolding tv using ne by (simp_all add: view_set_state [OF assms(2) sets(1)] view_set_state [OF assms(2) sets(2)])
  have lam: "unat (lamports (acct st' me)) = unat ?L - unat l" "unat (lamports (acct st' sp)) = unat (lamports (acct st sp)) + unat l"
    using arg_cong [OF vm, of sv_lam] arg_cong [OF vs, of sv_lam] by simp_all
  have get: "get_state c (acct st' me) = Inr (if l = ?L then Uninitialized else Stake m s')"
    "get_state c (acct st' sp) = Inr (Stake ?m' new)"
    using arg_cong [OF vm, of sv_state] arg_cong [OF vs, of sv_state] by (simp_all add: get_state_view)
  have z: "l = ?L \<longleftrightarrow> lamports (acct st' me) = 0" using lam(1) le by (auto simp: word_unat_eq_iff word_le_nat_alt)
  have "length (data (acct st me)) = STAKE_STATE_SIZE" using stakes_backedD [OF assms(3-5)] by simp
  note rem = validate_split_amount_Inr(3) [OF v this len]
  have "source_remaining_balance info = 0 \<longleftrightarrow> l = ?L" using rem le by (auto simp: word_unat_eq_iff word_le_nat_alt)
  then have "unat (delegated_stake (stake_delegation new))
      + (if lamports (acct st' me) = 0 then 0 else unat (delegated_stake (stake_delegation s'))) \<le> unat (delegated_stake (stake_delegation s))"
    using split_off_Inr(1,2) [OF so] split_amounts_unat [of l m info "lamports (acct st sp)"] z by (auto split: if_splits)
  with sg lam get z le split_off_frame [OF so] show ?thesis
    by (intro conjI exI [of _ ?m'] exI [of _ new] exI [of _ "if lamports (acct st' me) = 0 then 0
      else unat (delegated_stake (stake_delegation s'))"]) (auto simp: word_le_nat_alt)
qed

lemma get_if_mergeable_meta:
  "get_if_mergeable c ka clk h st = Inr mk \<Longrightarrow>
     \<exists>state. get_state c (acct st ka) = Inr state \<and> state_meta state = Some (mk_meta mk)"
  by (elim get_if_mergeable_Inr) auto

lemma get_if_mergeable_effective:
  assumes "get_if_mergeable c ka clk h st = Inr mk" "get_state c (acct st ka) = Inr (Stake m s)"
    and "delegation_stake (stake_delegation s) (clock_epoch clk) (Some h) \<noteq> 0"
  shows "mk = FullyActive m s"
  using assms by (auto simp: get_if_mergeable_def delegation_stake_def Let_def res_elim split: if_splits)

lemma metas_can_merge_Inr:
  "metas_can_merge m ms clk = Inr u \<longleftrightarrow> meta_authorized m = meta_authorized ms
     \<and> (meta_lockup m = meta_lockup ms
        \<or> \<not> is_in_force (meta_lockup m) clk None \<and> \<not> is_in_force (meta_lockup ms) clk None)"
  by (auto simp: metas_can_merge_def Let_def res_elim)

lemma active_merge_voter:
  "(if b then active_delegations_can_merge (stake_delegation s) (stake_delegation s2) else active_stakes_can_merge s s2) = Inr u \<Longrightarrow>
     voter_pubkey (stake_delegation s) = voter_pubkey (stake_delegation s2)
     \<and> deactivation_epoch (stake_delegation s) = u64_MAX \<and> deactivation_epoch (stake_delegation s2) = u64_MAX"
  by (auto simp: active_stakes_can_merge_def active_delegations_can_merge_def res_elim split: if_splits)

lemma merge_view:
  assumes "codec_ok c" "key src \<noteq> key me"
    and "(case merged of Some x \<Rightarrow> upd_account me (set_state c x) st | None \<Rightarrow> Inr st) = Inr st1"
    and "upd_account src (set_state c Uninitialized) st1 = Inr st2"
      "upd_account src (checked_sub_lamports (lamports (acct st2 src))) st2 = Inr st3"
      "upd_account me (checked_add_lamports (lamports (acct st2 src))) st3 = Inr st'"
  shows "view c st' = (view c st)(key me := (view c st (key me))\<lparr>
       sv_state := (case merged of Some x \<Rightarrow> Some x | None \<Rightarrow> sv_state (view c st (key me))),
       sv_lam := unat (lamports (acct st me)) + unat (lamports (acct st src))\<rparr>,
     key src := (view c st (key src))\<lparr>sv_state := Some Uninitialized, sv_lam := 0\<rparr>)"
proof -
  have v1: "view c st1 = (view c st)(key me := (view c st (key me))\<lparr>sv_state :=
      (case merged of Some x \<Rightarrow> Some x | None \<Rightarrow> sv_state (view c st (key me)))\<rparr>)"
    using assms(3) view_set_state [OF assms(1)] by (auto split: option.splits)
  note v2 = view_set_state [OF assms(1,4)]
  have "unat (lamports (acct st2 src)) = sv_lam (view c st2 (key src))" by simp
  also have "\<dots> = unat (lamports (acct st src))" unfolding v2 v1 using assms(2) by simp
  finally have l: "unat (lamports (acct st2 src)) = unat (lamports (acct st src))" .
  note v3 = view_sub_lamports [OF assms(5), of c, THEN conjunct1, unfolded l]
    and v4 = view_add_lamports [OF assms(6), of c, unfolded l]
  show ?thesis unfolding v4 v3 v2 v1 using assms(2) by (simp add: fun_upd_twist fun_upd_idem_iff)
qed

text \<open>C30: A merge needs the staker's signature and accounts with the same authorities and matching
  or expired lockups; it moves every lamport of the source and deinitializes it. Two active stakes
  merge only when they delegate to the same vote account and neither is deactivated, and the
  result delegates exactly the sum.
\<close>

theorem stake_merge_effect:
  assumes "stake_merge c fs me src clk h sg st = Inr st'" "codec_ok c"
  shows "unat (lamports (acct st' me)) = unat (lamports (acct st me)) + unat (lamports (acct st src))
    \<and> lamports (acct st' src) = 0 \<and> get_state c (acct st' src) = Inr Uninitialized
    \<and> (\<exists>state source m ms. get_state c (acct st me) = Inr state \<and> get_state c (acct st src) = Inr source
        \<and> state_meta state = Some m \<and> state_meta source = Some ms
        \<and> staker (meta_authorized m) \<in> sg \<and> meta_authorized m = meta_authorized ms
        \<and> (meta_lockup m = meta_lockup ms
           \<or> \<not> is_in_force (meta_lockup m) clk None \<and> \<not> is_in_force (meta_lockup ms) clk None)
        \<and> (\<forall>s s2. state = Stake m s \<and> source = Stake ms s2
             \<and> delegation_stake (stake_delegation s) (clock_epoch clk) (Some h) \<noteq> 0
             \<and> delegation_stake (stake_delegation s2) (clock_epoch clk) (Some h) \<noteq> 0
             \<longrightarrow> voter_pubkey (stake_delegation s) = voter_pubkey (stake_delegation s2)
               \<and> deactivation_epoch (stake_delegation s) = u64_MAX \<and> deactivation_epoch (stake_delegation s2) = u64_MAX
               \<and> (\<exists>s'. get_state c (acct st' me) = Inr (Stake m s')
                   \<and> unat (delegated_stake (stake_delegation s'))
                      = unat (delegated_stake (stake_delegation s)) + unat (delegated_stake (stake_delegation s2)))))"
proof (rule stake_merge_Inr [OF assms(1)])
  fix mk smk merged st1 st2 st3
  assume ne: "key src \<noteq> key me" and mk: "get_if_mergeable c me clk h st = Inr mk"
    and sg: "staker (meta_authorized (mk_meta mk)) \<in> sg" and smk: "get_if_mergeable c src clk h st = Inr smk"
    and mrg: "merge_kind_merge fs mk smk clk = Inr merged"
    and w: "(case merged of Some x \<Rightarrow> upd_account me (set_state c x) st | None \<Rightarrow> Inr st) = Inr st1"
      "upd_account src (set_state c Uninitialized) st1 = Inr st2"
      "upd_account src (checked_sub_lamports (lamports (acct st2 src))) st2 = Inr st3"
      "upd_account me (checked_add_lamports (lamports (acct st2 src))) st3 = Inr st'"
  note v = merge_view [OF assms(2) ne w]
  have "unat (lamports (acct st' me)) = sv_lam (view c st' (key me))" "unat (lamports (acct st' src)) = sv_lam (view c st' (key src))"
    by simp_all
  then have lam: "unat (lamports (acct st' me)) = unat (lamports (acct st me)) + unat (lamports (acct st src))"
    "lamports (acct st' src) = 0" "get_state c (acct st' src) = Inr Uninitialized"
    using ne by (simp_all add: get_state_view v unat_eq_0)
  obtain state source where g: "get_state c (acct st me) = Inr state" "get_state c (acct st src) = Inr source"
    "state_meta state = Some (mk_meta mk)" "state_meta source = Some (mk_meta smk)"
    using get_if_mergeable_meta [OF mk] get_if_mergeable_meta [OF smk] by blast
  from mrg have metas: "metas_can_merge (mk_meta mk) (mk_meta smk) clk = Inr ()"
    by (auto simp: merge_kind_merge_def res_elim)
  have act: "voter_pubkey (stake_delegation s) = voter_pubkey (stake_delegation s2)
      \<and> deactivation_epoch (stake_delegation s) = u64_MAX \<and> deactivation_epoch (stake_delegation s2) = u64_MAX
      \<and> (\<exists>s'. get_state c (acct st' me) = Inr (Stake m s')
          \<and> unat (delegated_stake (stake_delegation s'))
             = unat (delegated_stake (stake_delegation s)) + unat (delegated_stake (stake_delegation s2)))"
    if "mk = FullyActive m s" "smk = FullyActive ms s2" for m s ms s2
  proof -
    from mrg that obtain s' where s': "merged = Some (Stake m s')"
      "merge_delegation_stake_and_credits_observed fs (delegated_stake (stake_delegation s2)) (credits_observed s2) s = Inr s'"
      "(if is_active fs Stake_merge_with_unmatched_credits_observed
        then active_delegations_can_merge (stake_delegation s) (stake_delegation s2) else active_stakes_can_merge s s2) = Inr ()"
      by (auto simp: merge_kind_merge_def res_elim)
    have "get_state c (acct st' me) = Inr (Stake m s')" using s'(1) ne by (simp add: get_state_view v)
    with merge_stakes_Inr [OF s'(2)] active_merge_voter [OF s'(3)] show ?thesis by blast
  qed
  have fin: "\<forall>s s2. state = Stake (mk_meta mk) s \<and> source = Stake (mk_meta smk) s2
       \<and> delegation_stake (stake_delegation s) (clock_epoch clk) (Some h) \<noteq> 0
       \<and> delegation_stake (stake_delegation s2) (clock_epoch clk) (Some h) \<noteq> 0
       \<longrightarrow> voter_pubkey (stake_delegation s) = voter_pubkey (stake_delegation s2)
         \<and> deactivation_epoch (stake_delegation s) = u64_MAX \<and> deactivation_epoch (stake_delegation s2) = u64_MAX
         \<and> (\<exists>s'. get_state c (acct st' me) = Inr (Stake (mk_meta mk) s')
             \<and> unat (delegated_stake (stake_delegation s'))
                = unat (delegated_stake (stake_delegation s)) + unat (delegated_stake (stake_delegation s2)))"
  proof (intro allI impI, elim conjE)
    fix s s2 assume "state = Stake (mk_meta mk) s" "source = Stake (mk_meta smk) s2"
      and ne0: "delegation_stake (stake_delegation s) (clock_epoch clk) (Some h) \<noteq> 0"
        "delegation_stake (stake_delegation s2) (clock_epoch clk) (Some h) \<noteq> 0"
    with g(1,2) have "mk = FullyActive (mk_meta mk) s" "smk = FullyActive (mk_meta smk) s2"
      by (blast intro: get_if_mergeable_effective [OF mk _ ne0(1)] get_if_mergeable_effective [OF smk _ ne0(2)])+
    then show "voter_pubkey (stake_delegation s) = voter_pubkey (stake_delegation s2)
         \<and> deactivation_epoch (stake_delegation s) = u64_MAX \<and> deactivation_epoch (stake_delegation s2) = u64_MAX
         \<and> (\<exists>s'. get_state c (acct st' me) = Inr (Stake (mk_meta mk) s')
             \<and> unat (delegated_stake (stake_delegation s'))
                = unat (delegated_stake (stake_delegation s)) + unat (delegated_stake (stake_delegation s2)))"
      by (rule act)
  qed
  note mm = metas_can_merge_Inr [THEN iffD1, OF metas]
  show ?thesis
    by (rule conjI [OF lam(1) conjI [OF lam(2) conjI [OF lam(3)]]], rule exI [of _ state], rule exI [of _ source],
      rule exI [of _ "mk_meta mk"], rule exI [of _ "mk_meta smk"])
      (rule conjI [OF g(1) conjI [OF g(2) conjI [OF g(3) conjI [OF g(4) conjI [OF sg
        conjI [OF mm [THEN conjunct1] conjI [OF mm [THEN conjunct2] fin]]]]]]])
qed

lemma ceil_div_bounds:
  assumes "0 < (t :: nat)"
  shows "x \<le> (x + t - 1) div t * t" "(x + t - 1) div t * t < x + t"
proof -
  have "(x + t - 1) div t * t + (x + t - 1) mod t = x + t - 1" by simp
  moreover have "(x + t - 1) mod t < t" using assms by simp
  ultimately show "x \<le> (x + t - 1) div t * t" "(x + t - 1) div t * t < x + t" using assms by linarith+
qed

lemma weighted_credits_ceil:
  assumes "stake_weighted_credits_observed s l co = Some r" "credits_observed s \<noteq> co"
  defines "S \<equiv> unat (delegated_stake (stake_delegation s))"
  shows "0 < S + unat l"
    "unat r = (unat (credits_observed s) * S + unat co * unat l + (S + unat l) - 1) div (S + unat l)"
proof -
  from assms(1,2) obtain t a b ab abt n q where
    "checked_add_w (delegated_stake (stake_delegation s)) l = Some t"
    "checked_mul_w (to_u128 (credits_observed s)) (to_u128 (delegated_stake (stake_delegation s))) = Some a"
    "checked_mul_w (to_u128 co) (to_u128 l) = Some b" "checked_add_w a b = Some ab"
    "checked_add_w ab (to_u128 t) = Some abt" "checked_sub_w abt 1 = Some n"
    "checked_div_w n (to_u128 t) = Some q" "try_u64 q = Some r"
    by (auto simp: stake_weighted_credits_observed_def Let_def bind_eq_Some_conv)
  then have u: "unat t = S + unat l" "unat a = unat (credits_observed s) * S" "unat b = unat co * unat l"
    "unat ab = unat a + unat b" "unat abt = unat ab + unat t" "unat n = unat abt - 1"
    "t \<noteq> 0" "unat q = unat n div unat t" "unat r = unat q"
    by (auto simp: S_def checked_div_w_def unat_div to_u128_def dest!: checked_add_w_unat checked_mul_w_unat checked_sub_w_unat
        try_u64_unat split: if_splits simp flip: to_u128_def)
  then show "0 < S + unat l" using unat_eq_0 [of t] by linarith
  show "unat r = (unat (credits_observed s) * S + unat co * unat l + (S + unat l) - 1) div (S + unat l)"
    using u by simp
qed

lemma weighted_between:
  fixes a b s l r :: nat
  assumes "a * s + b * l \<le> r * (s + l)" "r * (s + l) < a * s + b * l + (s + l)" "0 < s + l"
  shows "min a b \<le> r" "r \<le> max a b"
proof -
  have "min a b * (s + l) \<le> a * s + b * l" by (simp add: distrib_left add_mono)
  with assms(1) have "min a b * (s + l) \<le> r * (s + l)" by linarith
  then show "min a b \<le> r" using assms(3) by auto
  have "a * s + b * l \<le> max a b * (s + l)" by (simp add: distrib_left add_mono)
  with assms(2) have "r * (s + l) < (max a b + 1) * (s + l)" by (simp add: distrib_right)
  then show "r \<le> max a b" using assms(3) mult_less_cancel2 [of r "s + l" "max a b + 1"] by linarith
qed

text \<open>The credits observed of two merged stakes are their average weighted by stake, rounded up
  to the next whole credit: never below what both together have observed, so that the merged
  stake cannot be paid again for credits already paid, and between the two values.\<close>

theorem weighted_credits_average:
  assumes "stake_weighted_credits_observed s l co = Some r" "0 < unat (delegated_stake (stake_delegation s)) + unat l"
  shows "unat (credits_observed s) * unat (delegated_stake (stake_delegation s)) + unat co * unat l
      \<le> unat r * (unat (delegated_stake (stake_delegation s)) + unat l)
    \<and> unat r * (unat (delegated_stake (stake_delegation s)) + unat l)
      < unat (credits_observed s) * unat (delegated_stake (stake_delegation s)) + unat co * unat l
        + (unat (delegated_stake (stake_delegation s)) + unat l)
    \<and> min (credits_observed s) co \<le> r \<and> r \<le> max (credits_observed s) co"
proof (cases "credits_observed s = co")
  case True
  then have "r = co" using assms(1) by (simp add: stake_weighted_credits_observed_def)
  with True assms(2) show ?thesis by (simp add: distrib_left)
next
  case False
  let ?S = "unat (delegated_stake (stake_delegation s))" and ?T = "unat (delegated_stake (stake_delegation s)) + unat l"
  let ?x = "unat (credits_observed s) * ?S + unat co * unat l"
  have bounds: "?x \<le> unat r * ?T" "unat r * ?T < ?x + ?T"
    using ceil_div_bounds [OF assms(2), of ?x] weighted_credits_ceil(2) [OF assms(1) False] by simp_all
  have "min (unat (credits_observed s)) (unat co) \<le> unat r" "unat r \<le> max (unat (credits_observed s)) (unat co)"
    using weighted_between [OF bounds assms(2)] by simp_all
  then have "min (credits_observed s) co \<le> r \<and> r \<le> max (credits_observed s) co"
    by (auto simp: min_def max_def word_le_nat_alt split: if_splits)
  with bounds show ?thesis by blast
qed

section \<open>A small cluster\<close>

text \<open>
  Accounts whose cells hold values directly: a codec of the model for evaluating instructions.
  Account 1 is a stake of 100 lamports that started to warm up in epoch 0, account 2 an empty stake
  account, account 3 an initialized one, account 9 a vote account; the clock is in epoch 1.
\<close>

datatype cell = StakeCell stake_state | VoteCell vote_state_versions | KeysCell config_keys
  | ConfigCell stake_config | Blank

definition cell_stake :: "cell stake_codec" where
  "cell_stake = \<lparr>encode = \<lambda>s. [StakeCell s], decode = \<lambda>d. case d of StakeCell s # _ \<Rightarrow> Some s | _ \<Rightarrow> None\<rparr>"

definition cell_vote :: "cell vote_codec" where
  "cell_vote = \<lparr>encode = \<lambda>s. [VoteCell s], decode = \<lambda>d. case d of VoteCell s # _ \<Rightarrow> Some s | _ \<Rightarrow> None\<rparr>"

definition cell_keys :: "(config_keys, cell) codec" where
  "cell_keys = \<lparr>encode = \<lambda>s. [KeysCell s], decode = \<lambda>d. case d of KeysCell s # _ \<Rightarrow> Some s | _ \<Rightarrow> None\<rparr>"

definition cell_config :: "(stake_config, cell) codec" where
  "cell_config = \<lparr>encode = \<lambda>s. [ConfigCell s], decode = \<lambda>d. case d of ConfigCell s # _ \<Rightarrow> Some s | _ \<Rightarrow> None\<rparr>"

lemma cell_stake_ok: "codec_ok cell_stake"
  by (simp add: codec_ok_def cell_stake_def)

definition cluster_clock :: clock where
  "cluster_clock = clock_default\<lparr>clock_epoch := 1\<rparr>"

definition cluster_history :: stake_history where
  "cluster_history = [(0, \<lparr>effective = 10, activating = 1000, deactivating = 0\<rparr>)]"

definition cluster_env :: "cell stake_env" where
  "cluster_env = \<lparr>s_codec = cell_stake, s_vote_codec = cell_vote, s_keys_codec = cell_keys,
     s_config_codec = cell_config, s_hashv = (\<lambda>_ _ _. 0),
     s_ctx = \<lparr>sysvars = \<lparr>sysvar_clock = Some cluster_clock, sysvar_rent = Some rent_free, sysvar_slot_hashes = None,
         sysvar_recent_blockhashes = None, sysvar_stake_history = Some cluster_history\<rparr>,
       features = {}, ctx_blockhash = 0, ctx_lamports_per_signature = 0\<rparr>\<rparr>"

definition cluster_meta :: meta where
  "cluster_meta = \<lparr>rent_exempt_reserve = 10, meta_authorized = \<lparr>staker = 7, withdrawer = 8\<rparr>, meta_lockup = lockup_default\<rparr>"

definition cluster_stake :: stake where
  "cluster_stake = \<lparr>stake_delegation = delegation_default\<lparr>voter_pubkey := 9, delegated_stake := 100\<rparr>, credits_observed = 0\<rparr>"

definition stake_account :: "stake_state \<Rightarrow> u64 \<Rightarrow> cell account" where
  "stake_account s l = \<lparr>lamports = l, data = StakeCell s # replicate 199 Blank, owner = stake_program_id,
     executable = False, rent_epoch = 0\<rparr>"

definition cluster_store :: "cell store" where
  "cluster_store = (\<lambda>k. \<lparr>lamports = 0, data = [], owner = system_program_id, executable = False, rent_epoch = 0\<rparr>)
     (1 := stake_account (Stake cluster_meta cluster_stake) 110,
      2 := stake_account Uninitialized 0,
      3 := stake_account (Initialized cluster_meta) 100,
      9 := \<lparr>lamports = 1, data = [VoteCell (Current vote_state_default)], owner = vote_program_id,
        executable = False, rent_epoch = 0\<rparr>,
      stake_config_id := create_config_account cell_keys cell_config [] stake_config_default 1)"

definition reads :: "pubkey \<Rightarrow> keyed_account" where
  "reads k = \<lparr>is_signer = False, is_writable = True, key = k\<rparr>"

definition signs :: "pubkey \<Rightarrow> keyed_account" where
  "signs k = \<lparr>is_signer = True, is_writable = True, key = k\<rparr>"

lemmas ids = stake_program_id_def stake_config_id_def vote_program_id_def system_program_id_def clock_id_def
  stake_history_id_def rent_id_def

lemma f64_100: "f64_of_u64 100 = Fin False 7036874417766400 (-46)"
  by (simp add: f64_of_u64_def f64_round_def bit_length_numeral scale_def)

lemma f64_1000: "f64_of_u64 1000 = Fin False 8796093022208000 (-43)"
  by (simp add: f64_of_u64_def f64_round_def bit_length_numeral scale_def)

lemma f64_10: "f64_of_u64 10 = Fin False 5629499534213120 (-49)"
  by (simp add: f64_of_u64_def f64_round_def bit_length_numeral scale_def)

lemma f64_quarter: "f64_0_25 = Fin False 4503599627370496 (-54)"
  by (simp add: f64_0_25_def f64_round_def bit_length_numeral scale_def)

lemma f64_newly: "f64_mul (Fin False 5629499534213120 (-49)) (Fin False 4503599627370496 (-54)) = Fin False 5629499534213120 (-51)"
  by (simp add: f64_round_def bit_length_numeral scale_def pow2_frac_def)

lemma f64_weight: "f64_div (Fin False 7036874417766400 (-46)) (Fin False 8796093022208000 (-43)) = Fin False 7205759403792794 (-56)"
  by (simp add: f64_round_def bit_length_numeral scale_def pow2_frac_def)

lemma f64_share: "f64_mul (Fin False 7205759403792794 (-56)) (Fin False 5629499534213120 (-51)) = Fin False 4503599627370496 (-54)"
  by (simp add: f64_round_def bit_length_numeral scale_def pow2_frac_def)

lemma cluster_entitled: "entitled 100 1000 10 f64_0_25 = 1"
  by (simp add: entitled_def f64_100 f64_1000 f64_10 f64_quarter f64_newly f64_weight f64_share pow2_frac_def del: f64_mul.simps f64_div.simps)

lemma cluster_warmup:
  "warmup_loop h ((stake_delegation cluster_stake)\<lparr>deactivation_epoch := e\<rparr>) 1 0
     \<lparr>effective = 10, activating = 1000, deactivating = 0\<rparr> 0 = 1"
  by (subst warmup_loop.simps)
    (simp add: cluster_stake_def delegation_default_def stake_config_default_def DEFAULT_WARMUP_COOLDOWN_RATE_def
      cluster_entitled word_le_nat_alt)

lemma cluster_effective:
  "delegation_stake ((stake_delegation cluster_stake)\<lparr>deactivation_epoch := 1\<rparr>) 1 (Some cluster_history) = 1"
  using cluster_warmup [of cluster_history 1]
  by (simp add: delegation_stake_def stake_activating_and_deactivating_def stake_and_activating_def cluster_stake_def
      delegation_default_def is_bootstrap_def cluster_history_def stake_history_get_map desc_def status_defs)

lemma stakes_backed_upd:
  "stakes_backed c st \<Longrightarrow>
     (\<And>s. owner a = stake_program_id \<Longrightarrow> decode c (data a) = Some s \<Longrightarrow> backed s (unat (lamports a)) (length (data a))) \<Longrightarrow>
     stakes_backed c (st(k := a))"
  by (simp add: stakes_backed_def view_ok_def view_def)

lemma stake_account_backed: "backed s (unat l) STAKE_STATE_SIZE \<Longrightarrow> stakes_backed cell_stake st \<Longrightarrow>
    stakes_backed cell_stake (st(k := stake_account s l))"
  by (rule stakes_backed_upd) (auto simp: stake_account_def cell_stake_def STAKE_STATE_SIZE_def)

lemma cluster_backed: "stakes_backed cell_stake cluster_store"
proof -
  have "stakes_backed cell_stake (\<lambda>k. \<lparr>lamports = 0, data = [], owner = system_program_id, executable = False, rent_epoch = 0\<rparr>)"
    by (simp add: stakes_backed_def view_ok_def view_def ids)
  then show ?thesis unfolding cluster_store_def
    by (intro stake_account_backed stakes_backed_upd)
      (simp_all add: cluster_meta_def cluster_stake_def delegation_default_def ids create_config_account_def
        cell_keys_def cell_config_def cell_stake_def)
qed

definition plain_account :: "u64 \<Rightarrow> cell account" where
  "plain_account l = \<lparr>lamports = l, data = [], owner = system_program_id, executable = False, rent_epoch = 0\<rparr>"

lemma stake_account_simps [simp]:
  "get_state cell_stake (stake_account s l) = Inr s"
  "set_state cell_stake s' (stake_account s l) = Inr (stake_account s' l)"
  "owner (stake_account s l) = stake_program_id" "lamports (stake_account s l) = l"
  "length (data (stake_account s l)) = STAKE_STATE_SIZE"
  "checked_sub_lamports x (stake_account s l) = (if x \<le> l then Inr (stake_account s (l - x)) else Inl (Err ArithmeticOverflow))"
  by (simp_all add: stake_account_def cell_stake_def get_state_def set_state_def STAKE_STATE_SIZE_def
      checked_sub_lamports_def checked_sub_w_def)

lemma cluster_store_simps [simp]:
  "cluster_store 1 = stake_account (Stake cluster_meta cluster_stake) 110"
  "cluster_store 2 = stake_account Uninitialized 0"
  "cluster_store 3 = stake_account (Initialized cluster_meta) 100"
  "cluster_store 20 = plain_account 0"
  by (simp_all add: cluster_store_def ids plain_account_def)

lemmas exec = cluster_env_def cluster_clock_def clock_default_def reads_def signs_def acct_def upd_account_def
  keyed_account_at_index_def optional_account_def signer_key_def unsigned_key_def get_signers_def List.map_filter_def
  sysvar_clock_checked_def sysvar_rent_checked_def sysvar_stake_history_checked_def check_sysvar_keyed_account_def
  get_clock_def get_rent_def get_stake_history_def authorized_check_def

definition undelegated :: stake where
  "undelegated = cluster_stake\<lparr>stake_delegation := (stake_delegation cluster_stake)\<lparr>deactivation_epoch := 1\<rparr>\<rparr>"

lemma undelegated_effective: "delegation_stake (stake_delegation undelegated) 1 (Some cluster_history) = 1"
  using cluster_effective by (simp add: undelegated_def)

lemma undelegated_epoch: "deactivation_epoch (stake_delegation undelegated) = 1"
  by (simp add: undelegated_def)

lemma cluster_vote: "cluster_store 9 = \<lparr>lamports = 1, data = [VoteCell (Current vote_state_default)],
    owner = vote_program_id, executable = False, rent_epoch = 0\<rparr>"
  by (simp add: cluster_store_def ids)

lemma cell_vote_state: "get_state cell_vote \<lparr>lamports = l, data = [VoteCell v], owner = k, executable = b, rent_epoch = e\<rparr> = Inr v"
  by (simp add: get_state_def cell_vote_def)

lemma cluster_config: "stake_config_from cell_keys cell_config (cluster_store stake_config_id) = Some stake_config_default"
  by (simp add: cluster_store_def stake_config_from_def create_config_account_def get_config_data_def cell_keys_def
      cell_config_def)

lemma config_id_neq [simp]: "stake_config_id \<noteq> 1" "stake_config_id \<noteq> 20"
  by (simp_all add: stake_config_id_def)

lemma cluster_rescind:
  "clock_epoch clk = 1 \<Longrightarrow> redelegate l 9 vs clk cluster_history config undelegated = Inr cluster_stake"
  by (simp add: redelegate_def Let_def stake_stake_def undelegated_effective undelegated_epoch)
    (simp add: undelegated_def cluster_stake_def delegation_default_def)

lemma cluster_deactivate:
  "stake_process_instruction cluster_env [reads 1, reads clock_id, signs 7] 0 (Some Deactivate) cluster_store
     = Inr (cluster_store(1 := stake_account (Stake cluster_meta undelegated) 110))"
  by (simp add: stake_process_instruction_def exec stake_deactivate_def cluster_meta_def stake_deactivate_at_def
      undelegated_def cluster_stake_def delegation_default_def)

lemma cluster_withdraw:
  "stake_process_instruction cluster_env [reads 1, reads 20, reads clock_id, reads stake_history_id, signs 8] 0
     (Some (WithdrawStake 99)) (cluster_store(1 := stake_account (Stake cluster_meta undelegated) 110))
     = Inr (cluster_store(1 := stake_account (Stake cluster_meta undelegated) 11, 20 := plain_account 99))"
  by (simp add: stake_process_instruction_def exec stake_withdraw_def withdraw_terms_def cluster_meta_def
      undelegated_effective undelegated_epoch checked_add_def checked_add_w_def checked_add_lamports_def plain_account_def
      is_in_force_def lockup_default_def word_less_nat_alt)

lemma cluster_redelegate:
  "stake_process_instruction cluster_env
     [reads 1, reads 9, reads clock_id, reads stake_history_id, reads stake_config_id, signs 7] 0 (Some DelegateStake)
       (cluster_store(1 := stake_account (Stake cluster_meta undelegated) 11, 20 := plain_account 99))
     = Inr (cluster_store(1 := stake_account (Stake cluster_meta cluster_stake) 11, 20 := plain_account 99))"
  by (simp add: stake_process_instruction_def exec stake_delegate_def cluster_meta_def cluster_config cluster_vote
      load_vote_state_def cluster_rescind cell_vote_state fun_upd_twist [of 20 1])

definition rescind_run :: "(cell stake_env \<times> keyed_account list \<times> nat \<times> stake_instruction option) list" where
  "rescind_run =
    [(cluster_env, [reads 1, reads clock_id, signs 7], 0, Some Deactivate),
     (cluster_env, [reads 1, reads 20, reads clock_id, reads stake_history_id, signs 8], 0, Some (WithdrawStake 99)),
     (cluster_env, [reads 1, reads 9, reads clock_id, reads stake_history_id, reads stake_config_id, signs 7], 0,
        Some DelegateStake)]"

lemma rescind_run_result:
  "run_steps stake_step rescind_run cluster_store
     = Inr (cluster_store(1 := stake_account (Stake cluster_meta cluster_stake) 11, 20 := plain_account 99))"
  by (simp add: rescind_run_def cluster_deactivate cluster_withdraw cluster_redelegate)

lemma not_stakes_backed:
  "owner (st k) = stake_program_id \<Longrightarrow> get_state c (st k) = Inr s \<Longrightarrow>
     \<not> backed s (unat (lamports (st k))) (length (data (st k))) \<Longrightarrow> \<not> stakes_backed c st"
  by (auto simp: stakes_backed_def view_ok_def view_def get_state_def res_elim)


theorem stake_instructions_conserve_witness:
  "\<exists>st'. run_steps stake_step rescind_run cluster_store = Inr st' \<and> total_lamports st' = total_lamports cluster_store"
  using stake_instructions_conserve [OF rescind_run_result] rescind_run_result by blast

lemma cluster_env_ok: "codec_ok (s_codec cluster_env)" "stake_ctx_ok (s_ctx cluster_env)"
   "stakes_backed (s_codec cluster_env) cluster_store"
  using cluster_backed cell_stake_ok by (simp_all add: cluster_env_def stake_ctx_ok_def cluster_clock_def minimum_balance_rent_free)


theorem weighted_credits_average_witness:
  "stake_weighted_credits_observed cluster_stake 50 10 = Some 4 \<and> 10 * 50 \<le> 4 * (150 :: nat)"
proof -
  have "stake_weighted_credits_observed cluster_stake 50 10 = Some 4"
    by (simp add: stake_weighted_credits_observed_def cluster_stake_def delegation_default_def
        checked_add_w_def checked_mul_w_def checked_sub_w_def checked_div_w_def to_u128_def try_u64_def)
  then show ?thesis
    using weighted_credits_average [of cluster_stake 50 10 4] by (simp add: cluster_stake_def delegation_default_def)
qed

theorem stake_withdraw_effect_witness:
  "\<exists>st'. stake_withdraw cell_stake (reads 3) 100 (reads 20) cluster_clock cluster_history (signs 8) None cluster_store = Inr st'
     \<and> lamports (st' 20) = 100 \<and> get_state cell_stake (st' 3) = Inr Uninitialized"
proof -
  let ?st' = "cluster_store(3 := stake_account Uninitialized 0, 20 := plain_account 100)"
  have run: "stake_withdraw cell_stake (reads 3) 100 (reads 20) cluster_clock cluster_history (signs 8) None cluster_store = Inr ?st'"
    by (simp add: exec stake_withdraw_def withdraw_terms_def cluster_meta_def checked_add_def checked_add_w_def
      checked_add_lamports_def plain_account_def is_in_force_def lockup_default_def word_less_nat_alt MINIMUM_STAKE_DELEGATION_def)
  have "get_state cell_stake (acct cluster_store (reads 3)) = Inr (Initialized cluster_meta)" "key (reads 20) \<noteq> key (reads 3)"
    by (simp_all add: acct_def reads_def)
  from stake_withdraw_effect [OF run cell_stake_ok this] run show ?thesis
    by (simp add: acct_def reads_def plain_account_def)
qed

definition locked_meta :: meta where
  "locked_meta = cluster_meta\<lparr>meta_lockup := lockup_default\<lparr>lockup_epoch := 5, lockup_custodian := 6\<rparr>\<rparr>"


lemma stake_account_credit:
  "unat l + unat x < 2 ^ 64 \<Longrightarrow> checked_add_lamports x (stake_account s l) = Inr (stake_account s (l + x))"
  by (simp add: checked_add_lamports_def checked_add_w_def stake_account_def)

lemma cluster_activating: "stake_activating_and_deactivating (stake_delegation cluster_stake) 0 h
    = \<lparr>effective = 0, activating = 100, deactivating = 0\<rparr>"
  by (simp add: stake_activating_and_deactivating_def stake_and_activating_def cluster_stake_def
      delegation_default_def is_bootstrap_def status_defs)

lemma cluster_delegated: "delegated_stake (stake_delegation cluster_stake) = 100"
  by (simp add: cluster_stake_def)

lemma cluster_split:
  "stake_split cell_stake (reads 1) 40 (reads 2) {7} cluster_store
     = Inr (cluster_store(
        1 := stake_account (Stake cluster_meta (cluster_stake\<lparr>stake_delegation := (stake_delegation cluster_stake)\<lparr>delegated_stake := 60\<rparr>\<rparr>)) 70,
        2 := (stake_account (Stake (cluster_meta\<lparr>rent_exempt_reserve := 0\<rparr>)
          (cluster_stake\<lparr>stake_delegation := (stake_delegation cluster_stake)\<lparr>delegated_stake := 40\<rparr>\<rparr>)) 40)))"
  by (simp add: exec stake_split_def cluster_meta_def cluster_stake_def delegation_default_def validate_split_amount_def
      split_amounts_def stake_split_off_def Let_def saturating_sub_w_def saturating_add_w_def MINIMUM_STAKE_DELEGATION_def
      STAKE_STATE_SIZE_def calculate_split_rent_exempt_reserve_def checked_div_w_def ACCOUNT_STORAGE_OVERHEAD_def
      stake_account_credit fun_upd_twist [of 2 1])

lemma cluster_merge:
  "stake_merge cell_stake {} (reads 1) (reads 3) clock_default cluster_history {7} cluster_store
     = Inr (cluster_store(
        1 := stake_account (Stake cluster_meta (cluster_stake\<lparr>stake_delegation := (stake_delegation cluster_stake)\<lparr>delegated_stake := 200\<rparr>\<rparr>)) 210,
        3 := stake_account Uninitialized 0))"
  by (simp add: exec stake_merge_def cluster_meta_def cluster_delegated get_if_mergeable_def
      merge_kind_merge_def metas_can_merge_def Let_def checked_add_def checked_add_w_def cluster_activating stake_account_credit
      fun_upd_twist [of 3 1])

theorem stake_split_effect_witness:
  "\<exists>st'. stake_split cell_stake (reads 1) 40 (reads 2) {7} cluster_store = Inr st'
     \<and> lamports (st' 1) = 70 \<and> unat (lamports (st' 2)) = 40"
proof -
  have "owner (acct cluster_store (reads 1)) = stake_program_id"
    "get_state cell_stake (acct cluster_store (reads 1)) = Inr (Stake cluster_meta cluster_stake)"
    by (simp_all add: acct_def reads_def)
  from stake_split_effect [OF cluster_split cell_stake_ok cluster_backed this] cluster_split show ?thesis
    by (simp add: acct_def reads_def)
qed

theorem stake_merge_effect_witness:
  "\<exists>st'. stake_merge cell_stake {} (reads 1) (reads 3) clock_default cluster_history {7} cluster_store = Inr st'
     \<and> lamports (st' 1) = 210 \<and> lamports (st' 3) = 0"
  using stake_merge_effect [OF cluster_merge cell_stake_ok] cluster_merge by (simp add: acct_def reads_def)

end
