(* ===== verification/Nonce_State.thy ===== *)
theory Nonce_State
  imports Accounts
begin

text \<open>
  Durable nonces: the state of a nonce account (\<open>sdk/program/src/nonce/state\<close>), the checks on
  it (\<open>sdk/src/nonce_account.rs\<close>), the errors (\<open>sdk/program/src/system_instruction.rs\<close>)
  and the operations on a nonce account (\<open>runtime/src/nonce_keyed_account.rs\<close>). The hash that
  separates nonces from blockhashes, SHA-256 of a prefix and the blockhash, is the parameter
  \<open>dh\<close>. At the end the life of a nonce account is a step relation, and the operations are
  shown to be its steps.
\<close>

section \<open>State\<close>

record fee_calculator =
  lamports_per_signature :: u64

definition fee_calculator_new :: "u64 \<Rightarrow> fee_calculator" where
  "fee_calculator_new l = \<lparr>lamports_per_signature = l\<rparr>"

record nonce_data =
  authority :: pubkey
  durable_nonce :: hash
  nonce_fee_calculator :: fee_calculator

definition nonce_data_new :: "pubkey \<Rightarrow> hash \<Rightarrow> u64 \<Rightarrow> nonce_data" where
  "nonce_data_new auth n l = \<lparr>authority = auth, durable_nonce = n, nonce_fee_calculator = fee_calculator_new l\<rparr>"

definition nonce_blockhash :: "nonce_data \<Rightarrow> hash" where
  "nonce_blockhash d = durable_nonce d"

definition get_lamports_per_signature :: "nonce_data \<Rightarrow> u64" where
  "get_lamports_per_signature d = lamports_per_signature (nonce_fee_calculator d)"

definition from_blockhash :: "(hash \<Rightarrow> hash) \<Rightarrow> hash \<Rightarrow> bool \<Rightarrow> hash" where
  "from_blockhash dh blockhash separate_domains = (if separate_domains then dh blockhash else blockhash)"

datatype nonce_state = NonceUninitialized | NonceInitialized nonce_data

definition nonce_new_initialized :: "pubkey \<Rightarrow> hash \<Rightarrow> u64 \<Rightarrow> nonce_state" where
  "nonce_new_initialized auth n l = NonceInitialized (nonce_data_new auth n l)"

datatype nonce_versions = NonceLegacy nonce_state | NonceCurrent nonce_state

type_synonym 'b nonce_codec = "(nonce_versions, 'b) codec"

definition versions_new :: "nonce_state \<Rightarrow> bool \<Rightarrow> nonce_versions" where
  "versions_new s separate_domains = (if separate_domains then NonceCurrent s else NonceLegacy s)"

fun versions_state :: "nonce_versions \<Rightarrow> nonce_state" where
  "versions_state (NonceLegacy s) = s"
| "versions_state (NonceCurrent s) = s"

fun separate_domains :: "nonce_versions \<Rightarrow> bool" where
  "separate_domains (NonceLegacy _) = False"
| "separate_domains (NonceCurrent _) = True"

fun verify_state :: "nonce_state \<Rightarrow> hash \<Rightarrow> nonce_data option" where
  "verify_state NonceUninitialized h = None"
| "verify_state (NonceInitialized d) h = (if h = nonce_blockhash d then Some d else None)"

fun verify_recent_blockhash :: "nonce_versions \<Rightarrow> hash \<Rightarrow> bool \<Rightarrow> nonce_data option" where
  "verify_recent_blockhash (NonceLegacy s) h separate = (if separate then None else verify_state s h)"
| "verify_recent_blockhash (NonceCurrent s) h separate = verify_state s h"

fun upgrade :: "(hash \<Rightarrow> hash) \<Rightarrow> nonce_versions \<Rightarrow> nonce_versions option" where
  "upgrade dh (NonceLegacy NonceUninitialized) = None"
| "upgrade dh (NonceLegacy (NonceInitialized d)) =
     Some (NonceCurrent (NonceInitialized (d\<lparr>durable_nonce := from_blockhash dh (nonce_blockhash d) True\<rparr>)))"
| "upgrade dh (NonceCurrent _) = None"

text \<open>\<open>State::size()\<close> is the serialized length of an initialized state.\<close>

definition nonce_state_size :: "'b nonce_codec \<Rightarrow> nat" where
  "nonce_state_size c = length (encode c (versions_new (NonceInitialized (nonce_data_new 0 0 0)) True))"

section \<open>Nonce accounts\<close>

definition verify_nonce_account :: "'b nonce_codec \<Rightarrow> 'b account \<Rightarrow> hash \<Rightarrow> bool \<Rightarrow> nonce_data option" where
  "verify_nonce_account c a h separate =
     (if owner a = system_program_id
      then (case get_state c a of Inr v \<Rightarrow> verify_recent_blockhash v h separate | Inl _ \<Rightarrow> None)
      else None)"

definition lamports_per_signature_of :: "'b nonce_codec \<Rightarrow> 'b account \<Rightarrow> u64 option" where
  "lamports_per_signature_of c a =
     (case get_state c a of
        Inr v \<Rightarrow> (case versions_state v of
            NonceInitialized d \<Rightarrow> Some (lamports_per_signature (nonce_fee_calculator d))
          | NonceUninitialized \<Rightarrow> None)
      | Inl _ \<Rightarrow> None)"

section \<open>Errors\<close>

datatype system_error =
    AccountAlreadyInUse | ResultWithNegativeLamports | InvalidProgramId | InvalidAccountDataLength
  | SystemMaxSeedLengthExceeded | AddressWithSeedMismatch | NonceNoRecentBlockhashes
  | NonceBlockhashNotExpired | NonceUnexpectedBlockhashValue

definition system_errors :: "system_error list" where
  "system_errors = [AccountAlreadyInUse, ResultWithNegativeLamports, InvalidProgramId, InvalidAccountDataLength,
     SystemMaxSeedLengthExceeded, AddressWithSeedMismatch, NonceNoRecentBlockhashes, NonceBlockhashNotExpired,
     NonceUnexpectedBlockhashValue]"

datatype nonce_error = NoRecentBlockhashes | NotExpired | UnexpectedValue | BadAccountState

definition nonce_errors :: "nonce_error list" where
  "nonce_errors = [NoRecentBlockhashes, NotExpired, UnexpectedValue, BadAccountState]"

text \<open>
  The derived \<open>ToPrimitive\<close> and \<open>FromPrimitive\<close>: the number of a variant is its position,
  and a number is decoded by looking it up. \<open>NonceError\<close> and its adapter have the same
  variants in the same order.
\<close>

fun position :: "'a \<Rightarrow> 'a list \<Rightarrow> nat" where
  "position x [] = 0"
| "position x (y # ys) = (if x = y then 0 else Suc (position x ys))"

definition from_system_error :: "system_error \<Rightarrow> instruction_error" where
  "from_system_error e = Custom (of_nat (position e system_errors))"

definition from_nonce_error :: "nonce_error \<Rightarrow> instruction_error" where
  "from_nonce_error e = Custom (of_nat (position e nonce_errors))"

definition decode_custom_error :: "'e list \<Rightarrow> u32 \<Rightarrow> 'e option" where
  "decode_custom_error es n = (if unat n < length es then Some (es ! unat n) else None)"

fun nonce_to_instruction_error :: "nonce_error \<Rightarrow> bool \<Rightarrow> instruction_error" where
  "nonce_to_instruction_error NoRecentBlockhashes True = from_system_error NonceNoRecentBlockhashes"
| "nonce_to_instruction_error NotExpired True = from_system_error NonceBlockhashNotExpired"
| "nonce_to_instruction_error UnexpectedValue True = from_system_error NonceUnexpectedBlockhashValue"
| "nonce_to_instruction_error BadAccountState True = InvalidAccountData"
| "nonce_to_instruction_error e False = from_nonce_error e"

fun system_to_nonce_error :: "system_error \<Rightarrow> nonce_error option" where
  "system_to_nonce_error NonceNoRecentBlockhashes = Some NoRecentBlockhashes"
| "system_to_nonce_error NonceBlockhashNotExpired = Some NotExpired"
| "system_to_nonce_error NonceUnexpectedBlockhashValue = Some UnexpectedValue"
| "system_to_nonce_error _ = None"

fun instruction_to_nonce_error :: "instruction_error \<Rightarrow> bool \<Rightarrow> nonce_error option" where
  "instruction_to_nonce_error (Custom n) True = Option.bind (decode_custom_error system_errors n) system_to_nonce_error"
| "instruction_to_nonce_error InvalidAccountData True = Some BadAccountState"
| "instruction_to_nonce_error (Custom n) False = decode_custom_error nonce_errors n"
| "instruction_to_nonce_error _ _ = None"

section \<open>Operations\<close>

definition get_durable_nonce :: "(hash \<Rightarrow> hash) \<Rightarrow> invoke_context \<Rightarrow> hash \<times> bool" where
  "get_durable_nonce dh ctx =
     (let separate = is_active (features ctx) Separate_nonce_from_blockhash
      in (from_blockhash dh (ctx_blockhash ctx) separate, separate))"

definition nonce_writable :: "keyed_account \<Rightarrow> invoke_context \<Rightarrow> unit ires" where
  "nonce_writable me ctx =
     ensure (\<not> (is_active (features ctx) Nonce_must_be_writable \<and> \<not> is_writable me)) InvalidArgument"

definition nonce_err :: "invoke_context \<Rightarrow> nonce_error \<Rightarrow> instruction_error" where
  "nonce_err ctx e = nonce_to_instruction_error e (is_active (features ctx) Merge_nonce_error_into_system_error)"

definition advance_nonce_account ::
  "(hash \<Rightarrow> hash) \<Rightarrow> 'b nonce_codec \<Rightarrow> keyed_account \<Rightarrow> pubkey set \<Rightarrow> invoke_context \<Rightarrow> 'b store \<Rightarrow> 'b store ires" where
  "advance_nonce_account dh c me signers ctx st =
     and_then (nonce_writable me ctx) (\<lambda>_.
     and_then (get_state c (acct st me)) (\<lambda>versions.
     case versions_state versions of
       NonceInitialized d \<Rightarrow>
         and_then (ensure (authority d \<in> signers) MissingRequiredSignature) (\<lambda>_.
         let (next_durable_nonce, separate) = get_durable_nonce dh ctx in
         and_then (ensure (durable_nonce d \<noteq> next_durable_nonce) (nonce_err ctx NotExpired)) (\<lambda>_.
         let new_data = nonce_data_new (authority d) next_durable_nonce (ctx_lamports_per_signature ctx) in
         upd_account me (set_state c (versions_new (NonceInitialized new_data) separate)) st))
     | NonceUninitialized \<Rightarrow> fail (nonce_err ctx BadAccountState)))"

definition withdraw_nonce_account ::
  "(hash \<Rightarrow> hash) \<Rightarrow> 'b nonce_codec \<Rightarrow> keyed_account \<Rightarrow> u64 \<Rightarrow> keyed_account \<Rightarrow> rent \<Rightarrow> pubkey set
    \<Rightarrow> invoke_context \<Rightarrow> 'b store \<Rightarrow> 'b store ires" where
  "withdraw_nonce_account dh c me l to r signers ctx st =
     and_then (nonce_writable me ctx) (\<lambda>_.
     and_then (get_state c (acct st me)) (\<lambda>versions.
     and_then (case versions_state versions of
         NonceUninitialized \<Rightarrow>
           and_then (ensure (l \<le> lamports (acct st me)) InsufficientFunds) (\<lambda>_. Inr (unsigned_key me, st))
       | NonceInitialized d \<Rightarrow>
           and_then
             (if l = lamports (acct st me) then
                let (n, separate) = get_durable_nonce dh ctx in
                and_then (ensure (durable_nonce d \<noteq> n) (nonce_err ctx NotExpired)) (\<lambda>_.
                upd_account me (set_state c (versions_new NonceUninitialized separate)) st)
              else
                let min_balance = minimum_balance r (length (data (acct st me))) in
                and_then (checked_add l min_balance) (\<lambda>amount.
                and_then (ensure (amount \<le> lamports (acct st me)) InsufficientFunds) (\<lambda>_. Inr st))) (\<lambda>st1.
           Inr (authority d, st1))) (\<lambda>(signer, st1).
     and_then (ensure (signer \<in> signers) MissingRequiredSignature) (\<lambda>_.
     and_then (upd_account me (checked_sub_lamports l) st1) (\<lambda>st2.
     upd_account to (checked_add_lamports l) st2)))))"

definition initialize_nonce_account ::
  "(hash \<Rightarrow> hash) \<Rightarrow> 'b nonce_codec \<Rightarrow> keyed_account \<Rightarrow> pubkey \<Rightarrow> rent \<Rightarrow> invoke_context \<Rightarrow> 'b store \<Rightarrow> 'b store ires" where
  "initialize_nonce_account dh c me nonce_authority r ctx st =
     and_then (nonce_writable me ctx) (\<lambda>_.
     and_then (get_state c (acct st me)) (\<lambda>versions.
     case versions_state versions of
       NonceUninitialized \<Rightarrow>
         let min_balance = minimum_balance r (length (data (acct st me))) in
         and_then (ensure (\<not> lamports (acct st me) < min_balance) InsufficientFunds) (\<lambda>_.
         let (n, separate) = get_durable_nonce dh ctx;
             d = nonce_data_new nonce_authority n (ctx_lamports_per_signature ctx) in
         upd_account me (set_state c (versions_new (NonceInitialized d) separate)) st)
     | NonceInitialized _ \<Rightarrow> fail (nonce_err ctx BadAccountState)))"

definition authorize_nonce_account ::
  "'b nonce_codec \<Rightarrow> keyed_account \<Rightarrow> pubkey \<Rightarrow> pubkey set \<Rightarrow> invoke_context \<Rightarrow> 'b store \<Rightarrow> 'b store ires" where
  "authorize_nonce_account c me nonce_authority signers ctx st =
     and_then (nonce_writable me ctx) (\<lambda>_.
     and_then (get_state c (acct st me)) (\<lambda>versions.
     case versions_state versions of
       NonceInitialized d \<Rightarrow>
         and_then (ensure (authority d \<in> signers) MissingRequiredSignature) (\<lambda>_.
         let new_data = nonce_data_new nonce_authority (durable_nonce d) (get_lamports_per_signature d) in
         upd_account me (set_state c (versions_new (NonceInitialized new_data) (separate_domains versions))) st)
     | NonceUninitialized \<Rightarrow> fail (nonce_err ctx BadAccountState)))"

text \<open>The branch \<open>UpgradeNonceAccount\<close> of the system program.\<close>

definition upgrade_nonce_account ::
  "(hash \<Rightarrow> hash) \<Rightarrow> 'b nonce_codec \<Rightarrow> keyed_account \<Rightarrow> invoke_context \<Rightarrow> 'b store \<Rightarrow> 'b store ires" where
  "upgrade_nonce_account dh c me ctx st =
     and_then (ensure (is_active (features ctx) Separate_nonce_from_blockhash) InvalidInstructionData) (\<lambda>_.
     and_then (ensure (owner (acct st me) = system_program_id) InvalidAccountOwner) (\<lambda>_.
     and_then (ensure (is_writable me) InvalidArgument) (\<lambda>_.
     and_then (get_state c (acct st me)) (\<lambda>versions.
     case upgrade dh versions of
       None \<Rightarrow> fail InvalidArgument
     | Some v \<Rightarrow> upd_account me (set_state c v) st))))"

section \<open>What a successful operation did\<close>

lemma and_then_split:
  "P (and_then m f) \<longleftrightarrow> (\<forall>e. m = Inl e \<longrightarrow> P (Inl e)) \<and> (\<forall>x. m = Inr x \<longrightarrow> P (f x))"
  by (cases m) auto

lemma and_then_split_asm:
  "P (and_then m f) \<longleftrightarrow> \<not> ((\<exists>e. m = Inl e \<and> \<not> P (Inl e)) \<or> (\<exists>x. m = Inr x \<and> \<not> P (f x)))"
  by (cases m) auto

lemmas and_then_splits = and_then_split and_then_split_asm

lemma nonce_to_instruction_error_inverse:
  "instruction_to_nonce_error (nonce_to_instruction_error e b) b = Some e"
  by (cases e; cases b) (simp_all add: from_system_error_def from_nonce_error_def decode_custom_error_def
      system_errors_def nonce_errors_def)

text \<open>
  The life of a nonce account under a context that gives the next nonce: the rules an operation
  may follow, for any version of the state.
\<close>

inductive nonce_step ::
  "(hash \<Rightarrow> hash) \<Rightarrow> invoke_context \<Rightarrow> pubkey set \<Rightarrow> nonce_versions \<Rightarrow> nonce_versions \<Rightarrow> bool"
  for dh ctx signers where
  initialize: "get_durable_nonce dh ctx = (n, separate) \<Longrightarrow> versions_state v = NonceUninitialized \<Longrightarrow>
    nonce_step dh ctx signers v (versions_new (nonce_new_initialized a n (ctx_lamports_per_signature ctx)) separate)"
| advance: "get_durable_nonce dh ctx = (n, separate) \<Longrightarrow> versions_state v = NonceInitialized d \<Longrightarrow>
    authority d \<in> signers \<Longrightarrow> durable_nonce d \<noteq> n \<Longrightarrow>
    nonce_step dh ctx signers v
      (versions_new (nonce_new_initialized (authority d) n (ctx_lamports_per_signature ctx)) separate)"
| authorize: "versions_state v = NonceInitialized d \<Longrightarrow> authority d \<in> signers \<Longrightarrow>
    nonce_step dh ctx signers v (versions_new (NonceInitialized (d\<lparr>authority := a\<rparr>)) (separate_domains v))"
| close: "get_durable_nonce dh ctx = (n, separate) \<Longrightarrow> versions_state v = NonceInitialized d \<Longrightarrow>
    authority d \<in> signers \<Longrightarrow> durable_nonce d \<noteq> n \<Longrightarrow>
    nonce_step dh ctx signers v (versions_new NonceUninitialized separate)"
| upgraded: "is_active (features ctx) Separate_nonce_from_blockhash \<Longrightarrow>
    nonce_step dh ctx signers (NonceLegacy (NonceInitialized d))
      (NonceCurrent (NonceInitialized (d\<lparr>durable_nonce := dh (durable_nonce d)\<rparr>)))"

text \<open>How an operation on \<open>me\<close> changed the state it holds, and that it changed nothing else.\<close>

definition nonce_moved ::
  "(hash \<Rightarrow> hash) \<Rightarrow> 'b nonce_codec \<Rightarrow> invoke_context \<Rightarrow> pubkey set \<Rightarrow> keyed_account \<Rightarrow> 'b store \<Rightarrow> 'b store \<Rightarrow> bool" where
  "nonce_moved dh c ctx signers me st st' \<longleftrightarrow>
     (\<exists>v v'. decode c (data (acct st me)) = Some v \<and> decode c (data (acct st' me)) = Some v'
       \<and> (nonce_step dh ctx signers v v' \<or> data (acct st' me) = data (acct st me)))
     \<and> (\<forall>k. k \<noteq> key me \<longrightarrow> data (st' k) = data (st k)) \<and> (\<forall>k. owner (st' k) = owner (st k))"

lemma nonce_moved_set:
  assumes "codec_ok c" "upd_account me (set_state c v') st = Inr st'"
    and "decode c (data (acct st me)) = Some v" "nonce_step dh ctx signers v v'"
  shows "nonce_moved dh c ctx signers me st st'"
  using assms get_set_state_store [OF assms(1,2)] set_state_frame_store [OF assms(2)]
  by (auto simp: nonce_moved_def acct)

lemma advance_nonce_account_moved:
  assumes "advance_nonce_account dh c me signers ctx st = Inr st'" "codec_ok c"
  shows "nonce_moved dh c ctx signers me st st'"
proof -
  obtain v where v: "decode c (data (acct st me)) = Some v"
    using assms(1) by (auto simp: advance_nonce_account_def get_state_Inr res_elim)
  with assms(1) obtain d n separate where "versions_state v = NonceInitialized d"
    "authority d \<in> signers" "get_durable_nonce dh ctx = (n, separate)" "durable_nonce d \<noteq> n"
    "upd_account me (set_state c (versions_new (nonce_new_initialized (authority d) n (ctx_lamports_per_signature ctx)) separate)) st = Inr st'"
    by (cases "versions_state v") (auto simp: advance_nonce_account_def get_state_Inr res_elim Let_def
        nonce_new_initialized_def split: prod.splits)
  with v show ?thesis by (blast intro: nonce_moved_set [OF assms(2)] nonce_step.advance)
qed

lemma initialize_nonce_account_moved:
  assumes "initialize_nonce_account dh c me a r ctx st = Inr st'" "codec_ok c"
  shows "nonce_moved dh c ctx signers me st st'"
proof -
  obtain v where v: "decode c (data (acct st me)) = Some v"
    using assms(1) by (auto simp: initialize_nonce_account_def get_state_Inr res_elim)
  with assms(1) obtain n separate where "versions_state v = NonceUninitialized"
    "get_durable_nonce dh ctx = (n, separate)"
    "upd_account me (set_state c (versions_new (nonce_new_initialized a n (ctx_lamports_per_signature ctx)) separate)) st = Inr st'"
    by (cases "versions_state v") (auto simp: initialize_nonce_account_def get_state_Inr res_elim Let_def
        nonce_new_initialized_def split: prod.splits)
  with v show ?thesis by (blast intro: nonce_moved_set [OF assms(2)] nonce_step.initialize)
qed

lemma nonce_data_reauthorized: "nonce_data_new a (durable_nonce d) (get_lamports_per_signature d) = d\<lparr>authority := a\<rparr>"
  by (simp add: nonce_data_new_def get_lamports_per_signature_def fee_calculator_new_def)

lemma authorize_nonce_account_moved:
  assumes "authorize_nonce_account c me a signers ctx st = Inr st'" "codec_ok c"
  shows "nonce_moved dh c ctx signers me st st'"
proof -
  obtain v where v: "decode c (data (acct st me)) = Some v"
    using assms(1) by (auto simp: authorize_nonce_account_def get_state_Inr res_elim)
  with assms(1) obtain d where "versions_state v = NonceInitialized d"
    "authority d \<in> signers"
    "upd_account me (set_state c (versions_new (NonceInitialized (d\<lparr>authority := a\<rparr>)) (separate_domains v))) st = Inr st'"
    by (cases "versions_state v") (auto simp: authorize_nonce_account_def get_state_Inr res_elim Let_def
        nonce_data_reauthorized)
  with v show ?thesis by (blast intro: nonce_moved_set [OF assms(2)] nonce_step.authorize)
qed

lemma upgrade_eq_Some:
  "upgrade dh v = Some v' \<longleftrightarrow> (\<exists>d. v = NonceLegacy (NonceInitialized d)
     \<and> v' = NonceCurrent (NonceInitialized (d\<lparr>durable_nonce := dh (durable_nonce d)\<rparr>)))"
  by (cases "(dh, v)" rule: upgrade.cases) (auto simp: from_blockhash_def nonce_blockhash_def)

lemma upgrade_nonce_account_moved:
  assumes "upgrade_nonce_account dh c me ctx st = Inr st'" "codec_ok c"
  shows "nonce_moved dh c ctx signers me st st'"
proof -
  from assms(1) obtain v v' where "decode c (data (acct st me)) = Some v" "upgrade dh v = Some v'"
    "is_active (features ctx) Separate_nonce_from_blockhash" "upd_account me (set_state c v') st = Inr st'"
    by (auto simp: upgrade_nonce_account_def get_state_Inr res_elim split: option.splits)
  then show ?thesis by (auto simp: upgrade_eq_Some intro: nonce_moved_set [OF assms(2)] nonce_step.upgraded)
qed

lemma withdraw_nonce_account_Inr:
  assumes "withdraw_nonce_account dh c me l to r signers ctx st = Inr st'"
  obtains (uninitialized) v st2 where "decode c (data (acct st me)) = Some v" "versions_state v = NonceUninitialized"
      "key me \<in> signers" "l \<le> lamports (acct st me)"
      "upd_account me (checked_sub_lamports l) st = Inr st2" "upd_account to (checked_add_lamports l) st2 = Inr st'"
  | (close) v d n separate st1 st2 where "decode c (data (acct st me)) = Some v" "versions_state v = NonceInitialized d"
      "authority d \<in> signers" "l = lamports (acct st me)" "get_durable_nonce dh ctx = (n, separate)" "durable_nonce d \<noteq> n"
      "upd_account me (set_state c (versions_new NonceUninitialized separate)) st = Inr st1"
      "upd_account me (checked_sub_lamports l) st1 = Inr st2" "upd_account to (checked_add_lamports l) st2 = Inr st'"
  | (part) v d st2 where "decode c (data (acct st me)) = Some v" "versions_state v = NonceInitialized d"
      "authority d \<in> signers" "l \<noteq> lamports (acct st me)"
      "unat l + unat (minimum_balance r (length (data (acct st me)))) \<le> unat (lamports (acct st me))"
      "upd_account me (checked_sub_lamports l) st = Inr st2" "upd_account to (checked_add_lamports l) st2 = Inr st'"
proof -
  from assms obtain v where v: "decode c (data (acct st me)) = Some v"
    by (auto simp: withdraw_nonce_account_def get_state_Inr res_elim)
  note run = assms [unfolded withdraw_nonce_account_def]
  show thesis
  proof (cases "versions_state v")
    case NonceUninitialized
    then show thesis using run v
      by (auto simp: get_state_Inr res_elim unsigned_key_def intro: uninitialized)
  next
    case (NonceInitialized d)
    show thesis
    proof (cases "l = lamports (acct st me)")
      case True
      then show thesis using run v NonceInitialized
        by (auto simp: get_state_Inr res_elim Let_def split: prod.splits intro: close [OF v NonceInitialized])
    next
      case False
      with run v NonceInitialized obtain amount st2 where
        a: "checked_add l (minimum_balance r (length (data (acct st me)))) = Inr amount" "amount \<le> lamports (acct st me)"
          "authority d \<in> signers" "upd_account me (checked_sub_lamports l) st = Inr st2"
          "upd_account to (checked_add_lamports l) st2 = Inr st'"
        by (auto simp: get_state_Inr res_elim Let_def)
      then show thesis using part [OF v NonceInitialized a(3) False _ a(4,5)] checked_add_unat [OF a(1)]
        by (simp add: word_le_nat_alt)
    qed
  qed
qed

lemma lamports_move_data:
  assumes "upd_account me (checked_sub_lamports l) st = Inr st2" "upd_account to (checked_add_lamports l) st2 = Inr st'"
  shows "data (st' k) = data (st k)" "owner (st' k) = owner (st k)"
  using assms by (auto simp: acct acct_def)

lemma withdraw_nonce_account_moved:
  assumes "withdraw_nonce_account dh c me l to r signers ctx st = Inr st'" "codec_ok c"
  shows "nonce_moved dh c ctx signers me st st'"
  using assms(1)
proof (cases rule: withdraw_nonce_account_Inr)
  case (close v d n separate st1 st2)
  have "nonce_moved dh c ctx signers me st st1"
    using close by (blast intro: nonce_moved_set [OF assms(2)] nonce_step.close)
  then show ?thesis using lamports_move_data [OF close(8,9)] by (simp add: nonce_moved_def acct_def)
qed (auto simp: nonce_moved_def acct_def lamports_move_data)

lemma withdraw_nonce_account_total:
  assumes "withdraw_nonce_account dh c me l to r signers ctx st = Inr st'"
  shows "total_lamports st' = total_lamports st"
  using assms by (cases rule: withdraw_nonce_account_Inr) (metis sub_add_total set_state_total)+

lemma nonce_setters_total:
  "advance_nonce_account dh c me signers ctx st = Inr st' \<Longrightarrow> total_lamports st' = total_lamports st"
  "initialize_nonce_account dh c me a r ctx st = Inr st' \<Longrightarrow> total_lamports st' = total_lamports st"
  "authorize_nonce_account c me a signers ctx st = Inr st' \<Longrightarrow> total_lamports st' = total_lamports st"
  "upgrade_nonce_account dh c me ctx st = Inr st' \<Longrightarrow> total_lamports st' = total_lamports st"
  by (auto simp: advance_nonce_account_def initialize_nonce_account_def authorize_nonce_account_def
      upgrade_nonce_account_def Let_def fail_def dest: set_state_total
      split: prod.splits nonce_state.splits option.splits and_then_splits)

section \<open>A nonce does not come back\<close>

text \<open>
  The nonces a chain can hand out, in order: \<open>bh h\<close> is the blockhash at height \<open>h\<close>; number
  \<open>2 * h\<close> is that blockhash, number \<open>2 * h + 1\<close> the nonce derived from it.
\<close>

definition nth_nonce :: "(hash \<Rightarrow> hash) \<Rightarrow> (nat \<Rightarrow> hash) \<Rightarrow> nat \<Rightarrow> hash" where
  "nth_nonce dh bh r = from_blockhash dh (bh (r div 2)) (odd r)"

definition ctx_at :: "(nat \<Rightarrow> hash) \<Rightarrow> nat \<Rightarrow> invoke_context \<Rightarrow> bool" where
  "ctx_at bh r ctx \<longleftrightarrow> ctx_blockhash ctx = bh (r div 2)
     \<and> is_active (features ctx) Separate_nonce_from_blockhash = odd r"

fun stored_nonce :: "nonce_versions \<Rightarrow> hash option" where
  "stored_nonce v = (case versions_state v of NonceInitialized d \<Rightarrow> Some (durable_nonce d) | NonceUninitialized \<Rightarrow> None)"

definition nonce_at :: "(hash \<Rightarrow> hash) \<Rightarrow> (nat \<Rightarrow> hash) \<Rightarrow> nat \<Rightarrow> nonce_versions \<Rightarrow> bool" where
  "nonce_at dh bh r v \<longleftrightarrow> stored_nonce v = Some (nth_nonce dh bh r) \<and> (separate_domains v \<longleftrightarrow> odd r)"

text \<open>Past number \<open>r\<close>: the account holds a later nonce, or none, and contexts have moved on.\<close>

definition beyond :: "(hash \<Rightarrow> hash) \<Rightarrow> (nat \<Rightarrow> hash) \<Rightarrow> nat \<Rightarrow> nat \<Rightarrow> nonce_versions \<Rightarrow> bool" where
  "beyond dh bh r now v \<longleftrightarrow> r < now \<and> (stored_nonce v = None \<or> (\<exists>s. r < s \<and> s \<le> now \<and> nonce_at dh bh s v))"

lemma get_durable_nonce_at: "ctx_at bh r ctx \<Longrightarrow> get_durable_nonce dh ctx = (nth_nonce dh bh r, odd r)"
  by (simp add: get_durable_nonce_def ctx_at_def nth_nonce_def Let_def)

lemma nonce_at_new: "nonce_at dh bh r (versions_new (nonce_new_initialized a (nth_nonce dh bh r) f) (odd r))"
  by (simp add: nonce_at_def versions_new_def nonce_new_initialized_def nonce_data_new_def)

lemma nth_nonce_upgrade: "even r \<Longrightarrow> dh (nth_nonce dh bh r) = nth_nonce dh bh (Suc r)"
  by (simp add: nth_nonce_def from_blockhash_def)

lemma nonce_step_number:
  assumes "nonce_step dh ctx sg v v'" "ctx_at bh now ctx" "nonce_at dh bh r v" "r \<le> now"
  shows "nonce_at dh bh r v' \<or> beyond dh bh r now v'"
  using assms(1)
proof (cases rule: nonce_step.cases)
  case (advance n separate d)
  then have "r \<noteq> now" using assms(2,3) by (auto simp: get_durable_nonce_at nonce_at_def)
  then show ?thesis using advance assms(2,4) nonce_at_new [of dh bh now]
    by (auto simp: beyond_def get_durable_nonce_at intro!: exI [of _ now])
next
  case (close n separate d)
  then have "r \<noteq> now" using assms(2,3) by (auto simp: get_durable_nonce_at nonce_at_def)
  then show ?thesis using close assms(4) by (simp add: beyond_def versions_new_def)
next
  case (upgraded d)
  then have "even r" "odd now" "r < now" using assms(2-4) by (auto simp: nonce_at_def ctx_at_def intro: le_neq_trans)
  then show ?thesis using upgraded assms(3) nth_nonce_upgrade [of r dh bh]
    by (auto simp: beyond_def nonce_at_def intro!: exI [of _ "Suc r"])
qed (use assms in \<open>auto simp: nonce_at_def versions_new_def\<close>)

lemma nonce_step_beyond:
  assumes "nonce_step dh ctx sg v v'" "ctx_at bh now' ctx" "beyond dh bh r now v" "now \<le> now'"
  shows "beyond dh bh r now' v'"
proof (cases "stored_nonce v")
  case None
  with assms(1) show ?thesis
  proof (cases rule: nonce_step.cases)
    case (initialize n separate a)
    then show ?thesis using assms(2-4) nonce_at_new [of dh bh now']
      by (auto simp: beyond_def get_durable_nonce_at intro!: exI [of _ now'])
  qed auto
next
  case (Some n)
  with assms(3) obtain s where s: "r < s" "s \<le> now" "nonce_at dh bh s v" by (auto simp: beyond_def)
  then show ?thesis
    using nonce_step_number [OF assms(1,2) s(3)] assms(4) by (auto simp: beyond_def intro: less_trans)
qed

end
