(* ===== verification/System_Program.thy ===== *)
theory System_Program
  imports Nonce_State
begin

text \<open>
  The system program (\<open>runtime/src/system_instruction_processor.rs\<close>): creation of accounts,
  allocation, assignment, transfers and the dispatch of its instructions, nonces included.
\<close>

section \<open>Addresses\<close>

record address =
  address_key :: pubkey
  address_base :: "pubkey option"

type_synonym seed_hash = "pubkey \<Rightarrow> string \<Rightarrow> pubkey \<Rightarrow> hash"

fun address_is_signer :: "address \<Rightarrow> pubkey set \<Rightarrow> bool" where
  "address_is_signer a signers =
     (case address_base a of Some base \<Rightarrow> base \<in> signers | None \<Rightarrow> address_key a \<in> signers)"

definition address_create :: "seed_hash \<Rightarrow> pubkey \<Rightarrow> (pubkey \<times> string \<times> pubkey) option \<Rightarrow> address ires" where
  "address_create hashv addr with_seed =
     and_then (case with_seed of
         Some (base, seed, own) \<Rightarrow>
           and_then (create_with_seed hashv base seed own) (\<lambda>address_with_seed.
           and_then (ensure (addr = address_with_seed) (from_system_error AddressWithSeedMismatch)) (\<lambda>_.
           Inr (Some base)))
       | None \<Rightarrow> Inr None) (\<lambda>base.
     Inr \<lparr>address_key = addr, address_base = base\<rparr>)"

section \<open>Operations\<close>

definition MAX_PERMITTED_DATA_LENGTH :: u64 where
  "MAX_PERMITTED_DATA_LENGTH = 10 * 1024 * 1024"

definition allocate :: "address \<Rightarrow> u64 \<Rightarrow> pubkey set \<Rightarrow> 'b::zero account \<Rightarrow> 'b account ires" where
  "allocate addr space signers a =
     and_then (ensure (address_is_signer addr signers) MissingRequiredSignature) (\<lambda>_.
     and_then (ensure (data a = [] \<and> owner a = system_program_id) (from_system_error AccountAlreadyInUse)) (\<lambda>_.
     and_then (ensure (space \<le> MAX_PERMITTED_DATA_LENGTH) (from_system_error InvalidAccountDataLength)) (\<lambda>_.
     Inr (a\<lparr>data := replicate (unat space) 0\<rparr>))))"

definition assign :: "address \<Rightarrow> pubkey \<Rightarrow> pubkey set \<Rightarrow> 'b account \<Rightarrow> 'b account ires" where
  "assign addr own signers a =
     (if owner a = own then Inr a
      else and_then (ensure (address_is_signer addr signers) MissingRequiredSignature) (\<lambda>_. Inr (a\<lparr>owner := own\<rparr>)))"

definition allocate_and_assign ::
  "address \<Rightarrow> u64 \<Rightarrow> pubkey \<Rightarrow> pubkey set \<Rightarrow> 'b::zero account \<Rightarrow> 'b account ires" where
  "allocate_and_assign addr space own signers a =
     and_then (allocate addr space signers a) (\<lambda>a1. assign addr own signers a1)"

definition transfer_verified :: "keyed_account \<Rightarrow> keyed_account \<Rightarrow> u64 \<Rightarrow> 'b store \<Rightarrow> 'b store ires" where
  "transfer_verified from to l st =
     and_then (ensure (data (acct st from) = []) InvalidArgument) (\<lambda>_.
     and_then (ensure (l \<le> lamports (acct st from)) (from_system_error ResultWithNegativeLamports)) (\<lambda>_.
     and_then (upd_account from (checked_sub_lamports l) st) (\<lambda>st1.
     upd_account to (checked_add_lamports l) st1)))"

definition transfer :: "feature set \<Rightarrow> keyed_account \<Rightarrow> keyed_account \<Rightarrow> u64 \<Rightarrow> 'b store \<Rightarrow> 'b store ires" where
  "transfer fs from to l st =
     (if \<not> is_active fs System_transfer_zero_check \<and> l = 0 then Inr st
      else
        and_then (ensure (signer_key from \<noteq> None) MissingRequiredSignature) (\<lambda>_.
        transfer_verified from to l st))"

definition transfer_with_seed ::
  "seed_hash \<Rightarrow> feature set \<Rightarrow> keyed_account \<Rightarrow> keyed_account \<Rightarrow> string \<Rightarrow> pubkey \<Rightarrow> keyed_account \<Rightarrow> u64
    \<Rightarrow> 'b store \<Rightarrow> 'b store ires" where
  "transfer_with_seed hashv fs from from_base from_seed from_owner to l st =
     (if \<not> is_active fs System_transfer_zero_check \<and> l = 0 then Inr st
      else
        and_then (ensure (signer_key from_base \<noteq> None) MissingRequiredSignature) (\<lambda>_.
        and_then (create_with_seed hashv (unsigned_key from_base) from_seed from_owner) (\<lambda>address_from_seed.
        and_then (ensure (unsigned_key from = address_from_seed) (from_system_error AddressWithSeedMismatch)) (\<lambda>_.
        transfer_verified from to l st))))"

definition create_account ::
  "feature set \<Rightarrow> keyed_account \<Rightarrow> keyed_account \<Rightarrow> address \<Rightarrow> u64 \<Rightarrow> u64 \<Rightarrow> pubkey \<Rightarrow> pubkey set
    \<Rightarrow> 'b::zero store \<Rightarrow> 'b store ires" where
  "create_account fs from to to_address l space own signers st =
     and_then (ensure (\<not> 0 < lamports (acct st to)) (from_system_error AccountAlreadyInUse)) (\<lambda>_.
     and_then (upd_account to (allocate_and_assign to_address space own signers) st) (\<lambda>st1.
     transfer fs from to l st1))"

section \<open>Instructions\<close>

datatype system_instruction =
    CreateAccount u64 u64 pubkey
  | Assign pubkey
  | Transfer u64
  | CreateAccountWithSeed pubkey string u64 u64 pubkey
  | AdvanceNonceAccount
  | WithdrawNonceAccount u64
  | InitializeNonceAccount pubkey
  | AuthorizeNonceAccount pubkey
  | Allocate u64
  | AllocateWithSeed pubkey string u64 pubkey
  | AssignWithSeed pubkey string pubkey
  | TransferWithSeed u64 string pubkey
  | UpgradeNonceAccount

record 'b system_env =
  y_codec :: "'b nonce_codec"
  y_hashv :: seed_hash
  y_durable :: "hash \<Rightarrow> hash"
  y_ctx :: invoke_context

text \<open>\<open>ins\<close> is what \<open>limited_deserialize\<close> makes of the instruction data.\<close>

definition system_process_instruction ::
  "'b::zero system_env \<Rightarrow> keyed_account list \<Rightarrow> nat \<Rightarrow> system_instruction option \<Rightarrow> 'b store \<Rightarrow> 'b store ires" where
  "system_process_instruction env kas first ins st =
     and_then (ok_or ins InvalidInstructionData) (\<lambda>i.
     and_then (keyed_account_at_index kas first) (\<lambda>me.
     let signers = get_signers (drop first kas);
         at = (\<lambda>n. keyed_account_at_index kas (first + n));
         c = y_codec env; dh = y_durable env; ctx = y_ctx env; fs = features ctx;
         blockhashes_at = (\<lambda>n. and_then (at n) (\<lambda>ka. sysvar_recent_blockhashes_checked ka ctx));
         rent_at = (\<lambda>n. and_then (at n) (\<lambda>ka. sysvar_rent_checked ka ctx))
     in case i of
       CreateAccount l space own \<Rightarrow>
         and_then (at 1) (\<lambda>to.
         and_then (address_create (y_hashv env) (unsigned_key to) None) (\<lambda>to_address.
         create_account fs me to to_address l space own signers st))
     | CreateAccountWithSeed base seed l space own \<Rightarrow>
         and_then (at 1) (\<lambda>to.
         and_then (address_create (y_hashv env) (unsigned_key to) (Some (base, seed, own))) (\<lambda>to_address.
         create_account fs me to to_address l space own signers st))
     | Assign own \<Rightarrow>
         and_then (address_create (y_hashv env) (unsigned_key me) None) (\<lambda>addr.
         upd_account me (assign addr own signers) st)
     | Transfer l \<Rightarrow> and_then (at 1) (\<lambda>to. transfer fs me to l st)
     | TransferWithSeed l from_seed from_owner \<Rightarrow>
         and_then (at 1) (\<lambda>base.
         and_then (at 2) (\<lambda>to.
         transfer_with_seed (y_hashv env) fs me base from_seed from_owner to l st))
     | AdvanceNonceAccount \<Rightarrow>
         and_then (blockhashes_at 1) (\<lambda>recent_blockhashes.
         and_then (ensure (recent_blockhashes \<noteq> []) (from_nonce_error NoRecentBlockhashes)) (\<lambda>_.
         advance_nonce_account dh c me signers ctx st))
     | WithdrawNonceAccount l \<Rightarrow>
         and_then (at 1) (\<lambda>to.
         and_then (blockhashes_at 2) (\<lambda>_.
         and_then (rent_at 3) (\<lambda>r.
         withdraw_nonce_account dh c me l to r signers ctx st)))
     | InitializeNonceAccount authorized \<Rightarrow>
         and_then (blockhashes_at 1) (\<lambda>recent_blockhashes.
         and_then (ensure (recent_blockhashes \<noteq> []) (from_nonce_error NoRecentBlockhashes)) (\<lambda>_.
         and_then (rent_at 2) (\<lambda>r.
         initialize_nonce_account dh c me authorized r ctx st)))
     | AuthorizeNonceAccount nonce_authority \<Rightarrow>
         authorize_nonce_account c me nonce_authority signers ctx st
     | UpgradeNonceAccount \<Rightarrow> upgrade_nonce_account dh c me ctx st
     | Allocate space \<Rightarrow>
         and_then (address_create (y_hashv env) (unsigned_key me) None) (\<lambda>addr.
         upd_account me (allocate addr space signers) st)
     | AllocateWithSeed base seed space own \<Rightarrow>
         and_then (address_create (y_hashv env) (unsigned_key me) (Some (base, seed, own))) (\<lambda>addr.
         upd_account me (allocate_and_assign addr space own signers) st)
     | AssignWithSeed base seed own \<Rightarrow>
         and_then (address_create (y_hashv env) (unsigned_key me) (Some (base, seed, own))) (\<lambda>addr.
         upd_account me (assign addr own signers) st)))"

section \<open>Kinds of system accounts\<close>

datatype system_account_kind = SystemAccount | NonceAccount

definition get_system_account_kind :: "'b nonce_codec \<Rightarrow> 'b account \<Rightarrow> system_account_kind option" where
  "get_system_account_kind c a =
     (if owner a = system_program_id then
        if data a = [] then Some SystemAccount
        else if length (data a) = nonce_state_size c then
          (case get_state c a of
             Inr v \<Rightarrow> (case versions_state v of NonceUninitialized \<Rightarrow> None | NonceInitialized _ \<Rightarrow> Some NonceAccount)
           | Inl _ \<Rightarrow> None)
        else None
      else None)"

section \<open>What a successful instruction did\<close>

text \<open>An address whose holder signed, directly or through the key it is derived from.\<close>

definition holder_signed :: "seed_hash \<Rightarrow> pubkey set \<Rightarrow> pubkey \<Rightarrow> bool" where
  "holder_signed hashv signers k \<longleftrightarrow> k \<in> signers \<or> (\<exists>base\<in>signers. \<exists>seed own. create_with_seed hashv base seed own = Inr k)"

lemma address_create_Inr:
  "address_create hashv k ws = Inr addr \<longleftrightarrow>
     (case ws of
        None \<Rightarrow> addr = \<lparr>address_key = k, address_base = None\<rparr>
      | Some (base, seed, own) \<Rightarrow> create_with_seed hashv base seed own = Inr k \<and> addr = \<lparr>address_key = k, address_base = Some base\<rparr>)"
  by (auto simp: address_create_def res_elim split: option.splits)

lemma address_signed:
  "address_create hashv k ws = Inr addr \<Longrightarrow> address_is_signer addr signers \<Longrightarrow> holder_signed hashv signers k"
  by (auto simp: address_create_Inr holder_signed_def split: option.splits)

lemma allocate_Inr:
  "allocate addr space signers a = Inr a' \<longleftrightarrow> address_is_signer addr signers \<and> data a = [] \<and> owner a = system_program_id
     \<and> space \<le> MAX_PERMITTED_DATA_LENGTH \<and> a' = a\<lparr>data := replicate (unat space) 0\<rparr>"
  by (auto simp: allocate_def res_elim)

lemma assign_Inr:
  "assign addr own signers a = Inr a' \<longleftrightarrow> (owner a = own \<or> address_is_signer addr signers) \<and> a' = a\<lparr>owner := own\<rparr>"
  by (auto simp: assign_def res_elim)

lemma allocate_and_assign_Inr:
  "allocate_and_assign addr space own signers a = Inr a' \<longleftrightarrow> address_is_signer addr signers \<and> data a = []
     \<and> owner a = system_program_id \<and> space \<le> MAX_PERMITTED_DATA_LENGTH
     \<and> a' = a\<lparr>data := replicate (unat space) 0, owner := own\<rparr>"
  by (auto simp: allocate_and_assign_def res_elim allocate_Inr assign_Inr)

lemma transfer_verified_Inr:
  "transfer_verified from to l st = Inr st' \<longleftrightarrow> data (acct st from) = []
     \<and> (\<exists>st1. upd_account from (checked_sub_lamports l) st = Inr st1 \<and> upd_account to (checked_add_lamports l) st1 = Inr st')"
  by (auto simp: transfer_verified_def res_elim acct)

text \<open>The operations on a nonce account, by what they have in common.\<close>

definition nonce_operation ::
  "(hash \<Rightarrow> hash) \<Rightarrow> 'b nonce_codec \<Rightarrow> invoke_context \<Rightarrow> pubkey set \<Rightarrow> keyed_account \<Rightarrow> 'b store \<Rightarrow> 'b store \<Rightarrow> bool" where
  "nonce_operation dh c ctx signers me st st' \<longleftrightarrow>
     advance_nonce_account dh c me signers ctx st = Inr st'
     \<or> (\<exists>l to r. withdraw_nonce_account dh c me l to r signers ctx st = Inr st')
     \<or> (\<exists>a r. initialize_nonce_account dh c me a r ctx st = Inr st')
     \<or> (\<exists>a. authorize_nonce_account c me a signers ctx st = Inr st')
     \<or> upgrade_nonce_account dh c me ctx st = Inr st'"

lemma system_dispatch:
  assumes "system_process_instruction env kas first ins st = Inr st'"
  obtains (create) to addr ws l space own where
      "address_create (y_hashv env) (key to) ws = Inr addr"
      "create_account (features (y_ctx env)) (kas ! first) to addr l space own (get_signers (drop first kas)) st = Inr st'"
  | (alter) addr ws own space f where "address_create (y_hashv env) (key (kas ! first)) ws = Inr addr"
      "f = assign addr own (get_signers (drop first kas)) \<or> f = allocate addr space (get_signers (drop first kas))
       \<or> f = allocate_and_assign addr space own (get_signers (drop first kas))"
      "upd_account (kas ! first) f st = Inr st'"
  | (transfer) to l where "transfer (features (y_ctx env)) (kas ! first) to l st = Inr st'"
  | (seeded) base s own to l where "is_signer base \<longrightarrow> key base \<in> get_signers (drop first kas)"
      "transfer_with_seed (y_hashv env) (features (y_ctx env)) (kas ! first) base s own to l st = Inr st'"
  | (nonce) "nonce_operation (y_durable env) (y_codec env) (y_ctx env) (get_signers (drop first kas)) (kas ! first) st st'"
proof -
  obtain i where i: "ins = Some i" and first: "first < length kas"
    using assms by (auto simp: system_process_instruction_def Let_def res_elim acct)
  note run = assms [unfolded system_process_instruction_def Let_def i, simplified res_elim acct]
  show thesis
  proof (cases i)
    case (CreateAccount l space own)
    then show thesis using run by (auto simp: res_elim unsigned_key_def intro: create)
  next
    case (Assign own)
    then show thesis using run by (auto simp: res_elim unsigned_key_def intro: alter)
  next
    case (Transfer l)
    then show thesis using run by (auto simp: res_elim intro: transfer)
  next
    case (CreateAccountWithSeed base seed l space own)
    then show thesis using run by (auto simp: res_elim unsigned_key_def intro: create)
  next
    case (Allocate space)
    then show thesis using run by (auto simp: res_elim unsigned_key_def intro: alter)
  next
    case (AllocateWithSeed base seed space own)
    then show thesis using run by (auto simp: res_elim unsigned_key_def intro: alter)
  next
    case (AssignWithSeed base seed own)
    then show thesis using run by (auto simp: res_elim unsigned_key_def intro: alter)
  next
    case (TransferWithSeed l s own)
    have "is_signer (kas ! Suc first) \<longrightarrow> key (kas ! Suc first) \<in> get_signers (drop first kas)" if "Suc first < length kas"
      using that by (force simp: get_signers_def List.map_filter_def signer_key_def in_set_conv_nth
          intro: exI [of _ 1] rev_image_eqI)
    with TransferWithSeed show thesis using run
      by (auto simp: res_elim keyed_account_at_index_Inr intro!: seeded [of "kas ! Suc first"])
  qed (use run in \<open>auto simp: res_elim nonce_operation_def intro!: nonce\<close>)
qed

lemma nonce_operation_moved:
  "nonce_operation dh c ctx signers me st st' \<Longrightarrow> codec_ok c \<Longrightarrow> nonce_moved dh c ctx signers me st st'"
  by (auto simp: nonce_operation_def intro: advance_nonce_account_moved withdraw_nonce_account_moved
      initialize_nonce_account_moved authorize_nonce_account_moved upgrade_nonce_account_moved)

lemma transfer_verified_total: "transfer_verified from to l st = Inr st' \<Longrightarrow> total_lamports st' = total_lamports st"
  by (auto simp: transfer_verified_Inr dest: sub_add_total)

lemma transfer_total: "transfer fs from to l st = Inr st' \<Longrightarrow> total_lamports st' = total_lamports st"
  by (auto simp: transfer_def res_elim dest: transfer_verified_total split: if_splits)

section \<open>Conservation\<close>

fun system_step ::
  "'b::zero system_env \<times> keyed_account list \<times> nat \<times> system_instruction option \<Rightarrow> 'b store \<Rightarrow> 'b store ires" where
  "system_step (env, kas, first, ins) st = system_process_instruction env kas first ins st"

lemma system_process_instruction_total:
  assumes "system_process_instruction env kas first ins st = Inr st'"
  shows "total_lamports st' = total_lamports st"
  using assms
proof (cases rule: system_dispatch)
  case (create to addr ws l space own)
  then obtain st1 where "upd_account to (allocate_and_assign addr space own (get_signers (drop first kas))) st = Inr st1"
    "transfer (features (y_ctx env)) (kas ! first) to l st1 = Inr st'"
    by (auto simp: create_account_def res_elim)
  then show ?thesis
    by (auto simp: acct allocate_and_assign_Inr acct_def dest!: transfer_total intro!: total_lamports_same)
next
  case (alter addr ws own space f)
  then show ?thesis
    by (auto simp: acct allocate_and_assign_Inr allocate_Inr assign_Inr acct_def intro!: total_lamports_same)
next
  case (seeded base s own to l)
  then show ?thesis by (auto simp: transfer_with_seed_def res_elim dest: transfer_verified_total split: if_splits)
next
  case nonce
  then show ?thesis by (auto simp: nonce_operation_def dest: nonce_setters_total withdraw_nonce_account_total)
qed (rule transfer_total)

interpretation system_lamports: conserving_machine system_step "\<lambda>_. True" total_lamports
  by unfold_locales (auto dest: system_process_instruction_total)

section \<open>Authority\<close>

lemma first_signer:
  "first < length kas \<Longrightarrow> signer_key (kas ! first) \<noteq> None \<Longrightarrow> key (kas ! first) \<in> get_signers (drop first kas)"
  by (force simp: get_signers_def List.map_filter_def signer_key_def in_set_conv_nth intro: exI [of _ 0] split: if_splits)

lemma lamports_move_less:
  assumes "upd_account me (checked_sub_lamports l) st = Inr st2" "upd_account to (checked_add_lamports l) st2 = Inr st'"
    and "lamports (st' k) < lamports (st k)"
  shows "k = key me"
proof (rule ccontr)
  assume "k \<noteq> key me"
  then have "lamports (st2 k) = lamports (st k)" using assms(1) by (auto simp: acct acct_def)
  moreover have "lamports (st2 k) \<le> lamports (st' k)"
    using assms(2) by (auto simp: acct acct_def word_le_nat_alt word_nat)
  ultimately show False using assms(3) by simp
qed

lemma transfer_verified_less:
  "transfer_verified from to l st = Inr st' \<Longrightarrow> lamports (st' k) < lamports (st k) \<Longrightarrow> k = key from"
  by (auto simp: transfer_verified_Inr dest: lamports_move_less)

lemma transfer_verified_data:
  "transfer_verified from to l st = Inr st' \<Longrightarrow> data (st' k) = data (st k) \<and> owner (st' k) = owner (st k)"
  by (auto simp: transfer_verified_Inr lamports_move_data)

lemma transfer_Inr:
  assumes "transfer fs from to l st = Inr st'"
  shows "st' = st \<and> l = 0 \<or> signer_key from \<noteq> None \<and> transfer_verified from to l st = Inr st'"
  using assms by (auto simp: transfer_def res_elim split: if_splits)

lemma transfer_with_seed_Inr:
  assumes "transfer_with_seed hashv fs from base s own to l st = Inr st'"
  shows "st' = st \<and> l = 0 \<or> is_signer base \<and> create_with_seed hashv (key base) s own = Inr (key from)
    \<and> transfer_verified from to l st = Inr st'"
  using assms by (auto simp: transfer_with_seed_def res_elim unsigned_key_def signer_key_def split: if_splits)

text \<open>What an instruction signed by \<open>signers\<close> may do to the account \<open>k\<close>.\<close>

definition nonce_holder_signed :: "'b nonce_codec \<Rightarrow> pubkey set \<Rightarrow> 'b account \<Rightarrow> bool" where
  "nonce_holder_signed c signers a \<longleftrightarrow>
     (\<exists>v d. decode c (data a) = Some v \<and> versions_state v = NonceInitialized d \<and> authority d \<in> signers)"

definition lawful_change :: "'b system_env \<Rightarrow> pubkey set \<Rightarrow> pubkey \<Rightarrow> 'b::zero account \<Rightarrow> 'b account \<Rightarrow> bool" where
  "lawful_change env signers k a a' \<longleftrightarrow>
     (lamports a' < lamports a \<longrightarrow> holder_signed (y_hashv env) signers k \<or> nonce_holder_signed (y_codec env) signers a)
   \<and> (owner a' \<noteq> owner a \<longrightarrow> holder_signed (y_hashv env) signers k)
   \<and> (data a' \<noteq> data a \<longrightarrow>
        data a = [] \<and> owner a = system_program_id \<and> holder_signed (y_hashv env) signers k
          \<and> (\<exists>n. data a' = replicate n 0)
        \<or> (\<exists>v v'. decode (y_codec env) (data a) = Some v \<and> decode (y_codec env) (data a') = Some v'
             \<and> nonce_step (y_durable env) (y_ctx env) signers v v'))"

lemma lawful_refl: "data a' = data a \<Longrightarrow> owner a' = owner a \<Longrightarrow> lamports a \<le> lamports a' \<Longrightarrow> lawful_change env signers k a a'"
  by (auto simp: lawful_change_def)

lemma lawful_transfer:
  assumes "transfer_verified from to l st = Inr st'" "holder_signed (y_hashv env) signers (key from)"
  shows "lawful_change env signers k (st k) (st' k)"
  using transfer_verified_data [OF assms(1), of k] transfer_verified_less [OF assms(1), of k] assms(2)
  by (auto simp: lawful_change_def)

lemma lawful_altered:
  assumes "address_create (y_hashv env) (key ka) ws = Inr addr" "upd_account ka f st = Inr st'"
    and "f = assign addr own signers \<or> f = allocate addr space signers \<or> f = allocate_and_assign addr space own signers"
  shows "lawful_change env signers k (st k) (st' k)"
proof (cases "k = key ka")
  case True
  then show ?thesis using assms address_signed [OF assms(1), of signers]
    by (auto simp: acct acct_def assign_Inr allocate_Inr allocate_and_assign_Inr lawful_change_def)
qed (use assms(2) in \<open>auto simp: acct lawful_change_def\<close>)

lemma nonce_setters_lamports:
  "advance_nonce_account dh c me signers ctx st = Inr st' \<Longrightarrow> lamports (st' k) = lamports (st k)"
  "initialize_nonce_account dh c me a r ctx st = Inr st' \<Longrightarrow> lamports (st' k) = lamports (st k)"
  "authorize_nonce_account c me a signers ctx st = Inr st' \<Longrightarrow> lamports (st' k) = lamports (st k)"
  "upgrade_nonce_account dh c me ctx st = Inr st' \<Longrightarrow> lamports (st' k) = lamports (st k)"
  by (auto simp: advance_nonce_account_def initialize_nonce_account_def authorize_nonce_account_def
      upgrade_nonce_account_def Let_def fail_def dest: set_state_frame_store(1)
      split: prod.splits nonce_state.splits option.splits and_then_splits)

lemma withdraw_nonce_account_less:
  assumes "withdraw_nonce_account dh c me l to r signers ctx st = Inr st'" "lamports (st' k) < lamports (st k)"
  shows "k = key me \<and> (key me \<in> signers \<or> nonce_holder_signed c signers (st k))"
  using assms(1)
proof (cases rule: withdraw_nonce_account_Inr)
  case (uninitialized v st2)
  then show ?thesis using lamports_move_less [OF uninitialized(5,6) assms(2)] by simp
next
  case (close v d n separate st1 st2)
  then show ?thesis
    using lamports_move_less [OF close(8,9), of k] assms(2) set_state_frame_store(1) [OF close(7)]
    by (auto simp: nonce_holder_signed_def acct_def)
next
  case (part v d st2)
  then show ?thesis using lamports_move_less [OF part(6,7) assms(2)] by (auto simp: nonce_holder_signed_def acct_def)
qed

lemma nonce_operation_less:
  assumes "nonce_operation dh c ctx signers me st st'" "lamports (st' k) < lamports (st k)"
  shows "holder_signed hashv signers k \<or> nonce_holder_signed c signers (st k)"
  using assms withdraw_nonce_account_less [of dh c me _ _ _ signers ctx st st' k]
  by (auto simp: nonce_operation_def nonce_setters_lamports holder_signed_def)

lemma lawful_nonce:
  assumes "nonce_operation (y_durable env) (y_codec env) (y_ctx env) signers me st st'" "codec_ok (y_codec env)"
  shows "lawful_change env signers k (st k) (st' k)"
proof -
  note moved = nonce_operation_moved [OF assms, unfolded nonce_moved_def]
  have "data (st' k) \<noteq> data (st k) \<longrightarrow> (\<exists>v v'. decode (y_codec env) (data (st k)) = Some v
      \<and> decode (y_codec env) (data (st' k)) = Some v' \<and> nonce_step (y_durable env) (y_ctx env) signers v v')"
    using moved by (cases "k = key me") (auto simp: acct_def)
  moreover have "lamports (st' k) < lamports (st k) \<Longrightarrow> holder_signed (y_hashv env) signers k \<or> nonce_holder_signed (y_codec env) signers (st k)"
    using nonce_operation_less [OF assms(1)] by blast
  ultimately show ?thesis using moved by (auto simp: lawful_change_def)
qed

lemma create_account_Inr:
  assumes "create_account fs from to addr l space own signers st = Inr st'"
  obtains st1 where "lamports (acct st to) = 0"
    "upd_account to (allocate_and_assign addr space own signers) st = Inr st1" "transfer fs from to l st1 = Inr st'"
  using assms by (auto simp: create_account_def res_elim word_gt_0)

lemma system_changes_lawful:
  assumes "system_process_instruction env kas first ins st = Inr st'" "codec_ok (y_codec env)"
  shows "lawful_change env (get_signers (drop first kas)) k (st k) (st' k)"
proof -
  have first: "first < length kas"
    using assms(1) by (auto simp: system_process_instruction_def Let_def res_elim acct)
  have tr: "lawful_change env (get_signers (drop first kas)) k (s1 k) (s2 k)"
    if "transfer (features (y_ctx env)) (kas ! first) to l s1 = Inr s2" for to l s1 s2
    using transfer_Inr [OF that] first_signer [OF first]
    by (auto intro: lawful_refl lawful_transfer simp: holder_signed_def)
  from assms(1) show ?thesis
  proof (cases rule: system_dispatch)
    case (create to addr ws l space own)
    then obtain st1 where st1: "upd_account to (allocate_and_assign addr space own (get_signers (drop first kas))) st = Inr st1"
        "transfer (features (y_ctx env)) (kas ! first) to l st1 = Inr st'"
      by (auto elim: create_account_Inr)
    have "data (st' k) = data (st1 k)" "owner (st' k) = owner (st1 k)" "lamports (st1 k) = lamports (st k)"
      using transfer_Inr [OF st1(2)] transfer_verified_data [of _ to l st1 st' k] st1(1)
      by (auto simp: acct acct_def allocate_and_assign_Inr)
    moreover have "lamports (st' k) < lamports (st1 k) \<Longrightarrow> holder_signed (y_hashv env) (get_signers (drop first kas)) k"
      using transfer_Inr [OF st1(2)] transfer_verified_less [of "kas ! first" to l st1 st' k] first_signer [OF first]
      by (auto simp: holder_signed_def)
    moreover have "lawful_change env (get_signers (drop first kas)) k (st k) (st1 k)"
      using lawful_altered [OF create(1) st1(1)] by blast
    ultimately show ?thesis by (auto simp: lawful_change_def)
  next
    case (alter addr ws own space f)
    then show ?thesis by (blast intro: lawful_altered)
  next
    case (transfer to l)
    then show ?thesis by (rule tr)
  next
    case (seeded base s own to l)
    from transfer_with_seed_Inr [OF seeded(2)] show ?thesis
    proof
      assume "st' = st \<and> l = 0"
      then show ?thesis by (simp add: lawful_refl)
    next
      assume v: "is_signer base \<and> create_with_seed (y_hashv env) (key base) s own = Inr (key (kas ! first))
        \<and> transfer_verified (kas ! first) to l st = Inr st'"
      with seeded(1) have "holder_signed (y_hashv env) (get_signers (drop first kas)) (key (kas ! first))"
        unfolding holder_signed_def by blast
      with v show ?thesis by (blast intro: lawful_transfer)
    qed
  next
    case nonce
    then show ?thesis by (rule lawful_nonce [OF _ assms(2)])
  qed
qed

text \<open>A transfer succeeds exactly when the sender signed, carries no data and has the lamports,
  and the receiver can hold them; then it moves exactly that amount and nothing else. (Without
  the zero check a transfer of nothing succeeds and does nothing.)\<close>

lemma transfer_iff:
  assumes "key from \<noteq> key to"
  shows "transfer fs from to l st = Inr st' \<longleftrightarrow>
    (if l = 0 \<and> \<not> is_active fs System_transfer_zero_check then st' = st
     else is_signer from \<and> data (st (key from)) = [] \<and> l \<le> lamports (st (key from))
       \<and> unat (lamports (st (key to))) + unat l < 2 ^ 64
       \<and> st' = st(key from := (st (key from))\<lparr>lamports := lamports (st (key from)) - l\<rparr>,
                  key to := (st (key to))\<lparr>lamports := lamports (st (key to)) + l\<rparr>))"
  using assms by (auto simp: transfer_def res_elim signer_key_def transfer_verified_Inr acct acct_def)

section \<open>Steps of a nonce account\<close>

text \<open>Each instruction is a step, or none, of every nonce account that stays with the program.\<close>

lemma system_nonce_step:
  assumes "system_process_instruction env kas first ins st = Inr st'" "codec_ok (y_codec env)"
    and "decode (y_codec env) [] = None" "decode (y_codec env) (data (st k)) = Some v"
  obtains v' where "decode (y_codec env) (data (st' k)) = Some v'"
    "(nonce_step (y_durable env) (y_ctx env) (get_signers (drop first kas)))\<^sup>=\<^sup>= v v'"
  using system_changes_lawful [OF assms(1,2), of k] assms(3,4)
  by (cases "data (st' k) = data (st k)") (auto simp: lawful_change_def)

section \<open>Properties\<close>

text \<open>An example: a payer 5 with 100 lamports, an unused account 6, and a nonce account 7 of authority 5.\<close>

datatype ncell = NonceCell nonce_versions | NonceZero

instantiation ncell :: zero
begin

definition zero_ncell :: ncell where
  "zero_ncell = NonceZero"

instance ..

end

fun ncell_decode :: "ncell list \<Rightarrow> nonce_versions option" where
  "ncell_decode (NonceCell v # _) = Some v"
| "ncell_decode _ = None"

definition ncodec :: "ncell nonce_codec" where
  "ncodec = \<lparr>encode = (\<lambda>v. [NonceCell v]), decode = ncell_decode\<rparr>"

lemma ncodec_ok: "codec_ok ncodec"
  by (simp add: codec_ok_def ncodec_def)

lemma ncodec_empty: "decode ncodec [] = None"
  by (simp add: ncodec_def)

definition eg_ctx :: "feature set \<Rightarrow> hash \<Rightarrow> invoke_context" where
  "eg_ctx fs h = \<lparr>sysvars = \<lparr>sysvar_clock = None, sysvar_rent = None, sysvar_slot_hashes = None,
     sysvar_recent_blockhashes = Some [h], sysvar_stake_history = None\<rparr>, features = fs, ctx_blockhash = h,
     ctx_lamports_per_signature = 10\<rparr>"

definition eg_sys :: "hash \<Rightarrow> ncell system_env" where
  "eg_sys h = \<lparr>y_codec = ncodec, y_hashv = (\<lambda>b s p. b + p), y_durable = (\<lambda>n. n + 1000), y_ctx = eg_ctx {} h\<rparr>"

definition eg_nonce :: "hash \<Rightarrow> nonce_versions" where
  "eg_nonce h = NonceLegacy (nonce_new_initialized 5 h 10)"

definition eg_accounts :: "hash \<Rightarrow> ncell store" where
  "eg_accounts h = (\<lambda>_. \<lparr>lamports = 0, data = [], owner = system_program_id, executable = False, rent_epoch = 0\<rparr>)
     (5 := \<lparr>lamports = 100, data = [], owner = system_program_id, executable = False, rent_epoch = 0\<rparr>,
      7 := \<lparr>lamports = 1, data = [NonceCell (eg_nonce h)], owner = system_program_id, executable = False, rent_epoch = 0\<rparr>)"

definition eg_signed :: "pubkey \<Rightarrow> keyed_account" where
  "eg_signed k = \<lparr>is_signer = True, is_writable = True, key = k\<rparr>"

lemmas eg_system = eg_ctx_def eg_sys_def eg_nonce_def eg_accounts_def eg_signed_def ncodec_def

lemmas system_eval = eg_system system_process_instruction_def create_account_def allocate_and_assign_def allocate_def
  assign_def transfer_def transfer_verified_def address_create_def keyed_account_at_index_def get_signers_def
  List.map_filter_def signer_key_def unsigned_key_def upd_account_def acct_def checked_sub_lamports_def
  checked_add_lamports_def is_active_def MAX_PERMITTED_DATA_LENGTH_def Let_def

definition eg_created :: "ncell store" where
  "eg_created = (eg_accounts 1)
     (5 := \<lparr>lamports = 60, data = [], owner = system_program_id, executable = False, rent_epoch = 0\<rparr>,
      6 := \<lparr>lamports = 40, data = replicate 3 NonceZero, owner = 9, executable = False, rent_epoch = 0\<rparr>)"

lemma eg_create_account:
  "create_account {} (eg_signed 5) (eg_signed 6) \<lparr>address_key = 6, address_base = None\<rparr> 40 3 9 {5, 6} (eg_accounts 1)
    = Inr eg_created"
  by (simp add: system_eval eg_created_def zero_ncell_def ensure_def ok_or_def checked_sub_w_def checked_add_w_def
      system_program_id_def)

lemma eg_create:
  "system_process_instruction (eg_sys 1) [eg_signed 5, eg_signed 6] 0 (Some (CreateAccount 40 3 9)) (eg_accounts 1)
    = Inr eg_created"
  using eg_create_account
  by (simp add: system_process_instruction_def keyed_account_at_index_def get_signers_def List.map_filter_def
      eg_signed_def signer_key_def unsigned_key_def address_create_def Let_def eg_sys_def eg_ctx_def)

text \<open>C34: Whatever instructions the system program is sent, as long as they succeed no lamport is
  created or destroyed.\<close>

theorem system_instructions_conserve:
  assumes "run_steps system_step is st = Inr st'"
  shows "total_lamports st' = total_lamports st"
  by (rule system_lamports.run_total [OF _ assms]) simp

theorem system_instructions_conserve_witness:
  "total_lamports eg_created = total_lamports (eg_accounts 1)"
  using system_instructions_conserve [of "[(eg_sys 1, [eg_signed 5, eg_signed 6], 0, Some (CreateAccount 40 3 9))]"
      "eg_accounts 1" eg_created]
  by (simp add: eg_create)



text \<open>C35: A created account was unused, signed for its creation, holds the lamports paid, zeroed
  data of the size asked for and the owner asked for; the payer lost exactly the lamports paid; no
  other account changed.\<close>

theorem create_account_effect:
  assumes "create_account fs from to addr l space own signers st = Inr st'" "key from \<noteq> key to"
  shows "lamports (st (key to)) = 0 \<and> data (st (key to)) = [] \<and> owner (st (key to)) = system_program_id
    \<and> address_is_signer addr signers
    \<and> lamports (st' (key to)) = l \<and> data (st' (key to)) = replicate (unat space) 0 \<and> owner (st' (key to)) = own
    \<and> unat (lamports (st' (key from))) + unat l = unat (lamports (st (key from)))
    \<and> (l \<noteq> 0 \<longrightarrow> is_signer from \<and> data (st (key from)) = [])
    \<and> (\<forall>k. k \<noteq> key from \<and> k \<noteq> key to \<longrightarrow> st' k = st k)"
proof -
  from assms(1) obtain st1 where z: "lamports (st (key to)) = 0"
    and st1: "upd_account to (allocate_and_assign addr space own signers) st = Inr st1" and t: "transfer fs from to l st1 = Inr st'"
    by (auto simp: acct_def elim: create_account_Inr)
  from st1 have c: "data (st (key to)) = []" "owner (st (key to)) = system_program_id" "address_is_signer addr signers"
    "st1 = st(key to := (st (key to))\<lparr>data := replicate (unat space) 0, owner := own\<rparr>)"
    by (auto simp: acct acct_def allocate_and_assign_Inr)
  show ?thesis
    using t [unfolded transfer_iff [OF assms(2)]] z c assms(2)
    by (auto simp: word_nat word_le_nat_alt split: if_splits)
qed

theorem create_account_effect_witness:
  "lamports (eg_created 6) = 40 \<and> data (eg_created 6) = replicate (unat (3 :: u64)) 0
    \<and> unat (lamports (eg_created 5)) + unat (40 :: u64) = unat (lamports (eg_accounts 1 5))
    \<and> eg_created 7 = eg_accounts 1 7"
  using create_account_effect [OF eg_create_account] by (simp add: eg_signed_def)

end
