(* ===== verification/Message.thy ===== *)
theory Message
  imports Accounts
begin

text \<open>
  Transaction messages: compilation of instructions into the legacy message format
  (\<open>sdk/program/src/message/legacy.rs\<close>, \<open>compiled_keys.rs\<close>), the message format
  with loaded addresses (\<open>versions/v0\<close>, \<open>account_keys.rs\<close>) and sanitized messages
  (\<open>sanitized.rs\<close>). An address of 32 bytes, compared byte by byte, is the number its
  bytes denote, most significant first.
\<close>

section \<open>Reserved keys\<close>

definition epoch_schedule_id :: pubkey where
  "epoch_schedule_id = 3010411245986328729646169808388022824879167805765813351222839694649813106688"
definition fees_id :: pubkey where
  "fees_id = 3010411245988839768080938779134895012715399673910392426883968584161274363904"
definition recent_evm_blockhashes_id :: pubkey where
  "recent_evm_blockhashes_id = 3010411246019275183202519306892901745736770826371457027761465196991062999040"
definition rewards_id :: pubkey where
  "rewards_id = 3010411246019292312979761209880469183404341140736143741603546036852764966912"
definition slot_history_id :: pubkey where
  "slot_history_id = 3010411246020387390882771635765924662261524573769583470181990702897938038784"
definition instructions_id :: pubkey where
  "instructions_id = 3010411245946659004650937024412888917526102981211644260807408457663811420160"
definition feature_id :: pubkey where
  "feature_id = 1697283009773004509314654261529545701582471225670895602380440637121876721664"
definition native_loader_id :: pubkey where
  "native_loader_id = 2501004778692694513383192626365552564445537874725049955997982167012726538240"
definition bpf_loader_id :: pubkey where
  "bpf_loader_id = 1203157751113443873660160097494192217694197863828223470469643324391874887680"
definition bpf_loader_deprecated_id :: pubkey where
  "bpf_loader_deprecated_id = 1203157751113443858060189220861420229533383809681776218343720119607431790592"
definition bpf_loader_upgradeable_id :: pubkey where
  "bpf_loader_upgradeable_id = 1203157751113444292085578490895711631870746999416992000355168191203933945856"
definition evm_state_id :: pubkey where
  "evm_state_id = 1613739670999497221020362257199107158881551311896700989196890263315606929408"

definition ALL_IDS :: "pubkey list" where
  "ALL_IDS = [clock_id, epoch_schedule_id, fees_id, recent_blockhashes_id, recent_evm_blockhashes_id, rent_id,
     rewards_id, slot_hashes_id, slot_history_id, stake_history_id, instructions_id]"

definition is_sysvar_id :: "pubkey \<Rightarrow> bool" where
  "is_sysvar_id k = (k \<in> set ALL_IDS)"

definition BUILTIN_PROGRAMS_KEYS :: "pubkey list" where
  "BUILTIN_PROGRAMS_KEYS = [config_program_id, feature_id, native_loader_id, stake_program_id, stake_config_id,
     vote_program_id, system_program_id, bpf_loader_id, bpf_loader_deprecated_id, bpf_loader_upgradeable_id]"

section \<open>Instructions and messages\<close>

record account_meta =
  am_pubkey :: pubkey
  am_is_signer :: bool
  am_is_writable :: bool

record instruction =
  program_id :: pubkey
  ix_accounts :: "account_meta list"
  ix_data :: "u8 list"

record compiled_instruction =
  program_id_index :: u8
  ci_accounts :: "u8 list"
  ci_data :: "u8 list"

record message_header =
  num_required_signatures :: u8
  num_readonly_signed_accounts :: u8
  num_readonly_unsigned_accounts :: u8

record message =
  header :: message_header
  account_keys :: "pubkey list"
  recent_blockhash :: hash
  instructions :: "compiled_instruction list"

datatype sanitize_error = IndexOutOfBounds | ValueOutOfBounds | InvalidValue

section \<open>Compilation of keys\<close>

record compiled_key_meta =
  ckm_is_signer :: bool
  ckm_is_writable :: bool

record compiled_keys =
  writable_signer_keys :: "pubkey list"
  readonly_signer_keys :: "pubkey list"
  writable_non_signer_keys :: "pubkey list"
  readonly_non_signer_keys :: "pubkey list"

type_synonym key_meta_map = "(pubkey, compiled_key_meta) btree"

text \<open>\<open>entry(k).or_default()\<close>, and the update of the entry it returns.\<close>

definition entry_or_default :: "key_meta_map \<Rightarrow> pubkey \<Rightarrow> compiled_key_meta" where
  "entry_or_default m k =
     (case bt_get m k of Some x \<Rightarrow> x | None \<Rightarrow> \<lparr>ckm_is_signer = False, ckm_is_writable = False\<rparr>)"

definition add_program :: "pubkey \<Rightarrow> key_meta_map \<Rightarrow> key_meta_map" where
  "add_program k m = bt_insert k (entry_or_default m k) m"

definition add_meta :: "account_meta \<Rightarrow> key_meta_map \<Rightarrow> key_meta_map" where
  "add_meta a m =
     (let e = entry_or_default m (am_pubkey a)
      in bt_insert (am_pubkey a) \<lparr>ckm_is_signer = ckm_is_signer e \<or> am_is_signer a,
           ckm_is_writable = ckm_is_writable e \<or> am_is_writable a\<rparr> m)"

definition add_instruction :: "instruction \<Rightarrow> key_meta_map \<Rightarrow> key_meta_map" where
  "add_instruction ix m = fold add_meta (ix_accounts ix) (add_program (program_id ix) m)"

definition filter_keys :: "(compiled_key_meta \<Rightarrow> bool) \<Rightarrow> key_meta_map \<Rightarrow> pubkey list" where
  "filter_keys P m = map fst (filter (\<lambda>(k, x). P x) m)"

definition compile_keys :: "instruction list \<Rightarrow> pubkey option \<Rightarrow> compiled_keys" where
  "compile_keys ixs payer =
     (let key_meta_map = fold add_instruction ixs [];
          m = (case payer of Some p \<Rightarrow> bt_remove p key_meta_map | None \<Rightarrow> key_meta_map)
      in \<lparr>writable_signer_keys =
            (case payer of Some p \<Rightarrow> [p] | None \<Rightarrow> []) @ filter_keys (\<lambda>x. ckm_is_signer x \<and> ckm_is_writable x) m,
          readonly_signer_keys = filter_keys (\<lambda>x. ckm_is_signer x \<and> \<not> ckm_is_writable x) m,
          writable_non_signer_keys = filter_keys (\<lambda>x. \<not> ckm_is_signer x \<and> ckm_is_writable x) m,
          readonly_non_signer_keys = filter_keys (\<lambda>x. \<not> ckm_is_signer x \<and> \<not> ckm_is_writable x) m\<rparr>)"

definition try_u8 :: "nat \<Rightarrow> u8 option" where
  "try_u8 n = (if n < 256 then Some (of_nat n) else None)"

text \<open>The sum of the lengths of two lists in memory does not overflow.\<close>

definition try_into_message_components :: "compiled_keys \<Rightarrow> (message_header \<times> pubkey list) option" where
  "try_into_message_components ck =
     Option.bind (try_u8 (length (writable_signer_keys ck) + length (readonly_signer_keys ck))) (\<lambda>required.
     Option.bind (try_u8 (length (readonly_signer_keys ck))) (\<lambda>readonly_signed.
     Option.bind (try_u8 (length (readonly_non_signer_keys ck))) (\<lambda>readonly_unsigned.
     Some (\<lparr>num_required_signatures = required, num_readonly_signed_accounts = readonly_signed,
            num_readonly_unsigned_accounts = readonly_unsigned\<rparr>,
       writable_signer_keys ck @ readonly_signer_keys ck @ writable_non_signer_keys ck @ readonly_non_signer_keys ck))))"

section \<open>Compilation of instructions\<close>

fun find_position :: "'a \<Rightarrow> 'a list \<Rightarrow> nat option" where
  "find_position x [] = None"
| "find_position x (y # ys) = (if y = x then Some 0 else map_option Suc (find_position x ys))"

definition key_position :: "pubkey list \<Rightarrow> pubkey \<Rightarrow> (sanitize_error, u8) res" where
  "key_position keys k = and_then (unwrap (find_position k keys)) (\<lambda>i. Inr (of_nat i))"

fun map_res :: "('a \<Rightarrow> ('e, 'b) res) \<Rightarrow> 'a list \<Rightarrow> ('e, 'b list) res" where
  "map_res f [] = Inr []"
| "map_res f (x # xs) = and_then (f x) (\<lambda>y. and_then (map_res f xs) (\<lambda>ys. Inr (y # ys)))"

definition compile_instruction :: "pubkey list \<Rightarrow> instruction \<Rightarrow> (sanitize_error, compiled_instruction) res" where
  "compile_instruction keys ix =
     and_then (map_res (\<lambda>a. key_position keys (am_pubkey a)) (ix_accounts ix)) (\<lambda>accounts.
     and_then (key_position keys (program_id ix)) (\<lambda>p.
     Inr \<lparr>program_id_index = p, ci_accounts = accounts, ci_data = ix_data ix\<rparr>))"

definition compile_instructions ::
  "instruction list \<Rightarrow> pubkey list \<Rightarrow> (sanitize_error, compiled_instruction list) res" where
  "compile_instructions ixs keys = map_res (compile_instruction keys) ixs"

definition message_new_with_blockhash ::
  "instruction list \<Rightarrow> pubkey option \<Rightarrow> hash \<Rightarrow> (sanitize_error, message) res" where
  "message_new_with_blockhash ixs payer blockhash =
     and_then (unwrap (try_into_message_components (compile_keys ixs payer))) (\<lambda>(hdr, keys).
     and_then (compile_instructions ixs keys) (\<lambda>cis.
     Inr \<lparr>header = hdr, account_keys = keys, recent_blockhash = blockhash, instructions = cis\<rparr>))"

section \<open>Sanitization\<close>

fun sanitize_indexes :: "nat \<Rightarrow> u8 list \<Rightarrow> (sanitize_error, unit) res" where
  "sanitize_indexes n [] = Inr ()"
| "sanitize_indexes n (i # is) = (if n \<le> unat i then fail IndexOutOfBounds else sanitize_indexes n is)"

fun sanitize_instructions :: "nat \<Rightarrow> compiled_instruction list \<Rightarrow> (sanitize_error, unit) res" where
  "sanitize_instructions n [] = Inr ()"
| "sanitize_instructions n (ci # cis) =
     (if n \<le> unat (program_id_index ci) then fail IndexOutOfBounds
      else if program_id_index ci = 0 then fail IndexOutOfBounds
      else and_then (sanitize_indexes n (ci_accounts ci)) (\<lambda>_. sanitize_instructions n cis))"

definition message_sanitize :: "message \<Rightarrow> (sanitize_error, unit) res" where
  "message_sanitize m =
     (if length (account_keys m)
          < unat (num_required_signatures (header m)) + unat (num_readonly_unsigned_accounts (header m))
      then fail IndexOutOfBounds
      else if num_required_signatures (header m) \<le> num_readonly_signed_accounts (header m) then fail IndexOutOfBounds
      else sanitize_instructions (length (account_keys m)) (instructions m))"

section \<open>Queries\<close>

definition is_key_passed_to_program :: "compiled_instruction list \<Rightarrow> nat \<Rightarrow> bool" where
  "is_key_passed_to_program cis i =
     (case try_u8 i of Some j \<Rightarrow> (\<exists>ci\<in>set cis. j \<in> set (ci_accounts ci)) | None \<Rightarrow> False)"

definition is_key_called_as_program :: "compiled_instruction list \<Rightarrow> nat \<Rightarrow> bool" where
  "is_key_called_as_program cis i =
     (case try_u8 i of Some j \<Rightarrow> (\<exists>ci\<in>set cis. program_id_index ci = j) | None \<Rightarrow> False)"

definition is_upgradeable_loader_present :: "pubkey list \<Rightarrow> bool" where
  "is_upgradeable_loader_present keys = (bpf_loader_upgradeable_id \<in> set keys)"

definition message_is_signer :: "message \<Rightarrow> nat \<Rightarrow> bool" where
  "message_is_signer m i = (i < unat (num_required_signatures (header m)))"

text \<open>Subtractions wrap, of \<open>u8\<close> and of \<open>usize\<close>; an index out of range panics.\<close>

definition message_is_writable :: "message \<Rightarrow> nat \<Rightarrow> (sanitize_error, bool) res" where
  "message_is_writable m i =
     (let h = header m; n = length (account_keys m);
          demote_program_id = (is_key_called_as_program (instructions m) i
            \<and> \<not> is_upgradeable_loader_present (account_keys m));
          readonly = unat (num_readonly_unsigned_accounts h)
      in if i < unat (num_required_signatures h - num_readonly_signed_accounts h)
           \<or> unat (num_required_signatures h) \<le> i \<and> i < (2 ^ 64 + n - readonly) mod 2 ^ 64
         then if i < n
              then Inr (\<not> (is_sysvar_id (account_keys m ! i) \<or> account_keys m ! i \<in> set BUILTIN_PROGRAMS_KEYS)
                     \<and> \<not> demote_program_id)
              else Inl Panic
         else Inr False)"

definition message_has_duplicates :: "message \<Rightarrow> bool" where
  "message_has_duplicates m =
     (\<exists>i\<in>set [1..<length (account_keys m)]. account_keys m ! (i - 1) \<in> set (drop i (account_keys m)))"

definition signer_keys_of :: "message \<Rightarrow> pubkey list" where
  "signer_keys_of m = take (min (length (account_keys m)) (unat (num_required_signatures (header m)))) (account_keys m)"

section \<open>Messages with loaded addresses\<close>

record address_table_lookup =
  lookup_account_key :: pubkey
  writable_indexes :: "u8 list"
  readonly_indexes :: "u8 list"

record v0_message =
  v0_header :: message_header
  v0_account_keys :: "pubkey list"
  v0_recent_blockhash :: hash
  v0_instructions :: "compiled_instruction list"
  address_table_lookups :: "address_table_lookup list"

record loaded_addresses =
  loaded_writable :: "pubkey list"
  loaded_readonly :: "pubkey list"

definition loaded_from_iter :: "loaded_addresses list \<Rightarrow> loaded_addresses" where
  "loaded_from_iter ls = \<lparr>loaded_writable = concat (map loaded_writable ls), loaded_readonly = concat (map loaded_readonly ls)\<rparr>"

fun sum_lookups :: "nat \<Rightarrow> address_table_lookup list \<Rightarrow> (sanitize_error, nat) res" where
  "sum_lookups acc [] = Inr acc"
| "sum_lookups acc (l # ls) =
     (let n = length (writable_indexes l) + length (readonly_indexes l)
      in if n = 0 then fail InvalidValue else sum_lookups (acc + n) ls)"

fun v0_sanitize_instructions :: "nat \<Rightarrow> nat \<Rightarrow> compiled_instruction list \<Rightarrow> (sanitize_error, unit) res" where
  "v0_sanitize_instructions max_program max_account [] = Inr ()"
| "v0_sanitize_instructions max_program max_account (ci # cis) =
     (if max_program < unat (program_id_index ci) then fail IndexOutOfBounds
      else if program_id_index ci = 0 then fail IndexOutOfBounds
      else and_then (sanitize_indexes (Suc max_account) (ci_accounts ci)) (\<lambda>_.
        v0_sanitize_instructions max_program max_account cis))"

definition v0_sanitize :: "v0_message \<Rightarrow> bool \<Rightarrow> (sanitize_error, unit) res" where
  "v0_sanitize m reject_dynamic_program_ids =
     (let n = length (v0_account_keys m) in
      if n < unat (num_required_signatures (v0_header m)) + unat (num_readonly_unsigned_accounts (v0_header m))
      then fail IndexOutOfBounds
      else if num_required_signatures (v0_header m) \<le> num_readonly_signed_accounts (v0_header m) then fail InvalidValue
      else and_then (sum_lookups 0 (address_table_lookups m)) (\<lambda>dynamic.
        if n = 0 then fail InvalidValue
        else if 256 < n + dynamic then fail IndexOutOfBounds
        else
          let max_account_ix = n + dynamic - 1;
              max_program_id_ix = (if reject_dynamic_program_ids then n - 1 else max_account_ix)
          in v0_sanitize_instructions max_program_id_ix max_account_ix (v0_instructions m)))"

datatype sanitized_message = LegacyMessage message | V0Message v0_message loaded_addresses

fun key_segments :: "sanitized_message \<Rightarrow> pubkey list list" where
  "key_segments (LegacyMessage m) = [account_keys m, [], []]"
| "key_segments (V0Message m l) = [v0_account_keys m, loaded_writable l, loaded_readonly l]"

fun get_in_segments :: "pubkey list list \<Rightarrow> nat \<Rightarrow> pubkey option" where
  "get_in_segments [] i = None"
| "get_in_segments (seg # segs) i = (if i < length seg then Some (seg ! i) else get_in_segments segs (i - length seg))"

definition sm_get_key :: "sanitized_message \<Rightarrow> nat \<Rightarrow> pubkey option" where
  "sm_get_key m i = get_in_segments (key_segments m) i"

definition sm_all_keys :: "sanitized_message \<Rightarrow> pubkey list" where
  "sm_all_keys m = concat (key_segments m)"

fun sm_header :: "sanitized_message \<Rightarrow> message_header" where
  "sm_header (LegacyMessage m) = header m"
| "sm_header (V0Message m l) = v0_header m"

fun sm_recent_blockhash :: "sanitized_message \<Rightarrow> hash" where
  "sm_recent_blockhash (LegacyMessage m) = recent_blockhash m"
| "sm_recent_blockhash (V0Message m l) = v0_recent_blockhash m"

fun sm_instructions :: "sanitized_message \<Rightarrow> compiled_instruction list" where
  "sm_instructions (LegacyMessage m) = instructions m"
| "sm_instructions (V0Message m l) = v0_instructions m"

definition v0_is_writable_index :: "v0_message \<Rightarrow> loaded_addresses \<Rightarrow> nat \<Rightarrow> bool" where
  "v0_is_writable_index m l i =
     (let h = v0_header m; n = length (v0_account_keys m); signed = unat (num_required_signatures h) in
      if n \<le> i then i - n < length (loaded_writable l)
      else if signed \<le> i then i - signed < (n - signed) - unat (num_readonly_unsigned_accounts h)
      else i < signed - unat (num_readonly_signed_accounts h))"

definition v0_is_writable :: "v0_message \<Rightarrow> loaded_addresses \<Rightarrow> nat \<Rightarrow> bool" where
  "v0_is_writable m l i =
     (if v0_is_writable_index m l i then
        (case sm_get_key (V0Message m l) i of
           Some k \<Rightarrow>
             let demote_program_id = (is_key_called_as_program (v0_instructions m) i
                   \<and> \<not> is_upgradeable_loader_present (sm_all_keys (V0Message m l)))
             in \<not> (is_sysvar_id k \<or> k \<in> set BUILTIN_PROGRAMS_KEYS \<or> demote_program_id)
         | None \<Rightarrow> False)
      else False)"

fun sm_is_writable :: "sanitized_message \<Rightarrow> nat \<Rightarrow> (sanitize_error, bool) res" where
  "sm_is_writable (LegacyMessage m) i = message_is_writable m i"
| "sm_is_writable (V0Message m l) i = Inr (v0_is_writable m l i)"

definition sm_is_signer :: "sanitized_message \<Rightarrow> nat \<Rightarrow> bool" where
  "sm_is_signer m i = (i < unat (num_required_signatures (sm_header m)))"

definition sm_is_non_loader_key :: "sanitized_message \<Rightarrow> nat \<Rightarrow> bool" where
  "sm_is_non_loader_key m i =
     (\<not> is_key_called_as_program (sm_instructions m) i \<or> is_key_passed_to_program (sm_instructions m) i)"

definition sm_fee_payer :: "sanitized_message \<Rightarrow> (sanitize_error, pubkey) res" where
  "sm_fee_payer m = unwrap (sm_get_key m 0)"

definition get_ix_signers :: "sanitized_message \<Rightarrow> nat \<Rightarrow> pubkey list" where
  "get_ix_signers m n =
     (if n < length (sm_instructions m)
      then List.map_filter (sm_get_key m) (filter (sm_is_signer m) (map unat (ci_accounts (sm_instructions m ! n))))
      else [])"

definition decompile_meta :: "sanitized_message \<Rightarrow> u8 \<Rightarrow> (sanitize_error, account_meta) res" where
  "decompile_meta m i =
     and_then (sm_is_writable m (unat i)) (\<lambda>w.
     and_then (unwrap (sm_get_key m (unat i))) (\<lambda>k.
     Inr \<lparr>am_pubkey = k, am_is_signer = sm_is_signer m (unat i), am_is_writable = w\<rparr>))"

definition decompile_instruction :: "sanitized_message \<Rightarrow> compiled_instruction \<Rightarrow> (sanitize_error, instruction) res" where
  "decompile_instruction m ci =
     and_then (unwrap (sm_get_key m (unat (program_id_index ci)))) (\<lambda>p.
     and_then (map_res (decompile_meta m) (ci_accounts ci)) (\<lambda>accounts.
     Inr \<lparr>program_id = p, ix_accounts = accounts, ix_data = ci_data ci\<rparr>))"

definition decompile_instructions :: "sanitized_message \<Rightarrow> (sanitize_error, instruction list) res" where
  "decompile_instructions m = map_res (decompile_instruction m) (sm_instructions m)"

section \<open>What compilation collects\<close>

definition references :: "instruction list \<Rightarrow> pubkey set" where
  "references ixs = (\<Union>ix\<in>set ixs. insert (program_id ix) (am_pubkey ` set (ix_accounts ix)))"

definition demands :: "(account_meta \<Rightarrow> bool) \<Rightarrow> instruction list \<Rightarrow> pubkey \<Rightarrow> bool" where
  "demands P ixs k \<longleftrightarrow> (\<exists>ix\<in>set ixs. \<exists>a\<in>set (ix_accounts ix). am_pubkey a = k \<and> P a)"

definition flag :: "(compiled_key_meta \<Rightarrow> bool) \<Rightarrow> key_meta_map \<Rightarrow> pubkey \<Rightarrow> bool" where
  "flag f m k \<longleftrightarrow> (\<exists>x. map_of m k = Some x \<and> f x)"

lemma add_meta_facts:
  assumes "btree_inv m"
  shows "btree_inv (add_meta a m)" "fst ` set (add_meta a m) = insert (am_pubkey a) (fst ` set m)"
    "flag ckm_is_signer (add_meta a m) k \<longleftrightarrow> flag ckm_is_signer m k \<or> am_pubkey a = k \<and> am_is_signer a"
    "flag ckm_is_writable (add_meta a m) k \<longleftrightarrow> flag ckm_is_writable m k \<or> am_pubkey a = k \<and> am_is_writable a"
  using assms by (auto simp: add_meta_def Let_def btree_inv_insert fst_set_bt_insert map_of_bt_insert entry_or_default_def
      bt_get_def flag_def split: option.splits)

lemma add_program_facts:
  assumes "btree_inv m"
  shows "btree_inv (add_program p m)" "fst ` set (add_program p m) = insert p (fst ` set m)"
    "flag ckm_is_signer (add_program p m) k \<longleftrightarrow> flag ckm_is_signer m k"
    "flag ckm_is_writable (add_program p m) k \<longleftrightarrow> flag ckm_is_writable m k"
  using assms by (auto simp: add_program_def btree_inv_insert fst_set_bt_insert map_of_bt_insert entry_or_default_def
      bt_get_def flag_def split: option.splits)

lemma fold_add_meta_facts:
  assumes "btree_inv m"
  shows "btree_inv (fold add_meta as m)" "fst ` set (fold add_meta as m) = am_pubkey ` set as \<union> fst ` set m"
    "flag ckm_is_signer (fold add_meta as m) k \<longleftrightarrow> flag ckm_is_signer m k \<or> (\<exists>a\<in>set as. am_pubkey a = k \<and> am_is_signer a)"
    "flag ckm_is_writable (fold add_meta as m) k \<longleftrightarrow> flag ckm_is_writable m k \<or> (\<exists>a\<in>set as. am_pubkey a = k \<and> am_is_writable a)"
  using assms by (induction as arbitrary: m) (auto simp: add_meta_facts)

lemma fold_add_instruction_facts:
  assumes "btree_inv m"
  shows "btree_inv (fold add_instruction ixs m)" "fst ` set (fold add_instruction ixs m) = references ixs \<union> fst ` set m"
    "flag ckm_is_signer (fold add_instruction ixs m) k \<longleftrightarrow> flag ckm_is_signer m k \<or> demands am_is_signer ixs k"
    "flag ckm_is_writable (fold add_instruction ixs m) k \<longleftrightarrow> flag ckm_is_writable m k \<or> demands am_is_writable ixs k"
  using assms
  by (induction ixs arbitrary: m)
    (auto simp: add_instruction_def fold_add_meta_facts add_program_facts references_def demands_def)

definition other_keys :: "instruction list \<Rightarrow> pubkey option \<Rightarrow> key_meta_map" where
  "other_keys ixs payer = (let m = fold add_instruction ixs [] in case payer of Some p \<Rightarrow> bt_remove p m | None \<Rightarrow> m)"

lemma other_keys_facts:
  "btree_inv (other_keys ixs payer)" "fst ` set (other_keys ixs payer) = references ixs - set_option payer"
  "(k, x) \<in> set (other_keys ixs payer) \<Longrightarrow> ckm_is_signer x \<longleftrightarrow> demands am_is_signer ixs k"
  "(k, x) \<in> set (other_keys ixs payer) \<Longrightarrow> ckm_is_writable x \<longleftrightarrow> demands am_is_writable ixs k"
proof -
  note f = fold_add_instruction_facts [OF btree_inv_Nil, of ixs]
  show inv: "btree_inv (other_keys ixs payer)"
    by (simp add: other_keys_def Let_def btree_inv_remove f(1) split: option.split)
  show "fst ` set (other_keys ixs payer) = references ixs - set_option payer"
    using f(2) by (auto simp: other_keys_def Let_def bt_remove_def split: option.split) (force simp: image_iff)+
  assume "(k, x) \<in> set (other_keys ixs payer)"
  then have "(k, x) \<in> set (fold add_instruction ixs [])"
    by (auto simp: other_keys_def Let_def bt_remove_def split: option.splits)
  then have "map_of (fold add_instruction ixs []) k = Some x" using f(1) by (simp add: btree_inv_distinct)
  then show "ckm_is_signer x \<longleftrightarrow> demands am_is_signer ixs k" "ckm_is_writable x \<longleftrightarrow> demands am_is_writable ixs k"
    using f(3,4) [of k] by (auto simp: flag_def)
qed

lemma set_filter_keys:
  assumes "btree_inv m"
  shows "distinct (filter_keys P m)" "k \<in> set (filter_keys P m) \<longleftrightarrow> (\<exists>x. (k, x) \<in> set m \<and> P x)"
  using btree_inv_distinct [OF btree_inv_filter [OF assms]] by (force simp: filter_keys_def)+

lemma compile_keys_eq:
  "compile_keys ixs payer =
     \<lparr>writable_signer_keys = (case payer of Some p \<Rightarrow> [p] | None \<Rightarrow> [])
        @ filter_keys (\<lambda>x. ckm_is_signer x \<and> ckm_is_writable x) (other_keys ixs payer),
      readonly_signer_keys = filter_keys (\<lambda>x. ckm_is_signer x \<and> \<not> ckm_is_writable x) (other_keys ixs payer),
      writable_non_signer_keys = filter_keys (\<lambda>x. \<not> ckm_is_signer x \<and> ckm_is_writable x) (other_keys ixs payer),
      readonly_non_signer_keys = filter_keys (\<lambda>x. \<not> ckm_is_signer x \<and> \<not> ckm_is_writable x) (other_keys ixs payer)\<rparr>"
  by (simp add: compile_keys_def other_keys_def Let_def)

text \<open>The four lists partition the payer and the referenced keys by what is demanded of them.\<close>

lemma compile_keys_sets:
  shows "set (writable_signer_keys (compile_keys ixs payer)) =
      {k \<in> references ixs. demands am_is_signer ixs k \<and> demands am_is_writable ixs k} \<union> set_option payer"
    "set (readonly_signer_keys (compile_keys ixs payer)) =
      {k \<in> references ixs - set_option payer. demands am_is_signer ixs k \<and> \<not> demands am_is_writable ixs k}"
    "set (writable_non_signer_keys (compile_keys ixs payer)) =
      {k \<in> references ixs - set_option payer. \<not> demands am_is_signer ixs k \<and> demands am_is_writable ixs k}"
    "set (readonly_non_signer_keys (compile_keys ixs payer)) =
      {k \<in> references ixs - set_option payer. \<not> demands am_is_signer ixs k \<and> \<not> demands am_is_writable ixs k}"
proof -
  let ?o = "other_keys ixs payer"
  have part: "set (filter_keys (\<lambda>x. (ckm_is_signer x \<longleftrightarrow> s) \<and> (ckm_is_writable x \<longleftrightarrow> w)) ?o) =
      {k \<in> references ixs - set_option payer. (demands am_is_signer ixs k \<longleftrightarrow> s) \<and> (demands am_is_writable ixs k \<longleftrightarrow> w)}" for s w
  proof (rule set_eqI)
    fix k
    have "k \<in> references ixs - set_option payer \<longleftrightarrow> (\<exists>x. (k, x) \<in> set ?o)"
      unfolding other_keys_facts(2) [symmetric] by force
    then show "k \<in> set (filter_keys (\<lambda>x. (ckm_is_signer x \<longleftrightarrow> s) \<and> (ckm_is_writable x \<longleftrightarrow> w)) ?o) \<longleftrightarrow>
        k \<in> {k \<in> references ixs - set_option payer. (demands am_is_signer ixs k \<longleftrightarrow> s) \<and> (demands am_is_writable ixs k \<longleftrightarrow> w)}"
      using other_keys_facts(3,4) [of k _ ixs payer] by (auto simp: set_filter_keys [OF other_keys_facts(1)])
  qed
  show "set (writable_signer_keys (compile_keys ixs payer)) =
      {k \<in> references ixs. demands am_is_signer ixs k \<and> demands am_is_writable ixs k} \<union> set_option payer"
    using part [of True True] by (auto simp: compile_keys_eq split: option.splits)
  show "set (readonly_signer_keys (compile_keys ixs payer)) =
      {k \<in> references ixs - set_option payer. demands am_is_signer ixs k \<and> \<not> demands am_is_writable ixs k}"
    using part [of True False] by (simp add: compile_keys_eq)
  show "set (writable_non_signer_keys (compile_keys ixs payer)) =
      {k \<in> references ixs - set_option payer. \<not> demands am_is_signer ixs k \<and> demands am_is_writable ixs k}"
    using part [of False True] by (simp add: compile_keys_eq)
  show "set (readonly_non_signer_keys (compile_keys ixs payer)) =
      {k \<in> references ixs - set_option payer. \<not> demands am_is_signer ixs k \<and> \<not> demands am_is_writable ixs k}"
    using part [of False False] by (simp add: compile_keys_eq)
qed

section \<open>Layout of a compiled message\<close>

lemma compile_keys_distinct:
  "distinct (writable_signer_keys (compile_keys ixs payer) @ readonly_signer_keys (compile_keys ixs payer)
     @ writable_non_signer_keys (compile_keys ixs payer) @ readonly_non_signer_keys (compile_keys ixs payer))"
proof -
  have "p \<notin> set (filter_keys P (other_keys ixs (Some p)))" for p P
  proof
    assume "p \<in> set (filter_keys P (other_keys ixs (Some p)))"
    then obtain x where "(p, x) \<in> set (other_keys ixs (Some p))" by (auto simp: set_filter_keys [OF other_keys_facts(1)])
    then have "p \<in> fst ` set (other_keys ixs (Some p))" by force
    then show False by (simp add: other_keys_facts(2))
  qed
  then have "distinct (writable_signer_keys (compile_keys ixs payer))"
    by (simp add: compile_keys_eq set_filter_keys(1) [OF other_keys_facts(1)] split: option.splits)
  moreover have "distinct (readonly_signer_keys (compile_keys ixs payer))"
    "distinct (writable_non_signer_keys (compile_keys ixs payer))" "distinct (readonly_non_signer_keys (compile_keys ixs payer))"
    by (simp_all add: compile_keys_eq set_filter_keys [OF other_keys_facts(1)])
  ultimately show ?thesis by (auto simp: compile_keys_sets)
qed

lemma try_u8_eq_Some: "try_u8 n = Some x \<longleftrightarrow> n < 256 \<and> x = of_nat n"
  by (auto simp: try_u8_def)

lemma unat_u8: "n < 256 \<Longrightarrow> unat (of_nat n :: u8) = n"
  by (simp add: unat_of_nat)

lemma message_new_Inr:
  assumes "message_new_with_blockhash ixs payer blockhash = Inr m"
  defines "ck \<equiv> compile_keys ixs payer"
  shows "account_keys m = writable_signer_keys ck @ readonly_signer_keys ck @ writable_non_signer_keys ck @ readonly_non_signer_keys ck"
    "unat (num_required_signatures (header m)) = length (writable_signer_keys ck) + length (readonly_signer_keys ck)"
    "unat (num_readonly_signed_accounts (header m)) = length (readonly_signer_keys ck)"
    "unat (num_readonly_unsigned_accounts (header m)) = length (readonly_non_signer_keys ck)"
    "recent_blockhash m = blockhash" "compile_instructions ixs (account_keys m) = Inr (instructions m)"
  using assms(1) unfolding ck_def
  by (auto simp: message_new_with_blockhash_def res_elim try_into_message_components_def bind_eq_Some_conv try_u8_eq_Some unat_u8
      simp del: of_nat_add)

lemma nth_append_prefix:
  "distinct (xs @ ys) \<Longrightarrow> i < length (xs @ ys) \<Longrightarrow> (xs @ ys) ! i \<in> set xs \<longleftrightarrow> i < length xs"
  by (auto simp: nth_append)

definition wanted :: "(account_meta \<Rightarrow> bool) \<Rightarrow> instruction list \<Rightarrow> pubkey option \<Rightarrow> pubkey \<Rightarrow> bool" where
  "wanted P ixs payer k \<longleftrightarrow> payer = Some k \<or> demands P ixs k"

lemma demands_references: "demands P ixs k \<Longrightarrow> k \<in> references ixs"
  by (auto simp: demands_def references_def)

lemma compiled_layout:
  assumes "message_new_with_blockhash ixs payer blockhash = Inr m"
  shows "distinct (account_keys m)" "set (account_keys m) = references ixs \<union> set_option payer"
    "payer = Some p \<Longrightarrow> account_keys m \<noteq> [] \<and> hd (account_keys m) = p"
proof -
  note lay = message_new_Inr [OF assms]
  show "distinct (account_keys m)" unfolding lay(1) by (rule compile_keys_distinct)
  show "set (account_keys m) = references ixs \<union> set_option payer" unfolding lay(1) by (auto simp: compile_keys_sets)
  show "payer = Some p \<Longrightarrow> account_keys m \<noteq> [] \<and> hd (account_keys m) = p" unfolding lay(1) by (simp add: compile_keys_eq)
qed

lemma compiled_index:
  assumes "message_new_with_blockhash ixs payer blockhash = Inr m" "i < length (account_keys m)"
  defines "k \<equiv> account_keys m ! i"
  shows "message_is_signer m i \<longleftrightarrow> wanted am_is_signer ixs payer k"
    "i < unat (num_required_signatures (header m)) - unat (num_readonly_signed_accounts (header m))
       \<or> unat (num_required_signatures (header m)) \<le> i
         \<and> i < length (account_keys m) - unat (num_readonly_unsigned_accounts (header m))
     \<longleftrightarrow> wanted am_is_writable ixs payer k" (is ?writable)
proof -
  note lay = message_new_Inr [OF assms(1)]
  define ws where "ws = writable_signer_keys (compile_keys ixs payer)"
  define rs where "rs = readonly_signer_keys (compile_keys ixs payer)"
  define wn where "wn = writable_non_signer_keys (compile_keys ixs payer)"
  define rn where "rn = readonly_non_signer_keys (compile_keys ixs payer)"
  note keys = lay(1) [folded ws_def rs_def wn_def rn_def]
  have d: "distinct (ws @ rs @ wn @ rn)" unfolding ws_def rs_def wn_def rn_def by (rule compile_keys_distinct)
  have a: "k \<in> set (ws @ rs) \<longleftrightarrow> i < length (ws @ rs)" "k \<in> set ws \<longleftrightarrow> i < length ws"
    "k \<in> set (ws @ rs @ wn) \<longleftrightarrow> i < length (ws @ rs @ wn)"
    using nth_append_prefix [of "ws @ rs" "wn @ rn" i] nth_append_prefix [of ws "rs @ wn @ rn" i]
      nth_append_prefix [of "ws @ rs @ wn" rn i] d assms(2) unfolding k_def keys by simp_all
  have b: "k \<in> set (ws @ rs) \<longleftrightarrow> wanted am_is_signer ixs payer k"
    "k \<in> set ws \<or> k \<in> set wn \<longleftrightarrow> wanted am_is_writable ixs payer k"
    by (auto simp: ws_def rs_def wn_def compile_keys_sets wanted_def dest: demands_references)
  show "message_is_signer m i \<longleftrightarrow> wanted am_is_signer ixs payer k"
    unfolding message_is_signer_def lay(2) b(1) [symmetric] a(1) by (simp add: ws_def rs_def)
  have "k \<in> set wn \<longleftrightarrow> k \<in> set (ws @ rs @ wn) \<and> k \<notin> set (ws @ rs)"
    by (auto simp: ws_def rs_def wn_def compile_keys_sets)
  note c = this
  have e1: "i < unat (num_required_signatures (header m)) - unat (num_readonly_signed_accounts (header m))
       \<or> unat (num_required_signatures (header m)) \<le> i
         \<and> i < length (account_keys m) - unat (num_readonly_unsigned_accounts (header m))
     \<longleftrightarrow> i < length ws \<or> \<not> i < length (ws @ rs) \<and> i < length (ws @ rs @ wn)"
    unfolding lay(2-4) [folded ws_def rs_def wn_def rn_def] keys by (simp add: not_less)
  have e2: "i < length ws \<or> \<not> i < length (ws @ rs) \<and> i < length (ws @ rs @ wn) \<longleftrightarrow> k \<in> set ws \<or> k \<notin> set (ws @ rs) \<and> k \<in> set (ws @ rs @ wn)"
    unfolding a by (rule refl)
  have e3: "k \<in> set ws \<or> k \<notin> set (ws @ rs) \<and> k \<in> set (ws @ rs @ wn) \<longleftrightarrow> wanted am_is_writable ixs payer k"
    unfolding b(2) [symmetric] using c by blast
  show ?writable by (rule trans [OF e1 trans [OF e2 e3]])
qed

section \<open>Compilation and decompilation\<close>

lemma map_res_Inr: "map_res f xs = Inr ys \<longleftrightarrow> list_all2 (\<lambda>x y. f x = Inr y) xs ys"
  by (induction xs arbitrary: ys) (auto simp: res_elim list_all2_Cons1)

lemma find_position_Some: "find_position x xs = Some i \<Longrightarrow> i < length xs \<and> xs ! i = x"
  by (induction xs arbitrary: i) (auto split: if_splits)

lemma key_position_nth:
  assumes "key_position keys k = Inr i" "length keys \<le> 256"
  shows "unat i < length keys" "keys ! unat i = k"
  using assms find_position_Some [of k keys] by (auto simp: key_position_def res_elim unat_u8)

lemma compiled_writable:
  assumes "message_new_with_blockhash ixs payer blockhash = Inr m" "i < length (account_keys m)" "length (account_keys m) \<le> 256"
  shows "message_is_writable m i = Inr (wanted am_is_writable ixs payer (account_keys m ! i)
     \<and> \<not> (is_sysvar_id (account_keys m ! i) \<or> account_keys m ! i \<in> set BUILTIN_PROGRAMS_KEYS)
     \<and> \<not> (is_key_called_as_program (instructions m) i \<and> \<not> is_upgradeable_loader_present (account_keys m)))"
proof -
  note lay = message_new_Inr [OF assms(1)]
  have "unat (num_required_signatures (header m) - num_readonly_signed_accounts (header m))
      = unat (num_required_signatures (header m)) - unat (num_readonly_signed_accounts (header m))"
    using lay(2,3) by (simp add: unat_sub word_le_nat_alt)
  moreover have "(2 ^ 64 + length (account_keys m) - unat (num_readonly_unsigned_accounts (header m))) mod 2 ^ 64
      = length (account_keys m) - unat (num_readonly_unsigned_accounts (header m))"
    using lay(1,4) assms(3) by simp
  ultimately show ?thesis
    using compiled_index(2) [OF assms(1,2)] assms(2) by (simp add: message_is_writable_def Let_def)
qed

text \<open>A program a message calls cannot be written, unless the upgradeable loader is among the keys.\<close>

definition locked :: "instruction list \<Rightarrow> pubkey option \<Rightarrow> pubkey \<Rightarrow> bool" where
  "locked ixs payer k \<longleftrightarrow> is_sysvar_id k \<or> k \<in> set BUILTIN_PROGRAMS_KEYS
     \<or> k \<in> program_id ` set ixs \<and> bpf_loader_upgradeable_id \<notin> references ixs \<union> set_option payer"

definition as_compiled :: "instruction list \<Rightarrow> pubkey option \<Rightarrow> instruction \<Rightarrow> instruction" where
  "as_compiled ixs payer ix = ix\<lparr>ix_accounts := map (\<lambda>a. \<lparr>am_pubkey = am_pubkey a,
     am_is_signer = wanted am_is_signer ixs payer (am_pubkey a),
     am_is_writable = (wanted am_is_writable ixs payer (am_pubkey a) \<and> \<not> locked ixs payer (am_pubkey a))\<rparr>) (ix_accounts ix)\<rparr>"

lemma compiled_programs:
  assumes "message_new_with_blockhash ixs payer blockhash = Inr m" "i < length (account_keys m)" "length (account_keys m) \<le> 256"
  shows "is_key_called_as_program (instructions m) i \<longleftrightarrow> account_keys m ! i \<in> program_id ` set ixs"
proof -
  note lay = message_new_Inr [OF assms(1)]
  have all2: "list_all2 (\<lambda>ix ci. unat (program_id_index ci) < length (account_keys m)
      \<and> account_keys m ! unat (program_id_index ci) = program_id ix) ixs (instructions m)"
    using lay(6) unfolding compile_instructions_def map_res_Inr
    by (rule list_all2_mono) (auto simp: compile_instruction_def res_elim dest: key_position_nth [OF _ assms(3)])
  have "j = of_nat i \<longleftrightarrow> unat j = i" for j :: u8
    using assms(2,3) by (simp add: unat_u8 word_unat_eq_iff)
  then have eq: "unat j < length (account_keys m) \<Longrightarrow> account_keys m ! unat j = account_keys m ! i \<longleftrightarrow> j = of_nat i" for j :: u8
    using compiled_layout(1) [OF assms(1)] assms(2,3)
    by (simp add: nth_eq_iff_index_eq)
  have "(\<exists>ci\<in>set (instructions m). program_id_index ci = of_nat i) \<longleftrightarrow> (\<exists>ix\<in>set ixs. program_id ix = account_keys m ! i)"
    using all2 by (induction rule: list_all2_induct) (use assms(2,3) in \<open>auto simp: eq unat_u8\<close>)
  then show ?thesis using assms(2,3) by (simp add: is_key_called_as_program_def try_u8_def image_iff eq_commute [of "account_keys m ! i"])
qed

lemma compiled_meta:
  assumes "message_new_with_blockhash ixs payer blockhash = Inr m" "length (account_keys m) \<le> 256"
    and "key_position (account_keys m) k = Inr i"
  shows "decompile_meta (LegacyMessage m) i = Inr \<lparr>am_pubkey = k, am_is_signer = wanted am_is_signer ixs payer k,
     am_is_writable = (wanted am_is_writable ixs payer k \<and> \<not> locked ixs payer k)\<rparr>"
proof -
  note pos = key_position_nth [OF assms(3,2)]
  show ?thesis
    using compiled_writable [OF assms(1) pos(1) assms(2)] compiled_programs [OF assms(1) pos(1) assms(2)]
      compiled_index(1) [OF assms(1) pos(1)] pos
    by (auto simp: decompile_meta_def sm_get_key_def sm_is_signer_def message_is_signer_def locked_def
        is_upgradeable_loader_present_def compiled_layout(2) [OF assms(1)] unwrap_def)
qed

lemma compiled_decompile:
  assumes "message_new_with_blockhash ixs payer blockhash = Inr m" "length (account_keys m) \<le> 256"
    and "compile_instruction (account_keys m) ix = Inr ci"
  shows "decompile_instruction (LegacyMessage m) ci = Inr (as_compiled ixs payer ix)"
proof -
  from assms(3) have c: "list_all2 (\<lambda>a i. key_position (account_keys m) (am_pubkey a) = Inr i) (ix_accounts ix) (ci_accounts ci)"
    "key_position (account_keys m) (program_id ix) = Inr (program_id_index ci)" "ci_data ci = ix_data ix"
    by (auto simp: compile_instruction_def res_elim map_res_Inr)
  have "map_res (decompile_meta (LegacyMessage m)) (ci_accounts ci) = Inr (ix_accounts (as_compiled ixs payer ix))"
    unfolding map_res_Inr using c(1)
    by (auto simp: as_compiled_def list_all2_conv_all_nth compiled_meta [OF assms(1,2)])
  then show ?thesis using key_position_nth [OF c(2) assms(2)] c(3)
    by (simp add: decompile_instruction_def sm_get_key_def unwrap_def as_compiled_def)
qed

lemma find_position_nth: "distinct xs \<Longrightarrow> i < length xs \<Longrightarrow> find_position (xs ! i) xs = Some i"
  by (induction xs arbitrary: i) (auto simp: nth_Cons split: nat.splits)

lemma decompile_keys:
  assumes "decompile_instruction (LegacyMessage m) ci = Inr ix"
  shows "program_id ix = account_keys m ! unat (program_id_index ci)"
    "map am_pubkey (ix_accounts ix) = map (\<lambda>i. account_keys m ! unat i) (ci_accounts ci)"
proof -
  from assms show "program_id ix = account_keys m ! unat (program_id_index ci)"
    by (auto simp: decompile_instruction_def sm_get_key_def res_elim split: if_splits)
  from assms have "list_all2 (\<lambda>i a. decompile_meta (LegacyMessage m) i = Inr a) (ci_accounts ci) (ix_accounts ix)"
    by (auto simp: decompile_instruction_def res_elim map_res_Inr)
  then have "list_all2 (\<lambda>i a. am_pubkey a = account_keys m ! unat i) (ci_accounts ci) (ix_accounts ix)"
    by (rule list_all2_mono) (auto simp: decompile_meta_def sm_get_key_def res_elim split: if_splits)
  then show "map am_pubkey (ix_accounts ix) = map (\<lambda>i. account_keys m ! unat i) (ci_accounts ci)"
    by (induction rule: list_all2_induct) auto
qed

lemma roundtrip_keys:
  assumes "decompile_instructions (LegacyMessage m) = Inr (map (as_compiled ixs payer) ixs)"
    and "compile_instructions ixs (account_keys m) = Inr (instructions m)"
    and "k \<in> references ixs"
  shows "\<exists>i. key_position (account_keys m) k = Inr i \<and> account_keys m ! unat i = k"
proof -
  note c2 = assms(2) [unfolded compile_instructions_def map_res_Inr]
  note d2 = assms(1) [unfolded decompile_instructions_def map_res_Inr sm_instructions.simps]
  from assms(3) obtain ix where ix: "ix \<in> set ixs" "k = program_id ix \<or> k \<in> am_pubkey ` set (ix_accounts ix)"
    by (auto simp: references_def)
  from ix(1) obtain n where n: "n < length ixs" "ix = ixs ! n" by (auto simp: in_set_conv_nth)
  define ci where "ci = instructions m ! n"
  have ci: "compile_instruction (account_keys m) ix = Inr ci"
    "decompile_instruction (LegacyMessage m) ci = Inr (as_compiled ixs payer ix)"
    using list_all2_nthD [OF c2 n(1)] list_all2_nthD2 [OF d2, of n] n by (simp_all add: ci_def)
  note dk = decompile_keys [OF ci(2)]
  from ci(1) have c: "list_all2 (\<lambda>a i. key_position (account_keys m) (am_pubkey a) = Inr i) (ix_accounts ix) (ci_accounts ci)"
    "key_position (account_keys m) (program_id ix) = Inr (program_id_index ci)"
    by (auto simp: compile_instruction_def res_elim map_res_Inr)
  from ix(2) show ?thesis
  proof
    assume "k = program_id ix"
    then show ?thesis using c(2) dk(1) by (simp add: as_compiled_def)
  next
    assume "k \<in> am_pubkey ` set (ix_accounts ix)"
    then obtain j where j: "j < length (ix_accounts ix)" "k = am_pubkey (ix_accounts ix ! j)" by (auto simp: in_set_conv_nth)
    then have "map am_pubkey (ix_accounts (as_compiled ixs payer ix)) ! j = k" by (simp add: as_compiled_def)
    then show ?thesis using c(1) dk(2) j by (auto simp: list_all2_conv_all_nth)
  qed
qed

text \<open>C36: Compiling instructions into a message and decompiling it gives the instructions back, in
  order and with their data, exactly when the message has at most 256 keys, the range of an index.
  Then an account signs if the payer or any instruction demands it, and is writable if any
  demands it and it is neither reserved nor a program being called. The keys are distinct, exactly
  those referenced, and start with the payer.\<close>

theorem message_compile_roundtrip:
  assumes "message_new_with_blockhash ixs payer blockhash = Inr m"
  shows "(decompile_instructions (LegacyMessage m) = Inr (map (as_compiled ixs payer) ixs)
        \<longleftrightarrow> length (account_keys m) \<le> 256)
    \<and> distinct (account_keys m) \<and> set (account_keys m) = references ixs \<union> set_option payer
    \<and> (\<forall>p. payer = Some p \<longrightarrow> account_keys m \<noteq> [] \<and> hd (account_keys m) = p)"
proof -
  note lay = compiled_layout [OF assms(1)]
  have "decompile_instructions (LegacyMessage m) = Inr (map (as_compiled ixs payer) ixs)" if "length (account_keys m) \<le> 256"
  proof -
    have "list_all2 (\<lambda>ix ci. decompile_instruction (LegacyMessage m) ci = Inr (as_compiled ixs payer ix)) ixs (instructions m)"
      using message_new_Inr(6) [OF assms] unfolding compile_instructions_def map_res_Inr
      by (rule list_all2_mono) (rule compiled_decompile [OF assms that])
    then show ?thesis
      by (simp add: decompile_instructions_def map_res_Inr list_all2_map2 list_all2_conv_all_nth)
  qed
  moreover have False
    if dec: "decompile_instructions (LegacyMessage m) = Inr (map (as_compiled ixs payer) ixs)" and len: "256 < length (account_keys m)"
  proof -
    let ?k = "account_keys m ! 256"
    have "0 < length (account_keys m)" using len by linarith
    then have ne: "account_keys m ! 0 \<noteq> ?k" using nth_eq_iff_index_eq [OF lay(1) _ len, of 0] by simp
    have "?k \<in> references ixs \<union> set_option payer" using nth_mem [OF len] lay(2) by simp
    moreover have "payer \<noteq> Some ?k" using ne lay(3) [of ?k] by (auto simp: hd_conv_nth)
    ultimately have "?k \<in> references ixs" by auto
    from roundtrip_keys [OF dec message_new_Inr(6) [OF assms] this] ne
    show False using find_position_nth [OF lay(1) len] by (simp add: key_position_def unwrap_def)
  qed
  ultimately have "decompile_instructions (LegacyMessage m) = Inr (map (as_compiled ixs payer) ixs) \<longleftrightarrow> length (account_keys m) \<le> 256"
    using linorder_not_le by blast
  then show ?thesis using lay by simp
qed

section \<open>Sanitized messages\<close>

lemma sanitize_indexes_Inr: "sanitize_indexes n is = Inr u \<longleftrightarrow> (\<forall>i\<in>set is. unat i < n)"
  by (induction "is") (auto simp: fail_def)

lemma sanitize_instructions_Inr:
  "sanitize_instructions n cis = Inr u \<longleftrightarrow>
     (\<forall>ci\<in>set cis. unat (program_id_index ci) < n \<and> program_id_index ci \<noteq> 0 \<and> (\<forall>i\<in>set (ci_accounts ci). unat i < n))"
  by (induction cis) (auto simp: fail_def res_elim sanitize_indexes_Inr)

lemma message_sanitize_Inr:
  "message_sanitize m = Inr u \<longleftrightarrow>
     unat (num_required_signatures (header m)) + unat (num_readonly_unsigned_accounts (header m)) \<le> length (account_keys m)
     \<and> num_readonly_signed_accounts (header m) < num_required_signatures (header m)
     \<and> (\<forall>ci\<in>set (instructions m). unat (program_id_index ci) < length (account_keys m) \<and> program_id_index ci \<noteq> 0
          \<and> (\<forall>i\<in>set (ci_accounts ci). unat i < length (account_keys m)))"
  by (auto simp: message_sanitize_def fail_def sanitize_instructions_Inr)

lemma map_res_total: "(\<And>x. x \<in> set xs \<Longrightarrow> \<exists>y. f x = Inr y) \<Longrightarrow> \<exists>ys. map_res f xs = Inr ys \<and> length ys = length xs"
  by (induction xs) fastforce+

lemma wrap_sub_nat: "r \<le> n \<Longrightarrow> n < 2 ^ 64 \<Longrightarrow> (2 ^ 64 + n - r) mod 2 ^ 64 = (n - r :: nat)"
proof -
  assume "r \<le> n" "n < 2 ^ 64"
  then have "2 ^ 64 + n - r = (n - r) + 2 ^ 64" "n - r < 2 ^ 64" by simp_all
  then show ?thesis by (metis mod_add_self2 mod_less)
qed

lemma list_all2_right: "list_all2 P xs ys \<Longrightarrow> y \<in> set ys \<Longrightarrow> \<exists>x\<in>set xs. P x y"
  by (induction rule: list_all2_induct) auto

lemma sanitized_writable:
  assumes "message_sanitize m = Inr ()" "length (account_keys m) < 2 ^ 64"
  shows "message_is_writable m i = Inr (v0_is_writable \<lparr>v0_header = header m, v0_account_keys = account_keys m,
     v0_recent_blockhash = recent_blockhash m, v0_instructions = instructions m, address_table_lookups = []\<rparr>
     \<lparr>loaded_writable = [], loaded_readonly = []\<rparr> i)"
proof -
  let ?h = "header m" and ?n = "length (account_keys m)"
  from assms(1) have h: "unat (num_required_signatures ?h) + unat (num_readonly_unsigned_accounts ?h) \<le> ?n"
    "num_readonly_signed_accounts ?h < num_required_signatures ?h"
    by (auto simp: message_sanitize_Inr)
  have a: "unat (num_required_signatures ?h - num_readonly_signed_accounts ?h)
      = unat (num_required_signatures ?h) - unat (num_readonly_signed_accounts ?h)"
    using h(2) by (simp add: unat_sub)
  have b: "(2 ^ 64 + ?n - unat (num_readonly_unsigned_accounts ?h)) mod 2 ^ 64
      = ?n - unat (num_readonly_unsigned_accounts ?h)"
    using h(1) assms(2) by (intro wrap_sub_nat) linarith+
  let ?m = "\<lparr>v0_header = header m, v0_account_keys = account_keys m,
     v0_recent_blockhash = recent_blockhash m, v0_instructions = instructions m, address_table_lookups = []\<rparr>"
    and ?l = "\<lparr>loaded_writable = [], loaded_readonly = []\<rparr>"
  have guard: "i < unat (num_required_signatures ?h) - unat (num_readonly_signed_accounts ?h)
      \<or> unat (num_required_signatures ?h) \<le> i \<and> i < ?n - unat (num_readonly_unsigned_accounts ?h)
    \<longleftrightarrow> i < ?n \<and> v0_is_writable_index ?m ?l i"
    using h(1) by (auto simp: v0_is_writable_index_def Let_def)
  show ?thesis
    unfolding message_is_writable_def Let_def a b guard v0_is_writable_def
    by (simp add: sm_get_key_def sm_all_keys_def v0_is_writable_index_def)
qed



section \<open>An example\<close>

definition pay :: instruction where
  "pay = \<lparr>program_id = 100, ix_accounts = [\<lparr>am_pubkey = 1, am_is_signer = True, am_is_writable = True\<rparr>,
     \<lparr>am_pubkey = 2, am_is_signer = False, am_is_writable = True\<rparr>], ix_data = [7]\<rparr>"

definition pay_message :: message where
  "pay_message = \<lparr>header = \<lparr>num_required_signatures = 1, num_readonly_signed_accounts = 0, num_readonly_unsigned_accounts = 1\<rparr>,
     account_keys = [1, 2, 100], recent_blockhash = 5,
     instructions = [\<lparr>program_id_index = 2, ci_accounts = [0, 1], ci_data = [7]\<rparr>]\<rparr>"

lemma pay_compiles: "message_new_with_blockhash [pay] (Some 1) 5 = Inr pay_message"
  by (simp add: message_new_with_blockhash_def pay_def pay_message_def compile_keys_def Let_def add_instruction_def
      add_program_def add_meta_def entry_or_default_def bt_get_def bt_remove_def filter_keys_def word_less_nat_alt
      try_into_message_components_def try_u8_def unwrap_def compile_instructions_def compile_instruction_def key_position_def)

theorem message_compile_roundtrip_witness:
  "decompile_instructions (LegacyMessage pay_message) = Inr [as_compiled [pay] (Some 1) pay]"
  using message_compile_roundtrip [OF pay_compiles] by (simp add: pay_message_def)


lemma pay_message_sane: "message_sanitize pay_message = Inr ()"
  by (simp add: message_sanitize_Inr pay_message_def word_less_nat_alt)


end
