(* ===== verification/Blockhash_Queue.thy ===== *)
theory Blockhash_Queue
  imports Nonce_State Message "HOL-Library.AList"
begin

text \<open>
  The queue of recent blockhashes (\<open>runtime/src/blockhash_queue.rs\<close>): which hashes a
  transaction may name, for how long. The hash map is an association list with distinct keys; the
  order of its entries is not observed by the lookups. The clock of the machine is an argument.
\<close>

section \<open>Operations\<close>

record hash_age =
  age_fee_calculator :: fee_calculator
  age_hash_height :: u64
  age_timestamp :: u64

record blockhash_queue =
  hash_height :: u64
  last_hash :: "hash option"
  ages :: "(hash \<times> hash_age) list"
  max_age :: nat

definition bq_new :: "nat \<Rightarrow> blockhash_queue" where
  "bq_new m = \<lparr>hash_height = 0, last_hash = None, ages = [], max_age = m\<rparr>"

definition bq_last_hash :: "blockhash_queue \<Rightarrow> ('e, hash) res" where
  "bq_last_hash q = unwrap (last_hash q)"

definition bq_lamports_per_signature :: "blockhash_queue \<Rightarrow> hash \<Rightarrow> u64 option" where
  "bq_lamports_per_signature q h = map_option (\<lambda>a. lamports_per_signature (age_fee_calculator a)) (map_of (ages q) h)"

definition check_hash_age :: "blockhash_queue \<Rightarrow> hash \<Rightarrow> nat \<Rightarrow> bool option" where
  "check_hash_age q h m = map_option (\<lambda>a. hash_height q - age_hash_height a \<le> of_nat m) (map_of (ages q) h)"

definition get_hash_age :: "blockhash_queue \<Rightarrow> hash \<Rightarrow> u64 option" where
  "get_hash_age q h = map_option (\<lambda>a. hash_height q - age_hash_height a) (map_of (ages q) h)"

definition check_hash :: "blockhash_queue \<Rightarrow> hash \<Rightarrow> bool" where
  "check_hash q h = (map_of (ages q) h \<noteq> None)"

definition genesis_hash :: "hash \<Rightarrow> u64 \<Rightarrow> u64 \<Rightarrow> blockhash_queue \<Rightarrow> blockhash_queue" where
  "genesis_hash h l now q =
     q\<lparr>ages := AList.update h \<lparr>age_fee_calculator = fee_calculator_new l, age_hash_height = 0, age_timestamp = now\<rparr> (ages q),
       last_hash := Some h\<rparr>"

definition check_age :: "u64 \<Rightarrow> nat \<Rightarrow> hash_age \<Rightarrow> bool" where
  "check_age height m a = (height - age_hash_height a \<le> of_nat m)"

definition register_hash :: "hash \<Rightarrow> u64 \<Rightarrow> u64 \<Rightarrow> blockhash_queue \<Rightarrow> blockhash_queue" where
  "register_hash h l now q =
     (let height = hash_height q + 1;
          kept = (if max_age q \<le> length (ages q) then filter (\<lambda>(_, a). check_age height (max_age q) a) (ages q) else ages q)
      in q\<lparr>hash_height := height,
           ages := AList.update h \<lparr>age_fee_calculator = fee_calculator_new l, age_hash_height = height, age_timestamp = now\<rparr> kept,
           last_hash := Some h\<rparr>)"

definition hash_height_to_timestamp :: "blockhash_queue \<Rightarrow> u64 \<Rightarrow> u64 option" where
  "hash_height_to_timestamp q height =
     map_option (\<lambda>e. age_timestamp (snd e)) (List.find (\<lambda>e. age_hash_height (snd e) = height) (ages q))"

definition bq_recent_blockhashes :: "blockhash_queue \<Rightarrow> (u64 \<times> hash \<times> u64) list" where
  "bq_recent_blockhashes q =
     map (\<lambda>(h, a). (age_hash_height a, h, lamports_per_signature (age_fee_calculator a))) (ages q)"

section \<open>What the queue remembers\<close>

text \<open>\<open>hs\<close> are the hashes registered so far, newest first, the genesis hash last.\<close>

definition remembers :: "hash list \<Rightarrow> blockhash_queue \<Rightarrow> bool" where
  "remembers hs q \<longleftrightarrow> hs \<noteq> [] \<and> length hs \<le> 2 ^ 64 \<and> max_age q < 2 ^ 64 \<and> unat (hash_height q) = length hs - 1 \<and> last_hash q = Some (hd hs)
     \<and> distinct (map fst (ages q)) \<and> length (ages q) \<le> Suc (max_age q)
     \<and> (\<forall>h a. map_of (ages q) h = Some a \<longrightarrow>
          (\<exists>i. find_position h hs = Some i \<and> unat (age_hash_height a) + i = length hs - 1))
     \<and> (\<forall>h i. find_position h hs = Some i \<and> i \<le> max_age q \<longrightarrow> map_of (ages q) h \<noteq> None)"

lemma map_of_filter_distinct:
  "distinct (map fst xs) \<Longrightarrow> map_of (filter (\<lambda>(k, v). P v) xs) k = (case map_of xs k of Some v \<Rightarrow> if P v then Some v else None | None \<Rightarrow> None)"
  by (induction xs) (auto simp: image_iff split: option.splits)

lemma find_position_inj: "find_position x xs = Some i \<Longrightarrow> find_position y xs = Some i \<Longrightarrow> x = y"
  using find_position_Some by metis

lemma remembers_age:
  assumes "remembers hs q" "map_of (ages q) h = Some a" "find_position h hs = Some i"
  shows "unat (hash_height q - age_hash_height a) = i"
proof -
  have "unat (age_hash_height a) + i = unat (hash_height q)" using assms unfolding remembers_def by (metis option.inject)
  then show ?thesis by (simp add: unat_sub word_le_nat_alt)
qed

lemma remembers_genesis: "m < 2 ^ 64 \<Longrightarrow> remembers [g] (genesis_hash g l now (bq_new m))"
  by (simp add: remembers_def genesis_hash_def bq_new_def)

lemma length_update_le: "length (AList.update k v al) \<le> Suc (length al)"
  by (induction al) auto

text \<open>Entries at distinct positions below \<open>n\<close>: at most \<open>n\<close> of them.\<close>

lemma length_le_positions:
  assumes "distinct (map fst al)" "\<And>k v. map_of al k = Some v \<Longrightarrow> \<exists>i<n. find_position k hs = Some i"
  shows "length al \<le> n"
proof -
  let ?pos = "\<lambda>k. the (find_position k hs)"
  have pos: "\<exists>i<n. find_position k hs = Some i" if "k \<in> fst ` set al" for k
    using that assms(2) by (metis map_of_eq_None_iff not_None_eq)
  have "inj_on ?pos (fst ` set al)"
    by (rule inj_onI) (metis pos find_position_inj option.sel)
  moreover have "?pos ` fst ` set al \<subseteq> {..<n}" using pos by fastforce
  ultimately have "card (fst ` set al) \<le> n" using card_inj_on_le [of ?pos "fst ` set al" "{..<n}"] by simp
  then show ?thesis using assms(1) by (metis distinct_card length_map set_map)
qed

lemma remembers_register:
  assumes "remembers hs q" "length hs < 2 ^ 64"
  shows "remembers (h # hs) (register_hash h l now q)"
proof -
  define height where "height = hash_height q + 1"
  define kept where "kept = (if max_age q \<le> length (ages q) then filter (\<lambda>(_, a). check_age height (max_age q) a) (ages q) else ages q)"
  define a0 where "a0 = \<lparr>age_fee_calculator = fee_calculator_new l, age_hash_height = height, age_timestamp = now\<rparr>"
  have q: "hs \<noteq> []" "unat (hash_height q) = length hs - 1" "distinct (map fst (ages q))" "length (ages q) \<le> Suc (max_age q)" "max_age q < 2 ^ 64"
    using assms(1) by (auto simp: remembers_def)
  have entry: "\<exists>i. find_position k hs = Some i \<and> unat (age_hash_height a) + i = length hs - 1" if "map_of (ages q) k = Some a" for k a
    using assms(1) that by (simp add: remembers_def)
  have present: "map_of (ages q) k \<noteq> None" if "find_position k hs = Some i" "i \<le> max_age q" for k i
    using assms(1) that unfolding remembers_def by blast
  have height: "unat height = length hs"
    unfolding height_def using q(1,2) assms(2) by (simp add: unat_plus_if_size word_size)
  have reg: "register_hash h l now q = q\<lparr>hash_height := height, ages := AList.update h a0 kept, last_hash := Some h\<rparr>"
    by (simp add: register_hash_def Let_def height_def kept_def a0_def)
  have age: "unat (height - age_hash_height a) = Suc i" if "map_of (ages q) k = Some a" "find_position k hs = Some i" for k a i
  proof -
    have "unat (age_hash_height a) + i = length hs - 1" using entry [OF that(1)] that(2) by auto
    then have "unat (age_hash_height a) + Suc i = unat height" using height q(1) by (cases hs) auto
    then show ?thesis by (simp add: unat_sub word_le_nat_alt)
  qed
  have kept_sub: "map_of kept k = Some a \<Longrightarrow> map_of (ages q) k = Some a" for k a
    unfolding kept_def using q(3) by (auto simp: map_of_filter_distinct split: if_splits option.splits)
  have kept_present: "map_of kept k \<noteq> None" if f: "find_position k hs = Some i" "Suc i \<le> max_age q" for k i
  proof -
    from present [OF f(1)] f(2) obtain a where a: "map_of (ages q) k = Some a" by auto
    have "check_age height (max_age q) a"
      using age [OF a f(1)] f(2) q(5) by (simp add: check_age_def word_le_nat_alt unat_of_nat)
    then show ?thesis unfolding kept_def using q(3) a by (simp add: map_of_filter_distinct)
  qed
  have "length kept \<le> max_age q"
  proof (cases "max_age q \<le> length (ages q)")
    case True
    show ?thesis
    proof (rule length_le_positions)
      show "distinct (map fst kept)" unfolding kept_def using q(3) by (simp add: distinct_map_filter)
      fix k a assume k: "map_of kept k = Some a"
      then obtain i where i: "find_position k hs = Some i" using entry [OF kept_sub] by blast
      have "check_age height (max_age q) a"
        using k True q(3) unfolding kept_def by (auto simp: map_of_filter_distinct split: if_splits option.splits)
      then show "\<exists>i<max_age q. find_position k hs = Some i"
        using age [OF kept_sub [OF k] i] i q(5) by (simp add: check_age_def word_le_nat_alt unat_of_nat)
    qed
  qed (simp add: kept_def)
  then have "length (AList.update h a0 kept) \<le> Suc (max_age q)" using length_update_le [of h a0 kept] by linarith
  moreover have "distinct (map fst (AList.update h a0 kept))"
    unfolding kept_def using q(3) by (simp add: distinct_update distinct_map_filter)
  moreover have "\<exists>i. find_position k (h # hs) = Some i \<and> unat (age_hash_height a) + i = length hs"
    if "map_of (AList.update h a0 kept) k = Some a" for k a
    using that entry [OF kept_sub, of k a] q(1) height
    by (cases hs) (auto simp: update_conv' a0_def split: if_splits)
  moreover have "map_of (AList.update h a0 kept) k \<noteq> None" if "find_position k (h # hs) = Some i" "i \<le> max_age q" for k i
    using that kept_present [of k "i - 1"] by (auto simp: update_conv' split: if_splits)
  ultimately show ?thesis
    unfolding remembers_def reg using height assms(2) q(5) by simp
qed

lemma remembers_present:
  "remembers hs q \<Longrightarrow> find_position h hs = Some i \<Longrightarrow> i \<le> max_age q \<Longrightarrow> map_of (ages q) h \<noteq> None"
  unfolding remembers_def by blast

lemma remembers_entry: "remembers hs q \<Longrightarrow> map_of (ages q) h = Some a \<Longrightarrow> \<exists>i. find_position h hs = Some i"
  unfolding remembers_def by blast

lemma in_take_iff_position: "x \<in> set (take n xs) \<longleftrightarrow> (\<exists>i<n. find_position x xs = Some i)"
proof (induction xs arbitrary: n)
  case (Cons y ys)
  show ?case
  proof (cases n)
    case (Suc n')
    then show ?thesis using Cons [of n'] by (auto intro: exI [of _ "Suc _"])
  qed simp
qed simp

definition bq_after :: "nat \<Rightarrow> hash \<times> u64 \<times> u64 \<Rightarrow> (hash \<times> u64 \<times> u64) list \<Rightarrow> blockhash_queue" where
  "bq_after m g regs =
     fold (\<lambda>(h, l, now). register_hash h l now) regs (case g of (h, l, now) \<Rightarrow> genesis_hash h l now (bq_new m))"

lemma register_hash_max [simp]: "max_age (register_hash h l now q) = max_age q"
  by (simp add: register_hash_def Let_def)

lemma remembers_all:
  "remembers hs q \<Longrightarrow> length hs + length regs \<le> 2 ^ 64 \<Longrightarrow>
     remembers (rev (map fst regs) @ hs) (fold (\<lambda>(h, l, now). register_hash h l now) regs q)
     \<and> max_age (fold (\<lambda>(h, l, now). register_hash h l now) regs q) = max_age q"
proof (induction regs arbitrary: hs q)
  case (Cons r regs)
  obtain h l now where r: "r = (h, l, now)" by (cases r)
  then show ?case
    using Cons.IH [of "h # hs" "register_hash h l now q"] remembers_register [OF Cons.prems(1), of h l now] Cons.prems(2) by simp
qed simp

text \<open>C39: A transaction may name exactly the newest blockhashes: after any sequence of blocks, a hash
  passes the check for age \<open>m\<close> exactly when it is among the \<open>m + 1\<close> hashes registered last, the
  queue never holds more than its maximal age plus one entries, and the last hash is the newest.\<close>

theorem blockhash_queue_recent:
  assumes "m \<le> max_age0" "max_age0 < 2 ^ 64" "length regs < 2 ^ 64"
  shows "(check_hash_age (bq_after max_age0 (g, l, now) regs) h m = Some True
        \<longleftrightarrow> h \<in> set (take (Suc m) (rev (map fst regs) @ [g])))
    \<and> length (ages (bq_after max_age0 (g, l, now) regs)) \<le> Suc max_age0
    \<and> last_hash (bq_after max_age0 (g, l, now) regs) = Some (hd (rev (map fst regs) @ [g]))"
proof -
  let ?q = "bq_after max_age0 (g, l, now) regs" and ?hs = "rev (map fst regs) @ [g]"
  have "remembers [g] (genesis_hash g l now (bq_new max_age0))" by (rule remembers_genesis [OF assms(2)])
  moreover have "length [g] + length regs \<le> 2 ^ 64" using assms(3) by simp
  ultimately have "remembers ?hs ?q \<and> max_age ?q = max_age (genesis_hash g l now (bq_new max_age0))"
    unfolding bq_after_def prod.case by (rule remembers_all)
  then have r: "remembers ?hs ?q" and m: "max_age ?q = max_age0" by (simp_all add: genesis_hash_def bq_new_def)
  have "check_hash_age ?q h m = Some True \<longleftrightarrow> (\<exists>i<Suc m. find_position h ?hs = Some i)"
  proof (cases "map_of (ages ?q) h")
    case None
    then have "\<not> (\<exists>i<Suc m. find_position h ?hs = Some i)"
      using remembers_present [OF r, of h] m assms(1) by fastforce
    then show ?thesis using None by (simp add: check_hash_age_def)
  next
    case (Some a)
    then obtain i where i: "find_position h ?hs = Some i" using remembers_entry [OF r] by blast
    from remembers_age [OF r Some i] show ?thesis
      using Some i assms(1,2) by (auto simp: check_hash_age_def word_le_nat_alt unat_of_nat)
  qed
  then have "check_hash_age ?q h m = Some True \<longleftrightarrow> h \<in> set (take (Suc m) ?hs)" by (simp only: in_take_iff_position)
  moreover have "length (ages ?q) \<le> Suc max_age0" "last_hash ?q = Some (hd ?hs)"
    using r m unfolding remembers_def by simp_all
  ultimately show ?thesis by blast
qed

theorem blockhash_queue_recent_witness:
  "check_hash_age (bq_after 2 (10, 0, 0) [(11, 0, 0), (12, 0, 0), (13, 0, 0), (14, 0, 0)]) 12 2 = Some True
   \<and> check_hash_age (bq_after 2 (10, 0, 0) [(11, 0, 0), (12, 0, 0), (13, 0, 0), (14, 0, 0)]) 11 2 \<noteq> Some True"
  using blockhash_queue_recent [of 2 2 "[(11, 0, 0), (12, 0, 0), (13, 0, 0), (14, 0, 0)]" 10 0 0 12]
    blockhash_queue_recent [of 2 2 "[(11, 0, 0), (12, 0, 0), (13, 0, 0), (14, 0, 0)]" 10 0 0 11]
  by simp

end
