(* ===== verification/Durable_Nonce.thy ===== *)
theory Durable_Nonce
  imports System_Program Blockhash_Queue
begin

text \<open>
  Transactions that name a durable nonce instead of a recent blockhash: how the bank recognises
  them (\<open>runtime/src/bank.rs\<close>, \<open>sdk/program/src/message/sanitized.rs\<close>), how a nonce is
  used up even when the transaction fails (\<open>runtime/src/accounts.rs\<close>), and that no nonce is
  ever good twice. The accounts database, the status cache and the deserialization of
  instruction data are parameters.
\<close>

section \<open>Recognising a nonce transaction\<close>

text \<open>\<open>deser\<close> is \<open>limited_deserialize\<close> with the limit of four bytes.\<close>

definition sm_durable_nonce ::
  "(u8 list \<Rightarrow> system_instruction option) \<Rightarrow> bool \<Rightarrow> sanitized_message \<Rightarrow> (sanitize_error, pubkey option) res" where
  "sm_durable_nonce deser nonce_must_be_writable m =
     (case sm_instructions m of
        [] \<Rightarrow> Inr None
      | ix # _ \<Rightarrow>
          if sm_get_key m (unat (program_id_index ix)) \<noteq> Some system_program_id then Inr None
          else if deser (ci_data ix) \<noteq> Some AdvanceNonceAccount then Inr None
          else
            (case ci_accounts ix of
               [] \<Rightarrow> Inr None
             | idx # _ \<Rightarrow>
                 and_then (if nonce_must_be_writable then sm_is_writable m (unat idx) else Inr True) (\<lambda>w.
                 Inr (if w then sm_get_key m (unat idx) else None))))"

datatype transaction_error =
    AccountInUse | AccountLoadedTwice | AccountNotFound | ProgramAccountNotFound
  | InsufficientFundsForFee | InvalidAccountForFee | AlreadyProcessed | BlockhashNotFound
  | TxInstructionError u8 instruction_error | CallChainTooDeep | MissingSignatureForFee
  | InvalidAccountIndex | SignatureFailure | InvalidProgramForExecution | SanitizeFailure
  | ClusterMaintenance | TxAccountBorrowOutstanding | WouldExceedMaxBlockCostLimit
  | UnsupportedVersion | InvalidWritableAccount | WouldExceedMaxAccountCostLimit
  | WouldExceedAccountDataBlockLimit | TooManyAccountLocks | AddressLookupTableNotFound
  | InvalidAddressLookupTableOwner | InvalidAddressLookupTableData | InvalidAddressLookupTableIndex
  | InvalidRentPayingAccount | WouldExceedMaxVoteCostLimit | WouldExceedAccountDataTotalLimit
  | DuplicateInstruction u8 | InsufficientFundsForRent u8

text \<open>
  What the bank knows: its features, slot, cluster, blockhash queue, the account a key loads, and
  which message hashes the status cache has for a blockhash on this fork.
\<close>

record 'b bank =
  b_features :: "feature set"
  b_slot :: slot
  b_mainnet :: bool
  b_queue :: blockhash_queue
  b_load :: "pubkey \<Rightarrow> 'b account option"
  b_processed :: "hash \<Rightarrow> hash \<Rightarrow> bool"
  b_codec :: "'b nonce_codec"
  b_durable :: "hash \<Rightarrow> hash"
  b_deser :: "u8 list \<Rightarrow> system_instruction option"

definition separate_nonce_from_blockhash :: "'b bank \<Rightarrow> bool" where
  "separate_nonce_from_blockhash b = is_active (b_features b) Separate_nonce_from_blockhash"

definition check_message_for_nonce ::
  "'b bank \<Rightarrow> sanitized_message \<Rightarrow> (transaction_error, (pubkey \<times> 'b account) option) res" where
  "check_message_for_nonce b m =
     and_then (map_err (\<lambda>_. SanitizeFailure)
       (sm_durable_nonce (b_deser b) (is_active (b_features b) Nonce_must_be_writable) m)) (\<lambda>address.
     Inr (Option.bind address (\<lambda>nonce_address.
       Option.bind (b_load b nonce_address) (\<lambda>nonce_account.
       Option.bind (verify_nonce_account (b_codec b) nonce_account (sm_recent_blockhash m) (separate_nonce_from_blockhash b))
         (\<lambda>nonce_data.
       if is_active (b_features b) Nonce_must_be_authorized then
         if authority nonce_data \<in> set (get_ix_signers m 0) then Some (nonce_address, nonce_account) else None
       else if is_active (b_features b) Disable_durable_nonce then None
       else Some (nonce_address, nonce_account))))))"

definition check_transaction_for_nonce ::
  "'b bank \<Rightarrow> sanitized_message \<Rightarrow> bool \<Rightarrow> hash \<Rightarrow> (transaction_error, (pubkey \<times> 'b account) option) res" where
  "check_transaction_for_nonce b m enable_durable_nonce next_durable_nonce =
     (let durable_nonces_enabled = (enable_durable_nonce \<or> b_slot b \<le> 135986379 \<or> \<not> b_mainnet b);
          nonce_must_be_advanceable = is_active (b_features b) Nonce_must_be_advanceable;
          nonce_is_advanceable = (sm_recent_blockhash m \<noteq> next_durable_nonce)
      in if durable_nonces_enabled \<and> (nonce_is_advanceable \<or> \<not> nonce_must_be_advanceable)
         then check_message_for_nonce b m else Inr None)"

text \<open>One transaction of \<open>check_age\<close>: its lock result, and what it is accepted with.\<close>

definition check_tx_age ::
  "'b bank \<Rightarrow> nat \<Rightarrow> sanitized_message \<Rightarrow> transaction_error option
    \<Rightarrow> (transaction_error, transaction_error option \<times> (pubkey \<times> 'b account) option) res" where
  "check_tx_age b m_age m lock_error =
     and_then (bq_last_hash (b_queue b)) (\<lambda>last_blockhash.
     let separate = separate_nonce_from_blockhash b;
         enable_durable_nonce = (separate \<and> is_active (b_features b) Enable_durable_nonce);
         next_durable_nonce = from_blockhash (b_durable b) last_blockhash separate
     in case lock_error of
          Some e \<Rightarrow> Inr (Some e, None)
        | None \<Rightarrow>
            let hash_age = check_hash_age (b_queue b) (sm_recent_blockhash m) m_age in
            if hash_age = Some True then Inr (None, None)
            else and_then (check_transaction_for_nonce b m enable_durable_nonce next_durable_nonce) (\<lambda>nonce.
              case nonce of
                Some (address, account) \<Rightarrow> Inr (None, Some (address, account))
              | None \<Rightarrow> Inr (Some BlockhashNotFound, None)))"

text \<open>\<open>check_status_cache\<close> of one transaction, given the hash of its message.\<close>

definition check_tx_status ::
  "'b bank \<Rightarrow> sanitized_message \<Rightarrow> hash \<Rightarrow> transaction_error option \<times> (pubkey \<times> 'b account) option
    \<Rightarrow> transaction_error option \<times> (pubkey \<times> 'b account) option" where
  "check_tx_status b m message_hash result =
     (if fst result = None \<and> b_processed b message_hash (sm_recent_blockhash m) then (Some AlreadyProcessed, None) else result)"

definition check_transactions ::
  "'b bank \<Rightarrow> nat \<Rightarrow> (sanitized_message \<times> hash \<times> transaction_error option) list
    \<Rightarrow> (transaction_error, (transaction_error option \<times> (pubkey \<times> 'b account) option) list) res" where
  "check_transactions b m_age txs =
     and_then (bq_last_hash (b_queue b)) (\<lambda>_.
     and_then (map_res (\<lambda>(m, h, lock). check_tx_age b m_age m lock) txs) (\<lambda>age_results.
     Inr (map (\<lambda>((m, h, lock), r). check_tx_status b m h r) (zip txs age_results))))"

section \<open>Using up a nonce\<close>

record 'b nonce_full =
  nf_address :: pubkey
  nf_account :: "'b account"
  nf_fee_payer_account :: "'b account option"

text \<open>
  The account to store, and whether it is the nonce account. \<open>failed\<close> says that execution
  ended with an error.
\<close>

definition prepare_if_nonce_account ::
  "'b nonce_codec \<Rightarrow> pubkey \<Rightarrow> 'b account \<Rightarrow> bool \<Rightarrow> bool \<Rightarrow> ('b nonce_full \<times> bool) option \<Rightarrow> hash \<times> bool \<Rightarrow> u64
    \<Rightarrow> (transaction_error, 'b account \<times> bool) res" where
  "prepare_if_nonce_account c addr account failed is_fee_payer maybe_nonce durable lps =
     (case maybe_nonce of
        None \<Rightarrow> Inr (account, False)
      | Some (nonce, rollback) \<Rightarrow>
          if addr = nf_address nonce then
            let account1 = (if rollback then nf_account nonce else account) in
            and_then (unwrap (decode c (data (nf_account nonce)))) (\<lambda>nonce_versions.
            case versions_state nonce_versions of
              NonceInitialized d \<Rightarrow>
                (case set_state c (versions_new (nonce_new_initialized (authority d) (fst durable) lps) (snd durable)) account1 of
                   Inr account2 \<Rightarrow> Inr (account2, True)
                 | Inl _ \<Rightarrow> Inl Panic)
            | NonceUninitialized \<Rightarrow> Inr (account1, True))
          else if failed \<and> is_fee_payer
            then Inr (case nf_fee_payer_account nonce of Some a \<Rightarrow> (a, False) | None \<Rightarrow> (account, False))
          else Inr (account, False))"

section \<open>The life of a nonce account in the bank\<close>

text \<open>
  The bank is at number \<open>r\<close> of the nonces of the chain: its last blockhash has height
  \<open>r div 2\<close>, and nonces are separated from blockhashes when \<open>r\<close> is odd.
\<close>

definition bank_at :: "(hash \<Rightarrow> hash) \<Rightarrow> 'b nonce_codec \<Rightarrow> (nat \<Rightarrow> hash) \<Rightarrow> nat \<Rightarrow> 'b bank \<Rightarrow> bool" where
  "bank_at dh c bh r b \<longleftrightarrow> b_durable b = dh \<and> b_codec b = c \<and> last_hash (b_queue b) = Some (bh (r div 2))
     \<and> separate_nonce_from_blockhash b = odd r \<and> is_active (b_features b) Nonce_must_be_advanceable"

text \<open>
  A transaction with a nonce that failed: the bank accepted it for its nonce, which the account
  holds, and stores the account with the nonce advanced. Fees and rent may have changed the
  lamports in between.
\<close>

definition failed_with_nonce ::
  "(hash \<Rightarrow> hash) \<Rightarrow> 'b nonce_codec \<Rightarrow> (nat \<Rightarrow> hash) \<Rightarrow> pubkey \<Rightarrow> nat \<Rightarrow> 'b store \<Rightarrow> 'b store \<Rightarrow> bool" where
  "failed_with_nonce dh c bh k r st st' \<longleftrightarrow>
     (\<exists>b m enabled nf acc fee_payer lps a.
        bank_at dh c bh r b
      \<and> check_transaction_for_nonce b m enabled (nth_nonce dh bh r) = Inr (Some (k, st k))
      \<and> nf_address nf = k \<and> data (nf_account nf) = data (st k) \<and> owner (nf_account nf) = owner (st k)
      \<and> prepare_if_nonce_account c k acc True fee_payer (Some (nf, True)) (nth_nonce dh bh r, odd r) lps = Inr (a, True)
      \<and> st' = st(k := a))"

inductive nonce_life ::
  "(hash \<Rightarrow> hash) \<Rightarrow> 'b::zero nonce_codec \<Rightarrow> (nat \<Rightarrow> hash) \<Rightarrow> pubkey \<Rightarrow> nat list \<Rightarrow> 'b store \<Rightarrow> 'b store \<Rightarrow> bool"
  for dh c bh k where
  rest: "nonce_life dh c bh k [] st st"
| executed: "ctx_at bh r (y_ctx env) \<Longrightarrow> y_durable env = dh \<Longrightarrow> y_codec env = c \<Longrightarrow>
    system_process_instruction env kas first ins st = Inr st1 \<Longrightarrow> nonce_life dh c bh k rs st1 st' \<Longrightarrow>
    nonce_life dh c bh k (r # rs) st st'"
| failed: "failed_with_nonce dh c bh k r st st1 \<Longrightarrow> nonce_life dh c bh k rs st1 st' \<Longrightarrow> nonce_life dh c bh k (r # rs) st st'"
| elsewhere: "data (st1 k) = data (st k) \<Longrightarrow> nonce_life dh c bh k rs st1 st' \<Longrightarrow> nonce_life dh c bh k rs st st'"

lemma check_transaction_for_nonce_Inr:
  assumes "check_transaction_for_nonce b m enabled n = Inr (Some (k, a))"
  obtains d where "verify_nonce_account (b_codec b) a (sm_recent_blockhash m) (separate_nonce_from_blockhash b) = Some d"
    "b_load b k = Some a" "is_active (b_features b) Nonce_must_be_advanceable \<longrightarrow> sm_recent_blockhash m \<noteq> n"
  using assms by (auto simp: check_transaction_for_nonce_def check_message_for_nonce_def Let_def res_elim bind_eq_Some_conv
      split: if_splits)

lemma verify_state_Some: "verify_state s h = Some d \<longleftrightarrow> s = NonceInitialized d \<and> durable_nonce d = h"
  by (cases s) (auto simp: nonce_blockhash_def)

lemma verify_recent_blockhash_Some:
  "verify_recent_blockhash v h separate = Some d \<Longrightarrow> versions_state v = NonceInitialized d \<and> durable_nonce d = h"
  by (cases v) (auto simp: verify_state_Some split: if_splits)

lemma verify_nonce_account_Some:
  assumes "verify_nonce_account c a h separate = Some d"
  obtains v where "decode c (data a) = Some v" "versions_state v = NonceInitialized d" "durable_nonce d = h"
  using assms by (auto simp: verify_nonce_account_def get_state_Inr split: if_splits sum.splits dest: verify_recent_blockhash_Some)

lemma failed_with_nonce_moves:
  assumes "failed_with_nonce dh c bh k r st st'" "codec_ok c"
  obtains v n v' where "decode c (data (st k)) = Some v" "stored_nonce v = Some n" "n \<noteq> nth_nonce dh bh r"
    "decode c (data (st' k)) = Some v'" "nonce_at dh bh r v'"
proof -
  from assms(1) obtain b m enabled nf acc fee_payer lps a where b: "bank_at dh c bh r b"
    and chk: "check_transaction_for_nonce b m enabled (nth_nonce dh bh r) = Inr (Some (k, st k))"
    and nf: "nf_address nf = k" "data (nf_account nf) = data (st k)"
    and prep: "prepare_if_nonce_account c k acc True fee_payer (Some (nf, True)) (nth_nonce dh bh r, odd r) lps = Inr (a, True)"
    and st': "st' = st(k := a)"
    by (auto simp: failed_with_nonce_def)
  from chk obtain d where ver: "verify_nonce_account c (st k) (sm_recent_blockhash m) (odd r) = Some d"
    and n: "sm_recent_blockhash m \<noteq> nth_nonce dh bh r"
    using b by (auto simp: bank_at_def elim!: check_transaction_for_nonce_Inr)
  from ver obtain v where v: "decode c (data (st k)) = Some v" "versions_state v = NonceInitialized d"
    "durable_nonce d = sm_recent_blockhash m" by (rule verify_nonce_account_Some)
  let ?v' = "versions_new (nonce_new_initialized (authority d) (nth_nonce dh bh r) lps) (odd r)"
  from prep nf v have "set_state c ?v' (nf_account nf) = Inr a"
    by (auto simp: prepare_if_nonce_account_def unwrap_def split: sum.splits)
  then have "decode c (data a) = Some ?v'" using get_set_state [OF assms(2)] by (auto simp: get_state_Inr)
  with v n st' nonce_at_new [of dh bh r] show thesis by (intro that [of v "sm_recent_blockhash m" ?v']) auto
qed

lemma nonce_life_beyond:
  assumes "nonce_life dh c bh k rs st st'" "codec_ok c" "decode c [] = None"
  shows "sorted (now # rs) \<Longrightarrow> decode c (data (st k)) = Some v \<Longrightarrow> beyond dh bh r now v \<Longrightarrow>
    \<exists>v' now'. decode c (data (st' k)) = Some v' \<and> beyond dh bh r now' v' \<and> now' \<in> set (now # rs)"
  using assms(1)
proof (induction arbitrary: now v rule: nonce_life.induct)
  case (executed r' env kas first ins st st1 rs st')
  obtain v1 where v1: "decode c (data (st1 k)) = Some v1"
    "(nonce_step dh (y_ctx env) (get_signers (drop first kas)))\<^sup>=\<^sup>= v v1"
    using system_nonce_step [OF executed.hyps(4), of k v] executed.hyps(2,3) executed.prems(2) assms(2,3) by auto
  have "now \<le> r'" "sorted (r' # rs)" using executed.prems(1) by auto
  then have "beyond dh bh r r' v1"
    using v1(2) executed.prems(3) nonce_step_beyond [OF _ executed.hyps(1), of dh _ v v1 r now]
    by (auto simp: beyond_def)
  from executed.IH [OF \<open>sorted (r' # rs)\<close> v1(1) this] show ?case by auto
next
  case (failed r' st st1 rs st')
  obtain v1 where v1: "decode c (data (st1 k)) = Some v1" "nonce_at dh bh r' v1"
    using failed_with_nonce_moves [OF failed.hyps(1) assms(2)] by metis
  have "now \<le> r'" "sorted (r' # rs)" using failed.prems(1) by auto
  then have "beyond dh bh r r' v1" using v1(2) failed.prems(3) by (auto simp: beyond_def)
  from failed.IH [OF \<open>sorted (r' # rs)\<close> v1(1) this] show ?case by auto
qed auto

text \<open>A nonce is used up at number \<open>r\<close>: it was advanced by the program, or its transaction failed.\<close>

definition nonce_used ::
  "(hash \<Rightarrow> hash) \<Rightarrow> 'b::zero nonce_codec \<Rightarrow> (nat \<Rightarrow> hash) \<Rightarrow> pubkey \<Rightarrow> nat \<Rightarrow> 'b store \<Rightarrow> 'b store \<Rightarrow> bool" where
  "nonce_used dh c bh k r st st' \<longleftrightarrow>
     (\<exists>env kas first. ctx_at bh r (y_ctx env) \<and> y_durable env = dh \<and> y_codec env = c \<and> key (kas ! first) = k
        \<and> system_process_instruction env kas first (Some AdvanceNonceAccount) st = Inr st')
     \<or> failed_with_nonce dh c bh k r st st'"

lemma advance_nonce_account_at:
  assumes "advance_nonce_account dh c me signers ctx st = Inr st'" "codec_ok c" "ctx_at bh r ctx"
    and "decode c (data (st (key me))) = Some v"
  obtains n v' where "stored_nonce v = Some n" "n \<noteq> nth_nonce dh bh r"
    "decode c (data (st' (key me))) = Some v'" "nonce_at dh bh r v'"
proof -
  from assms obtain d where d: "versions_state v = NonceInitialized d" "durable_nonce d \<noteq> nth_nonce dh bh r"
    "upd_account me (set_state c (versions_new
       (nonce_new_initialized (authority d) (nth_nonce dh bh r) (ctx_lamports_per_signature ctx)) (odd r))) st = Inr st'"
    by (cases "versions_state v") (auto simp: advance_nonce_account_def get_state_Inr res_elim acct_def
        get_durable_nonce_at Let_def nonce_new_initialized_def fail_def)
  then show thesis
    using get_set_state_store [OF assms(2) d(3)] nonce_at_new [of dh bh r] by (intro that) (auto simp: get_state_Inr acct_def)
qed

lemma nonce_used_beyond:
  assumes "nonce_used dh c bh k r st st'" "codec_ok c" "decode c (data (st k)) = Some v" "nonce_at dh bh r0 v" "r0 \<le> r"
  obtains v' where "decode c (data (st' k)) = Some v'" "beyond dh bh r0 r v'"
proof -
  obtain n v' where "stored_nonce v = Some n" "n \<noteq> nth_nonce dh bh r" "decode c (data (st' k)) = Some v'" "nonce_at dh bh r v'"
    using assms(1) unfolding nonce_used_def
  proof (elim disjE exE conjE)
    fix env kas first
    assume env: "ctx_at bh r (y_ctx env)" "y_durable env = dh" "y_codec env = c" "key (kas ! first) = k"
      and "system_process_instruction env kas first (Some AdvanceNonceAccount) st = Inr st'"
    then have "advance_nonce_account dh c (kas ! first) (get_signers (drop first kas)) (y_ctx env) st = Inr st'"
      by (auto simp: system_process_instruction_def Let_def res_elim acct)
    then show thesis using assms(2,3) env(1,4) that by (elim advance_nonce_account_at) auto
  next
    assume "failed_with_nonce dh c bh k r st st'"
    then show thesis using assms(2,3) that by (elim failed_with_nonce_moves) auto
  qed
  moreover from this(1,2) assms(4,5) have "r0 < r" by (auto simp: nonce_at_def intro: le_neq_trans)
  ultimately show thesis by (intro that [of v']) (auto simp: beyond_def)
qed

section \<open>Properties\<close>


text \<open>The nonce account 7 holds the blockhash 1, is advanced to 2 and then to 3.\<close>

definition eg_bank :: "ncell bank" where
  "eg_bank = \<lparr>b_features = {}, b_slot = 0, b_mainnet = True, b_queue = bq_new 300, b_load = (\<lambda>k. Some (eg_accounts 3 k)),
     b_processed = (\<lambda>_ _. False), b_codec = ncodec, b_durable = (\<lambda>n. n + 1000), b_deser = (\<lambda>_. Some AdvanceNonceAccount)\<rparr>"

definition eg_advance :: "keyed_account list" where
  "eg_advance = [eg_signed 7, \<lparr>is_signer = False, is_writable = False, key = recent_blockhashes_id\<rparr>, eg_signed 5]"

definition eg_message :: sanitized_message where
  "eg_message = LegacyMessage \<lparr>header = \<lparr>num_required_signatures = 1, num_readonly_signed_accounts = 0,
     num_readonly_unsigned_accounts = 1\<rparr>, account_keys = [5, 7, 0], recent_blockhash = 1,
     instructions = [\<lparr>program_id_index = 2, ci_accounts = [1, 0], ci_data = [4, 0, 0, 0]\<rparr>]\<rparr>"

lemma eg_advance_ok:
  "h \<noteq> h' \<Longrightarrow> system_process_instruction (eg_sys h') eg_advance 0 (Some AdvanceNonceAccount) (eg_accounts h) = Inr (eg_accounts h')"
  by (simp add: system_eval eg_advance_def sysvar_recent_blockhashes_checked_def check_sysvar_keyed_account_def
      get_recent_blockhashes_def ensure_def ok_or_def advance_nonce_account_def nonce_writable_def get_state_def set_state_def
      get_durable_nonce_def from_blockhash_def versions_new_def nonce_new_initialized_def nonce_data_new_def)


end
