(* ===== verification/Spec2Isabelle.thy ===== *)
theory Spec2Isabelle
  imports Vote_Program Stake_Dispatch Durable_Nonce
begin

text \<open>
  A verification development for the native programs of the Velas chain: the vote program, the
  stake program, the config program and the sysvars they read.
\<close>

end
